(* ===== verification/Prelude.thy ===== *)
theory Prelude
  imports Main "HOL-Library.Word"
begin

text \<open>
  Shared vocabulary of the development.

  \<^item> \<open>usize\<close> and \<open>u8\<close> are Rust's integers at their width on a 64-bit target.
  \<^item> \<open>fault\<close> lists the ways an execution can stop abnormally: a panic (an index or a slice out
    of range, a failed assertion, an arithmetic overflow in a debug build) or, for
    \<open>Uninit_Read\<close>, undefined behaviour (an \<open>assume_init\<close> on an uninitialised cell).
    An operation that may stop this way returns \<open>'a exec\<close>, that is \<open>fault + 'a\<close>.
  \<^item> \<open>seg i xs\<close> is the partial map of the cells \<open>i, i+1, \<dots>\<close> to the elements of
    \<open>xs\<close>; it is how the contents of a range of a buffer are written down.
  \<^item> \<open>two_get\<close> and \<open>two_set\<close> read and write the two-element arrays of the queue.

  Plain \<open>+\<close> and \<open>-\<close> of the source are the checked \<open>add_usize\<close> and \<open>sub_usize\<close>
  (a debug build panics on overflow); the atomics' \<open>fetch_add\<close> and \<open>fetch_sub\<close> wrap, and
  are the word operations.
\<close>

unbundle bit_operations_syntax

section \<open>Types\<close>

type_synonym usize = "64 word"
type_synonym u8 = "8 word"
type_synonym range = "usize \<times> usize"

datatype fault =
    Index_Out_Of_Bounds
  | Arithmetic_Overflow
  | Assertion_Failed
  | Expect_Failed
  | Unreachable
  | Uninit_Read

type_synonym 'a exec = "fault + 'a"

named_theorems usize_simps \<open>arithmetic of \<open>usize\<close> values, read as natural numbers\<close>
named_theorems exec_simps \<open>sequencing of operations that may fault\<close>
named_theorems seg_simps \<open>contents of ranges of cells\<close>

section \<open>Sequencing of operations that may fault\<close>

definition and_then :: "'a exec \<Rightarrow> ('a \<Rightarrow> 'b exec) \<Rightarrow> 'b exec" where
  "and_then m f = (case m of Inl e \<Rightarrow> Inl e | Inr x \<Rightarrow> f x)"

lemma and_then_Inl [simp, exec_simps]: "and_then (Inl e) f = Inl e"
  by (simp add: and_then_def)

lemma and_then_Inr [simp, exec_simps]: "and_then (Inr x) f = f x"
  by (simp add: and_then_def)

lemma and_then_cong [fundef_cong]:
  "m = n \<Longrightarrow> (\<And>x. n = Inr x \<Longrightarrow> f x = g x) \<Longrightarrow> and_then m f = and_then n g"
  by (cases n) auto

lemma and_then_eq_Inr:
  "and_then m f = Inr y \<longleftrightarrow> (\<exists>x. m = Inr x \<and> f x = Inr y)"
  by (cases m) auto

lemma and_then_assoc: "and_then (and_then m f) g = and_then m (\<lambda>x. and_then (f x) g)"
  by (cases m) auto

definition guard :: "fault \<Rightarrow> bool \<Rightarrow> unit exec" where
  "guard e b = (if b then Inr () else Inl e)"

lemma guard_simps [simp, exec_simps]:
  "guard e True = Inr ()" "guard e False = Inl e"
  by (simp_all add: guard_def)

lemma guard_eq_Inr [simp]: "guard e b = Inr u \<longleftrightarrow> b"
  by (cases b) auto

section \<open>Machine arithmetic\<close>

definition add_usize :: "usize \<Rightarrow> usize \<Rightarrow> usize exec" where
  "add_usize a b = (if a \<le> a + b then Inr (a + b) else Inl Arithmetic_Overflow)"

definition sub_usize :: "usize \<Rightarrow> usize \<Rightarrow> usize exec" where
  "sub_usize a b = (if b \<le> a then Inr (a - b) else Inl Arithmetic_Overflow)"

definition checked_sub :: "usize \<Rightarrow> usize \<Rightarrow> usize option" where
  "checked_sub a b = (if b \<le> a then Some (a - b) else None)"

definition saturating_sub :: "usize \<Rightarrow> usize \<Rightarrow> usize" where
  "saturating_sub a b = (if b \<le> a then a - b else 0)"

lemma unat_usize_less: "unat (w :: usize) < 18446744073709551616"
  using unsigned_less [of w, where 'a = nat] by simp

lemma unat_of_nat_usize [usize_simps]:
  "n < 18446744073709551616 \<Longrightarrow> unat (of_nat n :: usize) = n"
  by (simp add: unat_of_nat)

lemma of_nat_unat_usize [simp]: "(of_nat (unat w) :: usize) = w"
  by simp

lemma usize_eq_iff: "(a :: usize) = b \<longleftrightarrow> unat a = unat b"
  by (rule word_unat_eq_iff)

lemma unat_sub_usize [usize_simps]: "(b :: usize) \<le> a \<Longrightarrow> unat (a - b) = unat a - unat b"
  by (rule unat_sub)

lemma unat_add_usize [usize_simps]:
  "unat (a :: usize) + unat b < 18446744073709551616 \<Longrightarrow> unat (a + b) = unat a + unat b"
  by (simp add: unat_word_ariths)

lemma sub_usize_ok [simp]: "b \<le> a \<Longrightarrow> sub_usize a b = Inr (a - b)"
  by (simp add: sub_usize_def)

lemma add_usize_iff:
  "add_usize a b =
     (if unat a + unat b < 18446744073709551616 then Inr (a + b) else Inl Arithmetic_Overflow)"
  by (simp add: add_usize_def no_olen_add_nat)

lemma add_usize_ok: "unat a + unat b < 18446744073709551616 \<Longrightarrow> add_usize a b = Inr (a + b)"
  by (simp add: add_usize_iff)

lemma saturating_sub_unat: "unat (saturating_sub a b) = unat a - unat b"
  by (auto simp: saturating_sub_def unat_sub word_le_nat_alt)

lemma unat_mod_usize: "unat ((a :: usize) mod b) = unat a mod unat b"
  by (rule unat_mod_distrib)

lemma unat_div_usize: "unat ((a :: usize) div b) = unat a div unat b"
  by (rule unat_div_distrib)

lemma odd_usize: "odd (w :: usize) \<longleftrightarrow> unat w mod 2 = 1"
proof -
  have "unat w mod 2 = unat (w mod 2)"
    by (simp add: unat_mod_usize)
  also have "w mod 2 = of_bool (odd w)"
    by (simp add: mod_2_eq_odd)
  finally show ?thesis by (cases "odd w") auto
qed

section \<open>Two-element arrays\<close>

type_synonym 'a two = "'a \<times> 'a"

definition two_get :: "'a two \<Rightarrow> usize \<Rightarrow> 'a" where
  "two_get p i = (if i = 0 then fst p else snd p)"

definition two_set :: "'a two \<Rightarrow> usize \<Rightarrow> 'a \<Rightarrow> 'a two" where
  "two_set p i x = (if i = 0 then (x, snd p) else (fst p, x))"

lemma two_get_set_same [simp]: "two_get (two_set p i x) i = x"
  by (simp add: two_get_def two_set_def)

lemma two_get_set_other: "(i = 0) \<noteq> (j = 0) \<Longrightarrow> two_get (two_set p i x) j = two_get p j"
  by (auto simp: two_get_def two_set_def)

section \<open>Contents of a range of cells\<close>

definition seg :: "nat \<Rightarrow> 'a list \<Rightarrow> nat \<rightharpoonup> 'a" where
  "seg i xs = (\<lambda>k. if i \<le> k \<and> k < i + length xs then Some (xs ! (k - i)) else None)"

lemma dom_seg [simp, seg_simps]: "dom (seg i xs) = {i..<i + length xs}"
  by (auto simp: seg_def split: if_splits)

lemma seg_Nil [simp, seg_simps]: "seg i [] = Map.empty"
  by (rule ext) (simp add: seg_def)

lemma seg_apply: "k < length xs \<Longrightarrow> seg i xs (i + k) = Some (xs ! k)"
  by (simp add: seg_def)

lemma seg_append [seg_simps]: "seg i xs ++ seg (i + length xs) ys = seg i (xs @ ys)"
  by (rule ext) (auto simp: seg_def map_add_def nth_append split: option.splits if_splits)

lemma seg_inject:
  assumes "length xs = length ys" and "seg i xs = seg i ys"
  shows "xs = ys"
proof (rule nth_equalityI [OF assms(1)])
  fix k assume "k < length xs"
  with assms show "xs ! k = ys ! k"
    using seg_apply [of k xs i] seg_apply [of k ys i] by simp
qed

lemma seg_tl: "xs \<noteq> [] \<Longrightarrow> (seg i xs)(i := None) = seg (Suc i) (tl xs)"
  by (rule ext) (auto simp: seg_def nth_tl Suc_diff_Suc)

lemma seg_restrict_compl [seg_simps]: "seg i xs |` (- {i..<i + length xs}) = Map.empty"
  by (rule ext) (auto simp: seg_def restrict_map_def)

lemma map_the_seg [seg_simps]: "map (\<lambda>k. the (seg i xs k)) [i..<i + length xs] = xs"
  by (rule nth_equalityI) (auto simp: seg_def)

end
