(* ===== verification/Errors.thy ===== *)
theory Errors
  imports Prelude
begin

text \<open>
  The error types of \<open>src/src/error.rs\<close>. \<open>EnqueueError\<close> is an alias of
  \<open>TryEnqueueError\<close> in the source and is a type synonym here. The \<open>fmt\<close> functions are the
  strings that \<open>Display\<close> and \<open>Debug\<close> write.
\<close>

datatype 't try_enqueue_error =
    InsufficientCapacity 't
  | Enqueue_Closed 't

type_synonym 't enqueue_error = "'t try_enqueue_error"

datatype try_dequeue_error = Empty | Pending | Closed | Conflict

datatype dequeue_error = Dequeue_Closed | Dequeue_Conflict

fun into_inner :: "'t try_enqueue_error \<Rightarrow> 't" where
  "into_inner (InsufficientCapacity v) = v"
| "into_inner (Enqueue_Closed v) = v"

fun try_enqueue_error_debug :: "'t try_enqueue_error \<Rightarrow> string" where
  "try_enqueue_error_debug (InsufficientCapacity _) = ''TryEnqueueError::InsufficientCapacity(_)''"
| "try_enqueue_error_debug (Enqueue_Closed _) = ''TryEnqueueError::Closed(_)''"

fun try_enqueue_error_display :: "'t try_enqueue_error \<Rightarrow> string" where
  "try_enqueue_error_display (InsufficientCapacity _) = ''queue has insufficient capacity''"
| "try_enqueue_error_display (Enqueue_Closed _) = ''queue is closed''"

fun try_dequeue_error_display :: "try_dequeue_error \<Rightarrow> string" where
  "try_dequeue_error_display Empty = ''queue is empty''"
| "try_dequeue_error_display Pending = ''waiting for concurrent enqueuing end''"
| "try_dequeue_error_display Closed = ''queue is closed''"
| "try_dequeue_error_display Conflict = ''queue is concurrently dequeued''"

fun dequeue_error_display :: "dequeue_error \<Rightarrow> string" where
  "dequeue_error_display Dequeue_Closed = ''queue is closed''"
| "dequeue_error_display Dequeue_Conflict = ''queue is concurrently dequeued''"

lemma try_dequeue_error_display_inj:
  "try_dequeue_error_display a = try_dequeue_error_display b \<longleftrightarrow> a = b"
  by (cases a; cases b) simp_all

end
