(* ===== verification/Capacity_Words.thy ===== *)
theory Capacity_Words
  imports Errors
begin

text \<open>
  The two packed words of the queue (\<open>src/src/queue.rs\<close>, \<open>EnqueuingCapacity\<close> and
  \<open>DequeuingLength\<close>), bit by bit.

  An enqueuing word holds a closed flag (bit 63), a remaining capacity (bits 1 to 62) and a buffer
  index (bit 0); a dequeuing word holds a length (bits 1 to 63) and a buffer index. The lemmas show
  that the accessors split every word into its fields without overlap (\<open>enqueuing_fields\<close>,
  \<open>dequeuing_fields\<close>), that packing and unpacking are inverse, and what each update does to
  every field; the queue's proofs only use these facts, never the bits.
\<close>

section \<open>Constants\<close>

definition CLOSED_FLAG :: usize where
  "CLOSED_FLAG = drop_bit 1 (- 1) + 1"

definition DEQUEUING_LOCKED :: usize where
  "DEQUEUING_LOCKED = - 1"

section \<open>\<open>EnqueuingCapacity\<close>\<close>

definition EC_new :: "usize \<Rightarrow> usize \<Rightarrow> usize exec" where
  "EC_new buffer_index capacity =
     and_then (guard Assertion_Failed (push_bit 1 capacity < CLOSED_FLAG))
       (\<lambda>_. Inr (buffer_index OR push_bit 1 capacity))"

definition EC_buffer_index :: "usize \<Rightarrow> usize" where
  "EC_buffer_index w = w AND 1"

definition EC_remaining_capacity :: "usize \<Rightarrow> usize" where
  "EC_remaining_capacity w = drop_bit 1 (w AND NOT CLOSED_FLAG)"

definition EC_is_closed :: "usize \<Rightarrow> bool" where
  "EC_is_closed w \<longleftrightarrow> w AND CLOSED_FLAG \<noteq> 0"

definition EC_try_reserve :: "usize \<Rightarrow> usize \<Rightarrow> usize option" where
  "EC_try_reserve w sz = checked_sub w (push_bit 1 sz)"

definition EC_with_closed :: "usize \<Rightarrow> usize \<Rightarrow> usize" where
  "EC_with_closed w enqueuing = w OR (enqueuing AND CLOSED_FLAG)"

definition EC_close :: "usize \<Rightarrow> usize" where
  "EC_close atomic = atomic OR CLOSED_FLAG"

definition EC_reopen :: "usize \<Rightarrow> usize" where
  "EC_reopen atomic = atomic AND NOT CLOSED_FLAG"

definition EC_check_overflow :: "usize \<Rightarrow> unit exec" where
  "EC_check_overflow capacity = guard Assertion_Failed (capacity < drop_bit 2 (- 1))"

section \<open>\<open>DequeuingLength\<close>\<close>

definition DL_new :: "usize \<Rightarrow> usize \<Rightarrow> usize" where
  "DL_new buffer_index len = buffer_index OR push_bit 1 len"

definition DL_buffer_index :: "usize \<Rightarrow> usize" where
  "DL_buffer_index w = w AND 1"

definition DL_buffer_len :: "usize \<Rightarrow> usize" where
  "DL_buffer_len w = drop_bit 1 w"

definition DL_try_from_atomic :: "usize \<Rightarrow> try_dequeue_error + usize" where
  "DL_try_from_atomic atomic = (if atomic \<noteq> DEQUEUING_LOCKED then Inr atomic else Inl Conflict)"

section \<open>Fields as numbers\<close>

text \<open>The word that \<open>EC_new\<close> builds once its assertion has passed.\<close>

definition EC_pack :: "usize \<Rightarrow> usize \<Rightarrow> usize" where
  "EC_pack i c = i OR push_bit 1 c"

lemma CLOSED_FLAG_push: "CLOSED_FLAG = push_bit 63 1"
  by (simp add: CLOSED_FLAG_def mask_eq_exp_minus_1)

lemma unat_CLOSED_FLAG [simp]: "unat CLOSED_FLAG = 9223372036854775808"
  by (simp add: CLOSED_FLAG_push)

lemma bit_CLOSED_FLAG: "bit CLOSED_FLAG n \<longleftrightarrow> n = 63"
  by (auto simp add: CLOSED_FLAG_push bit_simps simp del: push_bit_of_1)

lemma and_not_CLOSED_FLAG: "w AND NOT CLOSED_FLAG = take_bit 63 w"
  by (rule bit_word_eqI) (auto simp: bit_simps bit_CLOSED_FLAG)

lemma and_CLOSED_FLAG: "w AND CLOSED_FLAG = (if bit w 63 then CLOSED_FLAG else 0)"
  by (rule bit_word_eqI) (auto simp: bit_simps bit_CLOSED_FLAG)

lemma bit_63: "bit (w :: usize) 63 \<longleftrightarrow> 9223372036854775808 \<le> unat w"
proof -
  have "bit w 63 \<longleftrightarrow> unat (w div 2 ^ 63) mod 2 = 1"
    by (simp add: bit_iff_odd odd_usize)
  also have "\<dots> \<longleftrightarrow> unat w div 9223372036854775808 mod 2 = 1"
    by (simp add: unat_div_usize)
  also have "\<dots> \<longleftrightarrow> 9223372036854775808 \<le> unat w"
  proof (cases "9223372036854775808 \<le> unat w")
    case True
    then have "unat w div 9223372036854775808 = 1"
      using unat_usize_less [of w] by (intro div_nat_eqI) simp_all
    with True show ?thesis by simp
  next
    case False
    then show ?thesis by (simp add: div_less)
  qed
  finally show ?thesis .
qed

lemma unat_or_push_bit:
  assumes "unat (i :: usize) < 2" and "unat c < 9223372036854775808"
  shows "unat (i OR push_bit 1 c) = unat i + 2 * unat c"
proof -
  have "unat i = 0 \<or> unat i = 1"
    using assms by auto
  then show ?thesis using assms
    by (auto simp: unsigned_or_eq push_bit_eq_mult unat_word_ariths Suc_0_or_eq mult.commute)
qed

lemma EC_buffer_index_unat: "unat (EC_buffer_index w) = unat w mod 2"
  by (simp add: EC_buffer_index_def and_one_eq unat_mod_usize)

lemma EC_remaining_unat:
  "unat (EC_remaining_capacity w) = unat w mod 9223372036854775808 div 2"
  unfolding EC_remaining_capacity_def and_not_CLOSED_FLAG
  by (simp add: take_bit_eq_mod drop_bit_eq_div unat_mod_usize unat_div_usize)

lemma EC_is_closed_unat: "EC_is_closed w \<longleftrightarrow> 9223372036854775808 \<le> unat w"
  by (simp add: EC_is_closed_def and_CLOSED_FLAG bit_63 flip: unat_eq_0)

lemma DL_buffer_index_unat: "unat (DL_buffer_index w) = unat w mod 2"
  by (simp add: DL_buffer_index_def and_one_eq unat_mod_usize)

lemma DL_buffer_len_unat: "unat (DL_buffer_len w) = unat w div 2"
  by (simp add: DL_buffer_len_def drop_bit_eq_div unat_div_usize)

lemma enqueuing_fields:
  "unat w = (if EC_is_closed w then 9223372036854775808 else 0)
     + 2 * unat (EC_remaining_capacity w) + unat (EC_buffer_index w)"
proof -
  let ?m = "unat w mod 9223372036854775808"
  have "?m mod 2 = unat w mod 2"
    by (simp add: mod_mod_cancel)
  then have "2 * (?m div 2) + unat w mod 2 = ?m"
    using mult_div_mod_eq [of 2 ?m] by simp
  moreover have "unat w = (if 9223372036854775808 \<le> unat w then 9223372036854775808 else 0) + ?m"
    using unat_usize_less [of w] by (simp add: le_mod_geq)
  ultimately show ?thesis
    unfolding EC_remaining_unat EC_is_closed_unat EC_buffer_index_unat by linarith
qed

lemma EC_remaining_bound: "unat (EC_remaining_capacity w) < 4611686018427387904"
  by (simp add: EC_remaining_unat less_mult_imp_div_less)

lemma EC_buffer_index_bound: "unat (EC_buffer_index w) < 2"
  by (simp add: EC_buffer_index_unat)

lemma EC_buffer_index_cases: "EC_buffer_index w = 0 \<or> EC_buffer_index w = 1"
  using EC_buffer_index_bound [of w] by (auto simp: usize_eq_iff)

lemma enqueuing_fields_unique:
  assumes "unat w = (if c then 9223372036854775808 else 0) + 2 * unat r + unat i"
    and "unat r < 4611686018427387904" and "unat i < 2"
  shows "EC_is_closed w = c" and "EC_remaining_capacity w = r" and "EC_buffer_index w = i"
proof -
  show "EC_is_closed w = c"
    using assms by (auto simp: EC_is_closed_unat)
  have "(2 * unat r + unat i) mod 9223372036854775808 = 2 * unat r + unat i"
    using assms(2,3) by simp
  then have "unat w mod 9223372036854775808 = 2 * unat r + unat i"
    using assms(1) by (cases c) (simp_all add: add.assoc)
  with assms(3) show "EC_remaining_capacity w = r"
    by (simp add: usize_eq_iff EC_remaining_unat)
  have "unat w = 2 * ((if c then 4611686018427387904 else 0) + unat r) + unat i"
    using assms(1) by simp
  then have "unat w mod 2 = unat i"
    using assms(3) by (simp only: mod_mult_self4) simp
  then show "EC_buffer_index w = i"
    by (simp add: usize_eq_iff EC_buffer_index_unat)
qed

lemma enqueuing_eqI:
  "EC_is_closed v = EC_is_closed w \<Longrightarrow> EC_remaining_capacity v = EC_remaining_capacity w \<Longrightarrow>
   EC_buffer_index v = EC_buffer_index w \<Longrightarrow> v = w"
  using enqueuing_fields [of v] enqueuing_fields [of w] by (simp add: usize_eq_iff)

section \<open>Packing\<close>

lemma push_bit_less_CLOSED_FLAG:
  "unat c < 4611686018427387904 \<Longrightarrow> push_bit 1 c < CLOSED_FLAG"
  by (simp add: word_less_nat_alt push_bit_eq_mult unat_word_ariths mult.commute)

lemma EC_new_ok:
  "unat c < 4611686018427387904 \<Longrightarrow> EC_new i c = Inr (EC_pack i c)"
  by (simp only: EC_new_def EC_pack_def push_bit_less_CLOSED_FLAG guard_simps and_then_Inr)

lemma EC_pack_fields:
  assumes "unat i < 2" and "unat c < 4611686018427387904"
  shows "EC_is_closed (EC_pack i c) = False"
    and "EC_remaining_capacity (EC_pack i c) = c"
    and "EC_buffer_index (EC_pack i c) = i"
proof -
  have "unat (EC_pack i c) = (if False then 9223372036854775808 else 0) + 2 * unat c + unat i"
    using unat_or_push_bit [of i c] assms by (simp add: EC_pack_def)
  from enqueuing_fields_unique [OF this assms(2,1)]
  show "EC_is_closed (EC_pack i c) = False"
    and "EC_remaining_capacity (EC_pack i c) = c"
    and "EC_buffer_index (EC_pack i c) = i"
    by simp_all
qed

lemma EC_check_overflow_iff:
  "EC_check_overflow c = Inr () \<longleftrightarrow> unat c < 4611686018427387903"
  by (simp add: EC_check_overflow_def word_less_nat_alt mask_eq_exp_minus_1)

lemma EC_check_overflow_bound:
  "EC_check_overflow c = Inr u \<Longrightarrow> unat c < 4611686018427387903"
  by (cases u) (simp add: EC_check_overflow_iff)

lemma EC_check_overflow_cases:
  "EC_check_overflow c = (if unat c < 4611686018427387903 then Inr () else Inl Assertion_Failed)"
  using EC_check_overflow_iff [of c] by (auto simp: EC_check_overflow_def guard_def)

section \<open>Updates\<close>

lemma EC_with_closed_fields:
  assumes "\<not> EC_is_closed w"
  shows "EC_is_closed (EC_with_closed w enq) = EC_is_closed enq"
    and "EC_remaining_capacity (EC_with_closed w enq) = EC_remaining_capacity w"
    and "EC_buffer_index (EC_with_closed w enq) = EC_buffer_index w"
proof -
  have "\<not> bit w 63"
    using assms by (simp add: EC_is_closed_unat bit_63)
  then show "EC_is_closed (EC_with_closed w enq) = EC_is_closed enq"
    by (simp add: EC_is_closed_unat EC_with_closed_def bit_63 [symmetric] bit_simps bit_CLOSED_FLAG)
  show "EC_remaining_capacity (EC_with_closed w enq) = EC_remaining_capacity w"
    unfolding EC_remaining_capacity_def EC_with_closed_def
    by (rule arg_cong [where f = "drop_bit 1"], rule bit_word_eqI)
      (auto simp: bit_simps bit_CLOSED_FLAG)
  show "EC_buffer_index (EC_with_closed w enq) = EC_buffer_index w"
    unfolding EC_buffer_index_def EC_with_closed_def
    by (rule bit_word_eqI) (auto simp: bit_simps bit_CLOSED_FLAG)
qed

lemma EC_close_fields [simp]:
  "EC_is_closed (EC_close w)"
  "EC_remaining_capacity (EC_close w) = EC_remaining_capacity w"
  "EC_buffer_index (EC_close w) = EC_buffer_index w"
proof -
  show "EC_is_closed (EC_close w)"
    by (simp add: EC_is_closed_unat EC_close_def bit_63 [symmetric] bit_simps bit_CLOSED_FLAG)
  show "EC_remaining_capacity (EC_close w) = EC_remaining_capacity w"
    unfolding EC_remaining_capacity_def EC_close_def
    by (rule arg_cong [where f = "drop_bit 1"], rule bit_word_eqI)
      (auto simp: bit_simps bit_CLOSED_FLAG)
  show "EC_buffer_index (EC_close w) = EC_buffer_index w"
    unfolding EC_buffer_index_def EC_close_def
    by (rule bit_word_eqI) (auto simp: bit_simps bit_CLOSED_FLAG)
qed

lemma EC_reopen_fields [simp]:
  "\<not> EC_is_closed (EC_reopen w)"
  "EC_remaining_capacity (EC_reopen w) = EC_remaining_capacity w"
  "EC_buffer_index (EC_reopen w) = EC_buffer_index w"
proof -
  show "\<not> EC_is_closed (EC_reopen w)"
    by (simp add: EC_is_closed_unat EC_reopen_def bit_63 [symmetric] bit_simps bit_CLOSED_FLAG)
  show "EC_remaining_capacity (EC_reopen w) = EC_remaining_capacity w"
    by (simp add: EC_remaining_capacity_def EC_reopen_def and.assoc)
  show "EC_buffer_index (EC_reopen w) = EC_buffer_index w"
    unfolding EC_buffer_index_def EC_reopen_def
    by (rule bit_word_eqI) (auto simp: bit_simps bit_CLOSED_FLAG)
qed

lemma unat_push_bit_1:
  "unat s < 9223372036854775808 \<Longrightarrow> unat (push_bit 1 s :: usize) = 2 * unat s"
  by (simp add: push_bit_eq_mult unat_word_ariths mult.commute)

lemma EC_try_reserve_None:
  assumes "\<not> EC_is_closed w" and "unat s < 9223372036854775808"
  shows "EC_try_reserve w s = None \<longleftrightarrow> unat (EC_remaining_capacity w) < unat s"
  using enqueuing_fields [of w] EC_buffer_index_bound [of w] unat_push_bit_1 [OF assms(2)] assms(1)
  by (auto simp: EC_try_reserve_def checked_sub_def word_le_nat_alt)

lemma EC_try_reserve_Some:
  assumes "\<not> EC_is_closed w" and "unat s < 9223372036854775808"
    and "EC_try_reserve w s = Some w'"
  shows "\<not> EC_is_closed w'"
    and "EC_remaining_capacity w' = EC_remaining_capacity w - s"
    and "s \<le> EC_remaining_capacity w"
    and "EC_buffer_index w' = EC_buffer_index w"
proof -
  have le: "push_bit 1 s \<le> w" and w': "w' = w - push_bit 1 s"
    using assms(3) by (auto simp: EC_try_reserve_def checked_sub_def split: if_splits)
  have "\<not> unat (EC_remaining_capacity w) < unat s"
    using EC_try_reserve_None [OF assms(1,2)] assms(3) by simp
  then show s: "s \<le> EC_remaining_capacity w"
    by (simp add: word_le_nat_alt)
  have "unat w' = (if False then 9223372036854775808 else 0)
      + 2 * unat (EC_remaining_capacity w - s) + unat (EC_buffer_index w)"
    using enqueuing_fields [of w] assms(1) s unat_sub [OF le] unat_push_bit_1 [OF assms(2)]
    by (simp add: w' unat_sub [OF s] word_le_nat_alt)
  moreover have "unat (EC_remaining_capacity w - s) < 4611686018427387904"
    using EC_remaining_bound [of w] by (simp add: unat_sub [OF s])
  ultimately show "\<not> EC_is_closed w'"
    and "EC_remaining_capacity w' = EC_remaining_capacity w - s"
    and "EC_buffer_index w' = EC_buffer_index w"
    using enqueuing_fields_unique [OF _ _ EC_buffer_index_bound] by blast+
qed

section \<open>The dequeuing word\<close>

lemma dequeuing_fields: "unat w = 2 * unat (DL_buffer_len w) + unat (DL_buffer_index w)"
  by (simp add: DL_buffer_len_unat DL_buffer_index_unat)

lemma DL_buffer_index_cases: "DL_buffer_index w = 0 \<or> DL_buffer_index w = 1"
  using DL_buffer_index_unat [of w] by (auto simp: usize_eq_iff)

lemma DL_new_fields:
  assumes "unat i < 2" and "unat n < 9223372036854775808"
  shows "DL_buffer_index (DL_new i n) = i" and "DL_buffer_len (DL_new i n) = n"
  using unat_or_push_bit [of i n] assms
  by (simp_all add: usize_eq_iff DL_buffer_index_unat DL_buffer_len_unat DL_new_def)

lemma DL_new_not_locked:
  assumes "unat i < 2" and "unat n < 9223372036854775807"
  shows "DL_new i n \<noteq> DEQUEUING_LOCKED"
proof
  assume "DL_new i n = DEQUEUING_LOCKED"
  then have "unat (DL_new i n) = 18446744073709551615"
    by (simp add: DEQUEUING_LOCKED_def unsigned_minus_1_eq_mask mask_eq_exp_minus_1)
  with unat_or_push_bit [of i n] assms show False
    by (simp add: DL_new_def)
qed

lemma DL_try_from_locked [simp]: "DL_try_from_atomic DEQUEUING_LOCKED = Inl Conflict"
  by (simp add: DL_try_from_atomic_def)

lemma DL_try_from_new:
  "unat i < 2 \<Longrightarrow> unat n < 9223372036854775807 \<Longrightarrow> DL_try_from_atomic (DL_new i n) = Inr (DL_new i n)"
  by (simp add: DL_try_from_atomic_def DL_new_not_locked)

end
