(* ===== verification/Buffer_Traits.thy ===== *)
theory Buffer_Traits
  imports Prelude
begin

text \<open>
  The traits of \<open>src/src/buffer.rs\<close>: \<open>Buffer\<close>, \<open>InsertIntoBuffer\<close>, \<open>CellBuffer\<close>,
  \<open>Resize\<close> and \<open>Drain\<close>, and the two generic implementations of \<open>InsertIntoBuffer\<close>
  (arrays and \<open>ValueIter\<close>).

  A trait is a record of its methods, passed to the code that is generic in it. The safety comments
  of the traits are the laws of the locales \<open>buffer_contract\<close>, \<open>cell_contract\<close>,
  \<open>insert_contract\<close>, \<open>resize_contract\<close> and \<open>drain_contract\<close>. They are stated over
  \<open>rep b m\<close>: the buffer \<open>b\<close> holds at least the inserted cells of the partial map
  \<open>m\<close>. The cells outside \<open>m\<close> are unconstrained, because a buffer may leave stale data
  behind (\<open>VecBuffer::remove\<close> does). \<open>view s\<close> is what a reader sees in a slice, and
  \<open>img\<close> maps an inserted value to what is read back (for the vectored buffers, the bytes of
  the value).
\<close>

section \<open>The traits\<close>

record ('b, 's) buffer_trait =
  buf_default :: 'b
  buf_capacity :: "'b \<Rightarrow> usize"
  buf_slice :: "'b \<Rightarrow> range \<Rightarrow> 's exec"
  buf_clear :: "'b \<Rightarrow> range \<Rightarrow> 'b exec"

record ('b, 'v) insert_trait =
  ins_size :: "'v \<Rightarrow> usize"
  ins_into :: "'v \<Rightarrow> 'b \<Rightarrow> usize \<Rightarrow> 'b exec"

type_synonym ('b, 'a) cell_insert = "'b \<Rightarrow> usize \<Rightarrow> 'a \<Rightarrow> 'b exec"
type_synonym ('b, 'a) drain_remove = "'b \<Rightarrow> usize \<Rightarrow> ('a \<times> 'b) exec"
type_synonym 'b resize_fn = "'b \<Rightarrow> usize \<Rightarrow> 'b exec"

section \<open>Inserting iterators and arrays\<close>

text \<open>
  An \<open>ExactSizeIterator\<close> is the length it announces and the items that \<open>next\<close> yields; the
  two may disagree, which is why \<open>insert_into\<close> counts to the announced length and panics when
  the items run out.
\<close>

record 'a value_iter =
  iter_len :: usize
  iter_items :: "'a list"

definition into_value_iter :: "'a list \<Rightarrow> 'a value_iter" where
  "into_value_iter xs = \<lparr>iter_len = of_nat (length xs), iter_items = xs\<rparr>"

definition exact_iter :: "'a value_iter \<Rightarrow> bool" where
  "exact_iter it \<longleftrightarrow> unat (iter_len it) = length (iter_items it)"

fun value_iter_loop :: "('b, 'a) cell_insert \<Rightarrow> nat \<Rightarrow> 'a list \<Rightarrow> 'b \<Rightarrow> usize \<Rightarrow> 'b exec" where
  "value_iter_loop ins 0 items b i = Inr b"
| "value_iter_loop ins (Suc n) [] b i = Inl Expect_Failed"
| "value_iter_loop ins (Suc n) (x # items) b i =
     and_then (ins b i x) (\<lambda>b'. value_iter_loop ins n items b' (i + 1))"

definition value_iter_insert_into ::
    "('b, 'a) cell_insert \<Rightarrow> 'a value_iter \<Rightarrow> 'b \<Rightarrow> usize \<Rightarrow> 'b exec" where
  "value_iter_insert_into ins it b i =
     and_then (add_usize i (iter_len it))
       (\<lambda>_. value_iter_loop ins (unat (iter_len it)) (iter_items it) b i)"

definition value_iter_insert :: "('b, 'a) cell_insert \<Rightarrow> ('b, 'a value_iter) insert_trait" where
  "value_iter_insert ins = \<lparr>ins_size = iter_len, ins_into = value_iter_insert_into ins\<rparr>"

fun array_insert_loop :: "('b, 'a) cell_insert \<Rightarrow> nat \<Rightarrow> 'a list \<Rightarrow> 'b \<Rightarrow> usize \<Rightarrow> 'b exec" where
  "array_insert_loop ins k [] b i = Inr b"
| "array_insert_loop ins k (x # xs) b i =
     and_then (add_usize i (of_nat k)) (\<lambda>j.
     and_then (ins b j x) (\<lambda>b'. array_insert_loop ins (Suc k) xs b' i))"

definition array_insert :: "('b, 'a) cell_insert \<Rightarrow> ('b, 'a list) insert_trait" where
  "array_insert ins =
     \<lparr>ins_size = (\<lambda>xs. of_nat (length xs)), ins_into = (\<lambda>xs b i. array_insert_loop ins 0 xs b i)\<rparr>"

text \<open>Where no index overflows, the two ways to insert several values are the same.\<close>

lemma value_iter_loop_array:
  assumes "unat i + length xs < 18446744073709551616"
  shows "value_iter_loop ins (length xs) xs b i = array_insert_loop ins 0 xs b i"
proof -
  have "value_iter_loop ins (length xs) xs b (i + of_nat k) =
      array_insert_loop ins k xs b i"
    if "unat i + k + length xs < 18446744073709551616" for k
    using that
  proof (induction xs arbitrary: k b)
    case Nil
    then show ?case by simp
  next
    case (Cons x xs)
    have "add_usize i (of_nat k) = Inr (i + of_nat k)"
      using Cons.prems by (intro add_usize_ok) (simp add: usize_simps)
    moreover have "value_iter_loop ins (length xs) xs b' (i + of_nat k + 1) =
        array_insert_loop ins (Suc k) xs b' i" for b'
      using Cons.IH [of "Suc k" b'] Cons.prems by (simp add: ac_simps)
    ultimately show ?case by simp
  qed
  from this [of 0] assms show ?thesis by simp
qed

section \<open>Clearing by removal\<close>

text \<open>The loop \<open>for index in range\<close> that drops the values of a range one by one.\<close>

fun clear_loop :: "('b, 'a) drain_remove \<Rightarrow> nat \<Rightarrow> usize \<Rightarrow> 'b \<Rightarrow> 'b exec" where
  "clear_loop remove 0 i b = Inr b"
| "clear_loop remove (Suc n) i b =
     and_then (remove b i) (\<lambda>(_, b'). clear_loop remove n (i + 1) b')"

definition clear_range :: "('b, 'a) drain_remove \<Rightarrow> 'b \<Rightarrow> range \<Rightarrow> 'b exec" where
  "clear_range remove b r = clear_loop remove (unat (snd r) - unat (fst r)) (fst r) b"

text \<open>
  Whatever relation \<open>R\<close> a removal keeps while it takes one cell out of the map, the loop
  keeps while it takes out the whole range.
\<close>

lemma clear_loop_ok:
  assumes remove: "\<And>b m i x. R b m \<Longrightarrow> m (unat i) = Some x \<Longrightarrow>
      \<exists>b'. remove b i = Inr (x, b') \<and> R b' (m(unat i := None))"
    and "R b m" and "{unat i..<unat i + n} \<subseteq> dom m" and "unat i + n < 18446744073709551616"
  shows "\<exists>b'. clear_loop remove n i b = Inr b' \<and> R b' (m |` (- {unat i..<unat i + n}))"
  using assms(2-)
proof (induction n arbitrary: i b m)
  case 0
  then show ?case by (simp add: restrict_map_def)
next
  case (Suc n)
  have "unat i \<in> {unat i..<unat i + Suc n}"
    by simp
  with Suc.prems(2) have "unat i \<in> dom m"
    by blast
  then obtain x where "m (unat i) = Some x"
    by blast
  with remove Suc.prems(1) obtain b' where b': "remove b i = Inr (x, b')" "R b' (m(unat i := None))"
    by blast
  have i1: "unat (i + 1) = Suc (unat i)"
    using Suc.prems(3) by (simp add: unat_word_ariths)
  have "{unat (i + 1)..<unat (i + 1) + n} \<subseteq> {unat i..<unat i + Suc n} - {unat i}"
    by (auto simp: i1)
  with Suc.prems(2) have "{unat (i + 1)..<unat (i + 1) + n} \<subseteq> dom (m(unat i := None))"
    by (simp del: atLeastLessThan_subset_iff) blast
  moreover have "unat (i + 1) + n < 18446744073709551616"
    using Suc.prems(3) by (simp add: i1)
  ultimately obtain b'' where "clear_loop remove n (i + 1) b' = Inr b''"
    and "R b'' ((m(unat i := None)) |` (- {unat (i + 1)..<unat (i + 1) + n}))"
    using Suc.IH [OF b'(2)] by blast
  moreover have "(m(unat i := None)) |` (- {unat (i + 1)..<unat (i + 1) + n}) =
      m |` (- {unat i..<unat i + Suc n})"
    by (rule ext) (auto simp: i1 restrict_map_def)
  ultimately show ?case
    by (simp add: b'(1))
qed

section \<open>Contracts\<close>

locale buffer_contract =
  fixes B :: "('b, 's) buffer_trait"
    and rep :: "'b \<Rightarrow> (nat \<rightharpoonup> 'c) \<Rightarrow> bool"
    and img :: "'c \<Rightarrow> 'd"
    and view :: "'s \<Rightarrow> 'd list"
  assumes rep_default: "rep (buf_default B) Map.empty"
    and rep_dom: "rep b m \<Longrightarrow> dom m \<subseteq> {..<unat (buf_capacity B b)}"
    and slice_ok:
      "rep b m \<Longrightarrow> lo < hi \<Longrightarrow> hi \<le> buf_capacity B b \<Longrightarrow> {unat lo..<unat hi} \<subseteq> dom m \<Longrightarrow>
       \<exists>s. buf_slice B b (lo, hi) = Inr s \<and>
           view s = map (\<lambda>k. img (the (m k))) [unat lo..<unat hi]"
    and clear_ok:
      "rep b m \<Longrightarrow> lo \<le> hi \<Longrightarrow> hi \<le> buf_capacity B b \<Longrightarrow> {unat lo..<unat hi} \<subseteq> dom m \<Longrightarrow>
       \<exists>b'. buf_clear B b (lo, hi) = Inr b' \<and> rep b' (m |` (- {unat lo..<unat hi})) \<and>
            buf_capacity B b' = buf_capacity B b"
begin

lemma slice_seg:
  assumes "rep b (seg (unat lo) xs)" and "unat hi = unat lo + length xs"
    and "hi \<le> buf_capacity B b" and "xs \<noteq> []"
  shows "\<exists>s. buf_slice B b (lo, hi) = Inr s \<and> view s = map img xs"
proof -
  have "lo < hi"
    using assms(2,4) by (simp add: word_less_nat_alt)
  moreover have "{unat lo..<unat hi} \<subseteq> dom (seg (unat lo) xs)"
    by (simp add: assms(2))
  moreover have "map (\<lambda>k. img (the (seg (unat lo) xs k))) [unat lo..<unat hi] = map img xs"
    using arg_cong [OF map_the_seg [of "unat lo" xs], of "map img"] by (simp add: assms(2) o_def)
  ultimately show ?thesis
    using slice_ok [OF assms(1) _ assms(3), of lo] by simp
qed

lemma clear_seg:
  assumes "rep b (seg (unat lo) xs)" and "unat hi = unat lo + length xs"
    and "hi \<le> buf_capacity B b"
  shows "\<exists>b'. buf_clear B b (lo, hi) = Inr b' \<and> rep b' Map.empty \<and>
              buf_capacity B b' = buf_capacity B b"
proof -
  have "lo \<le> hi"
    using assms(2) by (simp add: word_le_nat_alt)
  then show ?thesis
    using clear_ok [OF assms(1) _ assms(3), of lo] by (simp add: assms(2) seg_restrict_compl)
qed

end

locale insert_contract = buffer_contract B rep img view
  for B :: "('b, 's) buffer_trait" and rep :: "'b \<Rightarrow> (nat \<rightharpoonup> 'c) \<Rightarrow> bool"
    and img :: "'c \<Rightarrow> 'd" and view :: "'s \<Rightarrow> 'd list" +
  fixes I :: "('b, 'v) insert_trait"
    and honest :: "'v \<Rightarrow> bool"
    and content :: "'v \<Rightarrow> 'c list"
  assumes size_content: "honest v \<Longrightarrow> unat (ins_size I v) = length (content v)"
    and insert_ok:
      "rep b m \<Longrightarrow> honest v \<Longrightarrow> content v \<noteq> [] \<Longrightarrow> unat i + length (content v) \<le> unat (buf_capacity B b) \<Longrightarrow>
       {unat i..<unat i + length (content v)} \<inter> dom m = {} \<Longrightarrow>
       \<exists>b'. ins_into I v b i = Inr b' \<and> rep b' (m ++ seg (unat i) (content v)) \<and>
            buf_capacity B b' = buf_capacity B b"

locale cell_contract = buffer_contract B rep img view
  for B :: "('b, 's) buffer_trait" and rep :: "'b \<Rightarrow> (nat \<rightharpoonup> 'c) \<Rightarrow> bool"
    and img :: "'c \<Rightarrow> 'd" and view :: "'s \<Rightarrow> 'd list" +
  fixes cell_insert :: "('b, 'c) cell_insert"
  assumes cell_insert_ok:
      "rep b m \<Longrightarrow> i < buf_capacity B b \<Longrightarrow> unat i \<notin> dom m \<Longrightarrow>
       \<exists>b'. cell_insert b i x = Inr b' \<and> rep b' (m(unat i \<mapsto> x)) \<and>
            buf_capacity B b' = buf_capacity B b"

locale resize_contract = buffer_contract B rep img view
  for B :: "('b, 's) buffer_trait" and rep :: "'b \<Rightarrow> (nat \<rightharpoonup> 'c) \<Rightarrow> bool"
    and img :: "'c \<Rightarrow> 'd" and view :: "'s \<Rightarrow> 'd list" +
  fixes resize :: "'b resize_fn"
  assumes resize_ok:
      "unat c < 4611686018427387904 \<Longrightarrow>
       \<exists>b'. resize b c = Inr b' \<and> rep b' Map.empty \<and> buf_capacity B b' = c"

locale drain_contract = buffer_contract B rep img view
  for B :: "('b, 's) buffer_trait" and rep :: "'b \<Rightarrow> (nat \<rightharpoonup> 'c) \<Rightarrow> bool"
    and img :: "'c \<Rightarrow> 'd" and view :: "'s \<Rightarrow> 'd list" +
  fixes remove :: "('b, 'c) drain_remove"
  assumes remove_ok:
      "rep b m \<Longrightarrow> m (unat i) = Some x \<Longrightarrow>
       \<exists>b'. remove b i = Inr (x, b') \<and> rep b' (m(unat i := None)) \<and>
            buf_capacity B b' = buf_capacity B b"
    and empty_slice_ok:
      "rep b m \<Longrightarrow> hi \<noteq> 0 \<Longrightarrow> hi \<le> buf_capacity B b \<Longrightarrow>
       \<exists>s. buf_slice B b (hi, hi) = Inr s \<and> view s = []"
begin

text \<open>An exhausted iterator can be turned back into a slice, which shows nothing.\<close>

lemma slice_seg_all:
  assumes "rep b (seg (unat lo) xs)" and "unat hi = unat lo + length xs"
    and "hi \<le> buf_capacity B b" and "hi \<noteq> 0"
  shows "\<exists>s. buf_slice B b (lo, hi) = Inr s \<and> view s = map img xs"
proof (cases "xs = []")
  case True
  with assms(2) have "lo = hi"
    by (simp add: usize_eq_iff)
  with True empty_slice_ok [OF assms(1,4,3)] show ?thesis by simp
next
  case False
  then show ?thesis
    by (rule slice_seg [OF assms(1-3)])
qed

end

section \<open>Arrays and iterators over a cell buffer\<close>

context cell_contract
begin

lemma array_insert_loop_ok:
  assumes "rep b m" and "unat i + k + length xs \<le> unat (buf_capacity B b)"
    and "{unat i + k..<unat i + k + length xs} \<inter> dom m = {}"
  shows "\<exists>b'. array_insert_loop cell_insert k xs b i = Inr b' \<and>
              rep b' (m ++ seg (unat i + k) xs) \<and> buf_capacity B b' = buf_capacity B b"
  using assms
proof (induction xs arbitrary: k b m)
  case Nil
  then show ?case by simp
next
  case (Cons x xs)
  let ?j = "i + of_nat k :: usize"
  have k: "unat (of_nat k :: usize) = k" and ik: "unat i + k < unat (buf_capacity B b)"
    using Cons.prems(2) unat_usize_less [of "buf_capacity B b"] by (simp_all add: usize_simps)
  then have j: "unat ?j = unat i + k" and add: "add_usize i (of_nat k) = Inr ?j"
    using unat_usize_less [of "buf_capacity B b"] by (simp_all add: usize_simps add_usize_ok)
  have "unat ?j \<in> {unat i + k..<unat i + k + length (x # xs)}"
    by (simp add: j)
  then have "unat ?j \<notin> dom m"
    using Cons.prems(3) by blast
  moreover have "?j < buf_capacity B b"
    using ik by (simp add: word_less_nat_alt j)
  ultimately obtain b' where
    b': "cell_insert b ?j x = Inr b'" "rep b' (m(unat ?j \<mapsto> x))"
      "buf_capacity B b' = buf_capacity B b"
    using cell_insert_ok [OF Cons.prems(1)] by blast
  have "unat i + Suc k + length xs \<le> unat (buf_capacity B b')"
    using Cons.prems(2) by (simp add: b'(3))
  moreover have "{unat i + Suc k..<unat i + Suc k + length xs} \<inter> dom (m(unat ?j \<mapsto> x)) = {}"
    using Cons.prems(3) by (force simp: j disjoint_iff)
  ultimately obtain b'' where "array_insert_loop cell_insert (Suc k) xs b' i = Inr b''"
    "rep b'' (m(unat ?j \<mapsto> x) ++ seg (unat i + Suc k) xs)"
    "buf_capacity B b'' = buf_capacity B b'"
    using Cons.IH [OF b'(2)] by blast
  moreover have "m(unat ?j \<mapsto> x) ++ seg (unat i + Suc k) xs = m ++ seg (unat i + k) (x # xs)"
    by (rule ext) (auto simp: j seg_def map_add_def nth_Cons' split: option.splits)
  ultimately show ?case
    using b'(1,3) add by simp
qed

end

text \<open>Every cell buffer accepts arrays, and iterators that announce their true length.\<close>

sublocale cell_contract \<subseteq> arr: insert_contract B rep img view
  "array_insert cell_insert" "\<lambda>xs. length xs < 18446744073709551616" "\<lambda>xs. xs"
proof
  fix v :: "'c list"
  assume "length v < 18446744073709551616"
  then show "unat (ins_size (array_insert cell_insert) v) = length v"
    by (simp add: array_insert_def usize_simps)
next
  fix b m and v :: "'c list" and i :: usize
  assume "rep b m" "unat i + length v \<le> unat (buf_capacity B b)"
    "{unat i..<unat i + length v} \<inter> dom m = {}"
  then show "\<exists>b'. ins_into (array_insert cell_insert) v b i = Inr b' \<and>
      rep b' (m ++ seg (unat i) v) \<and> buf_capacity B b' = buf_capacity B b"
    using array_insert_loop_ok [of b m i 0 v] by (simp add: array_insert_def)
qed

sublocale cell_contract \<subseteq> itr: insert_contract B rep img view
  "value_iter_insert cell_insert" exact_iter iter_items
proof
  fix v :: "'c value_iter"
  assume "exact_iter v"
  then show "unat (ins_size (value_iter_insert cell_insert) v) = length (iter_items v)"
    by (simp add: value_iter_insert_def exact_iter_def)
next
  fix b m and v :: "'c value_iter" and i :: usize
  assume a: "rep b m" "exact_iter v" "unat i + length (iter_items v) \<le> unat (buf_capacity B b)"
    "{unat i..<unat i + length (iter_items v)} \<inter> dom m = {}"
  have "unat i + length (iter_items v) < 18446744073709551616"
    using a(3) unat_usize_less [of "buf_capacity B b"] by simp
  then have "ins_into (value_iter_insert cell_insert) v b i =
      array_insert_loop cell_insert 0 (iter_items v) b i"
    using a(2) by (simp add: value_iter_insert_def value_iter_insert_into_def exact_iter_def
        add_usize_ok value_iter_loop_array)
  then show "\<exists>b'. ins_into (value_iter_insert cell_insert) v b i = Inr b' \<and>
      rep b' (m ++ seg (unat i) (iter_items v)) \<and> buf_capacity B b' = buf_capacity B b"
    using array_insert_loop_ok [of b m i 0 "iter_items v"] a by simp
qed

end
