(* ===== verification/Queue.thy ===== *)
theory Queue
  imports Capacity_Words Buffer_Traits
begin

text \<open>
  The queue of \<open>src/src/queue.rs\<close>, one operation at a time: the functions here are the
  operations as one thread executes them when no other thread interferes. The state is the record
  \<open>queue\<close> with the fields of the Rust struct; the words are those of \<open>Capacity_Words\<close>.
  (\<open>Queue_Concurrent\<close> has the same code cut into its atomic actions and interleaved.)

  \<open>compare_exchange_weak\<close> may fail spuriously: the loops take a list \<open>sp\<close> that says which
  attempts do. The spin hints of the backoff have no effect and only their counter is kept. A panic
  is a fault, and plain arithmetic is that of a debug build.

  Values, buffers and notifiers are generic, as in the source: the operations take the records of
  trait methods they use.
\<close>

section \<open>Constants and state\<close>

definition SPIN_LIMIT :: nat where
  "SPIN_LIMIT = 64"

definition BACKOFF_LIMIT :: nat where
  "BACKOFF_LIMIT = 6"

record 'n notify_trait =
  notify_dequeue :: "'n \<Rightarrow> 'n"
  notify_enqueue :: "'n \<Rightarrow> 'n"

definition unit_notify :: "unit notify_trait" where
  "unit_notify = \<lparr>notify_dequeue = (\<lambda>_. ()), notify_enqueue = (\<lambda>_. ())\<rparr>"

record ('b, 'n) queue =
  enqueuing_capacity :: usize
  dequeuing_length :: usize
  buffers :: "'b two"
  buffers_length :: "usize two"
  capacity :: usize
  notify :: 'n

record 's buffer_slice =
  slice_buffer_index :: usize
  slice_range :: range
  slice_slice :: 's

section \<open>Construction\<close>

definition Queue_new :: "('b, 's) buffer_trait \<Rightarrow> 'n \<Rightarrow> ('b, 'n) queue exec" where
  "Queue_new B n =
     (let bufs = (buf_default B, buf_default B); c = buf_capacity B (two_get bufs 0) in
      and_then (EC_check_overflow c) (\<lambda>_.
      and_then (EC_new 0 c) (\<lambda>enq.
      Inr \<lparr>enqueuing_capacity = enq, dequeuing_length = DL_new 1 0, buffers = bufs,
           buffers_length = (0, 0), capacity = c, notify = n\<rparr>)))"

definition Queue_with_capacity ::
    "('b, 's) buffer_trait \<Rightarrow> 'b resize_fn \<Rightarrow> 'n \<Rightarrow> usize \<Rightarrow> ('b, 'n) queue exec" where
  "Queue_with_capacity B resize n c =
     and_then (EC_check_overflow c) (\<lambda>_.
     and_then (resize (buf_default B) c) (\<lambda>b0.
     and_then (resize (buf_default B) c) (\<lambda>b1.
     and_then (EC_new 0 c) (\<lambda>enq.
     Inr \<lparr>enqueuing_capacity = enq, dequeuing_length = DL_new 1 0, buffers = (b0, b1),
          buffers_length = (0, 0), capacity = c, notify = n\<rparr>))))"

section \<open>Observers, closing and locking\<close>

definition Queue_capacity :: "('b, 'n) queue \<Rightarrow> usize" where
  "Queue_capacity q = capacity q"

definition Queue_len :: "('b, 'n) queue \<Rightarrow> usize" where
  "Queue_len q = saturating_sub (Queue_capacity q) (EC_remaining_capacity (enqueuing_capacity q))"

definition Queue_is_empty :: "('b, 'n) queue \<Rightarrow> bool" where
  "Queue_is_empty q \<longleftrightarrow> Queue_len q = 0"

definition Queue_is_closed :: "('b, 'n) queue \<Rightarrow> bool" where
  "Queue_is_closed q \<longleftrightarrow> EC_is_closed (enqueuing_capacity q)"

definition Queue_reopen :: "('b, 'n) queue \<Rightarrow> ('b, 'n) queue" where
  "Queue_reopen q = q\<lparr>enqueuing_capacity := EC_reopen (enqueuing_capacity q)\<rparr>"

definition Queue_close :: "'n notify_trait \<Rightarrow> ('b, 'n) queue \<Rightarrow> ('b, 'n) queue" where
  "Queue_close N q =
     q\<lparr>enqueuing_capacity := EC_close (enqueuing_capacity q),
       notify := notify_enqueue N (notify_dequeue N (notify q))\<rparr>"

definition Queue_lock_dequeuing ::
    "('b, 'n) queue \<Rightarrow> (try_dequeue_error + usize) \<times> ('b, 'n) queue" where
  "Queue_lock_dequeuing q =
     (DL_try_from_atomic (dequeuing_length q), q\<lparr>dequeuing_length := DEQUEUING_LOCKED\<rparr>)"

section \<open>Compare-and-swap loops\<close>

text \<open>
  \<open>cas_weak spurious atomic current new\<close>: \<open>Inr\<close> with the value stored on success, \<open>Inl\<close>
  with the value found on failure.
\<close>

definition cas_weak :: "bool \<Rightarrow> usize \<Rightarrow> usize \<Rightarrow> usize \<Rightarrow> usize + usize" where
  "cas_weak spurious atomic current new =
     (if \<not> spurious \<and> atomic = current then Inr new else Inl atomic)"

definition spurious_now :: "bool list \<Rightarrow> bool" where
  "spurious_now sp \<longleftrightarrow> sp \<noteq> [] \<and> hd sp"

definition bump_backoff :: "nat \<Rightarrow> nat" where
  "bump_backoff backoff = (if backoff < BACKOFF_LIMIT then backoff + 1 else backoff)"

datatype reserve_result =
    Reserve_Closed
  | Reserve_Insufficient
  | Reserved usize usize

text \<open>
  The loop of \<open>try_enqueue\<close>. \<open>Reserved enqueuing new\<close> gives the value the reservation
  started from and the value stored.
\<close>

lemma cas_loop_decreases:
  "cas_weak (spurious_now sp) atomic cur new = Inl found \<Longrightarrow>
   2 * length (tl sp) + (if atomic = found then 0 else 1)
     < 2 * length sp + (if atomic = cur then 0 else (1 :: nat))"
  by (cases sp) (auto simp: cas_weak_def spurious_now_def split: if_splits)

function enqueue_loop ::
    "bool list \<Rightarrow> usize \<Rightarrow> usize \<Rightarrow> nat option \<Rightarrow> usize \<Rightarrow> reserve_result" where
  "enqueue_loop sp atomic enqueuing backoff sz =
     (if EC_is_closed enqueuing then Reserve_Closed
      else case EC_try_reserve enqueuing sz of
        None \<Rightarrow> Reserve_Insufficient
      | Some next_enq \<Rightarrow>
          let backoff' = map_option bump_backoff backoff in
          case cas_weak (spurious_now sp) atomic enqueuing next_enq of
            Inr new \<Rightarrow> Reserved enqueuing new
          | Inl enq \<Rightarrow>
              enqueue_loop (tl sp) atomic enq
                (if EC_buffer_index next_enq = EC_buffer_index enq
                 then Some (case backoff' of None \<Rightarrow> 0 | Some k \<Rightarrow> k) else None) sz)"
  by pat_completeness auto
termination
  by (relation "measure (\<lambda>(sp, atomic, enq, _, _). 2 * length sp + (if atomic = enq then 0 else 1))")
    (auto dest: cas_loop_decreases)

text \<open>
  The loop of \<open>try_dequeue_internal\<close> that swaps the buffers: the enqueuing value it replaced,
  the value stored and the final backoff.
\<close>

function swap_loop ::
    "bool list \<Rightarrow> usize \<Rightarrow> usize \<Rightarrow> usize \<Rightarrow> nat \<Rightarrow> usize \<times> usize \<times> nat" where
  "swap_loop sp atomic enqueuing next_enqueuing backoff =
     (case cas_weak (spurious_now sp) atomic enqueuing (EC_with_closed next_enqueuing enqueuing) of
        Inr new \<Rightarrow> (enqueuing, new, backoff)
      | Inl enq \<Rightarrow>
          swap_loop (tl sp) atomic enq next_enqueuing
            (if EC_remaining_capacity enq \<noteq> 0 then bump_backoff backoff else backoff))"
  by pat_completeness auto
termination
  by (relation "measure (\<lambda>(sp, atomic, enq, _, _). 2 * length sp + (if atomic = enq then 0 else 1))")
    (auto dest: cas_loop_decreases)

declare enqueue_loop.simps [simp del] swap_loop.simps [simp del]

section \<open>Dequeuing\<close>

fun try_dequeue_spin_loop ::
    "nat \<Rightarrow> ('b, 's) buffer_trait \<Rightarrow> ('b, 'n) queue \<Rightarrow> usize \<Rightarrow> usize \<Rightarrow>
     ('s buffer_slice option \<times> ('b, 'n) queue) exec" where
  "try_dequeue_spin_loop 0 B q i len = Inr (None, q\<lparr>dequeuing_length := DL_new i len\<rparr>)"
| "try_dequeue_spin_loop (Suc n) B q i len =
     (let buffer_len = two_get (buffers_length q) i in
      if len \<le> buffer_len then
        and_then (sub_usize buffer_len len) (\<lambda>start.
        and_then (buf_slice B (two_get (buffers q) i) (start, buffer_len)) (\<lambda>s.
        Inr (Some \<lparr>slice_buffer_index = i, slice_range = (start, buffer_len), slice_slice = s\<rparr>, q)))
      else try_dequeue_spin_loop n B q i len)"

definition Queue_try_dequeue_spin ::
    "('b, 's) buffer_trait \<Rightarrow> ('b, 'n) queue \<Rightarrow> usize \<Rightarrow> usize \<Rightarrow>
     ((try_dequeue_error + 's buffer_slice) \<times> ('b, 'n) queue) exec" where
  "Queue_try_dequeue_spin B q i len =
     and_then (try_dequeue_spin_loop SPIN_LIMIT B q i len)
       (\<lambda>(r, q'). Inr (case r of None \<Rightarrow> Inl Pending | Some s \<Rightarrow> Inr s, q'))"

type_synonym 'b resize_closure = "'b \<Rightarrow> ('b \<times> bool \<times> usize) exec"

definition run_resize :: "'b resize_closure option \<Rightarrow> 'b \<Rightarrow> ('b \<times> bool \<times> usize) exec" where
  "run_resize resize b = (case resize of None \<Rightarrow> Inr (b, False, 0) | Some f \<Rightarrow> f b)"

function Queue_try_dequeue_internal ::
    "('b, 's) buffer_trait \<Rightarrow> ('n \<Rightarrow> 'n) \<Rightarrow> bool list \<Rightarrow> ('b, 'n) queue \<Rightarrow> usize \<Rightarrow>
     'b resize_closure option \<Rightarrow> ((try_dequeue_error + 's buffer_slice) \<times> ('b, 'n) queue) exec" where
  "Queue_try_dequeue_internal B notify_enq sp q dequeuing resize =
     (if DL_buffer_len dequeuing \<noteq> 0
      then Queue_try_dequeue_spin B q (DL_buffer_index dequeuing) (DL_buffer_len dequeuing)
      else
        and_then (run_resize resize (two_get (buffers q) (DL_buffer_index dequeuing)))
          (\<lambda>(next_buffer, resized, inserted_length).
        let next_buffer_index = DL_buffer_index dequeuing;
            next_capa = buf_capacity B next_buffer;
            q1 = q\<lparr>buffers := two_set (buffers q) next_buffer_index next_buffer,
                   buffers_length :=
                     (if inserted_length > 0
                      then two_set (buffers_length q) next_buffer_index
                             (two_get (buffers_length q) next_buffer_index + inserted_length)
                      else buffers_length q)\<rparr>;
            enqueuing = enqueuing_capacity q1;
            capa = buf_capacity B (two_get (buffers q1) (EC_buffer_index enqueuing))
        in and_then (guard Assertion_Failed (DL_buffer_index dequeuing \<noteq> EC_buffer_index enqueuing)) (\<lambda>_.
        if EC_remaining_capacity enqueuing = capa \<and> \<not> resized \<and> inserted_length = 0
        then Inr (Inl (if EC_is_closed enqueuing then Closed else Empty),
                  q1\<lparr>dequeuing_length := dequeuing\<rparr>)
        else
          and_then (sub_usize next_capa inserted_length) (\<lambda>room.
          and_then (EC_new next_buffer_index room) (\<lambda>next_enqueuing.
          let (enqueuing', new, _) =
                swap_loop sp (enqueuing_capacity q1) enqueuing next_enqueuing 0;
              q2 = q1\<lparr>enqueuing_capacity := new\<rparr>;
              q3 = (if Queue_capacity q2 \<noteq> next_capa then q2\<lparr>capacity := next_capa\<rparr> else q2);
              q4 = q3\<lparr>notify := notify_enq (notify q3)\<rparr>
          in and_then (sub_usize capa (EC_remaining_capacity enqueuing')) (\<lambda>len.
             if len \<noteq> 0 then Queue_try_dequeue_spin B q4 (EC_buffer_index enqueuing') len
             else if inserted_length > 0
             then Queue_try_dequeue_internal B notify_enq sp q4
                    (DL_new (EC_buffer_index enqueuing') 0) None
             else and_then (guard Assertion_Failed resized) (\<lambda>_.
                  Inr (Inl Empty,
                       q4\<lparr>dequeuing_length := DL_new (EC_buffer_index enqueuing') 0\<rparr>))))))))"
  by pat_completeness auto
termination
  by (relation "measure (\<lambda>(_, _, _, _, _, resize). case resize of None \<Rightarrow> 0 | Some _ \<Rightarrow> 1)")
    (auto simp: run_resize_def split: option.splits)

declare Queue_try_dequeue_internal.simps [simp del]

definition Queue_try_dequeue ::
    "('b, 's) buffer_trait \<Rightarrow> 'n notify_trait \<Rightarrow> bool list \<Rightarrow> ('b, 'n) queue \<Rightarrow>
     ((try_dequeue_error + 's buffer_slice) \<times> ('b, 'n) queue) exec" where
  "Queue_try_dequeue B N sp q =
     (case Queue_lock_dequeuing q of
        (Inl e, q') \<Rightarrow> Inr (Inl e, q')
      | (Inr dequeuing, q') \<Rightarrow>
          Queue_try_dequeue_internal B (notify_enqueue N) sp q' dequeuing None)"

definition Queue_release ::
    "('b, 's) buffer_trait \<Rightarrow> ('b, 'n) queue \<Rightarrow> usize \<Rightarrow> range \<Rightarrow> ('b, 'n) queue exec" where
  "Queue_release B q i r =
     and_then (buf_clear B (two_get (buffers q) i) r) (\<lambda>b.
     Inr (q\<lparr>buffers := two_set (buffers q) i b,
            buffers_length := two_set (buffers_length q) i 0,
            dequeuing_length := DL_new i 0\<rparr>))"

definition Queue_get_slice ::
    "('b, 's) buffer_trait \<Rightarrow> ('b, 'n) queue \<Rightarrow> usize \<Rightarrow> range \<Rightarrow> 's exec" where
  "Queue_get_slice B q i r = buf_slice B (two_get (buffers q) i) r"

definition Queue_requeue ::
    "('b, 's) buffer_trait \<Rightarrow> ('b, 'n) queue \<Rightarrow> usize \<Rightarrow> range \<Rightarrow> ('b, 'n) queue exec" where
  "Queue_requeue B q i r =
     and_then (sub_usize (snd r) (fst r)) (\<lambda>len.
     if len > 0 then Inr (q\<lparr>dequeuing_length := DL_new i len\<rparr>)
     else Queue_release B q i r)"

definition Queue_remove ::
    "('b, 'a) drain_remove \<Rightarrow> ('b, 'n) queue \<Rightarrow> usize \<Rightarrow> usize \<Rightarrow> ('a \<times> ('b, 'n) queue) exec" where
  "Queue_remove remove q i index =
     and_then (guard Assertion_Failed (dequeuing_length q = DEQUEUING_LOCKED)) (\<lambda>_.
     and_then (remove (two_get (buffers q) i) index) (\<lambda>(x, b).
     Inr (x, q\<lparr>buffers := two_set (buffers q) i b\<rparr>)))"

section \<open>Dequeuing with a resize\<close>

fun insert_values ::
    "('b, 's) buffer_trait \<Rightarrow> ('b, 'v) insert_trait \<Rightarrow> 'v list \<Rightarrow> 'b \<Rightarrow> usize \<Rightarrow> ('b \<times> usize) exec" where
  "insert_values B I [] b len = Inr (b, len)"
| "insert_values B I (v # vs) b len =
     (if ins_size I v = 0 then insert_values B I vs b len
      else if ins_size I v > buf_capacity B b then Inr (b, len)
      else and_then (ins_into I v b len) (\<lambda>b'.
           and_then (add_usize len (ins_size I v)) (\<lambda>len'.
           insert_values B I vs b' len')))"

definition resize_and_insert ::
    "('b, 's) buffer_trait \<Rightarrow> 'b resize_fn \<Rightarrow> ('b, 'v) insert_trait \<Rightarrow> usize option \<Rightarrow> 'v list option \<Rightarrow>
     'b resize_closure" where
  "resize_and_insert B resize I c vals b =
     (let resized_capa = (case c of None \<Rightarrow> None
                          | Some capa \<Rightarrow> if capa \<noteq> buf_capacity B b then Some capa else None)
      in and_then (case resized_capa of None \<Rightarrow> Inr b
                   | Some capa \<Rightarrow> and_then (EC_check_overflow capa) (\<lambda>_. resize b capa)) (\<lambda>b1.
         and_then (case vals of None \<Rightarrow> Inr (b1, 0) | Some vs \<Rightarrow> insert_values B I vs b1 0) (\<lambda>(b2, len).
         Inr (b2, resized_capa \<noteq> None, len))))"

definition Queue_try_dequeue_and_resize ::
    "('b, 's) buffer_trait \<Rightarrow> 'n notify_trait \<Rightarrow> 'b resize_fn \<Rightarrow> ('b, 'v) insert_trait \<Rightarrow> bool list \<Rightarrow>
     ('b, 'n) queue \<Rightarrow> usize option \<Rightarrow> 'v list option \<Rightarrow>
     ((try_dequeue_error + 's buffer_slice) \<times> ('b, 'n) queue) exec" where
  "Queue_try_dequeue_and_resize B N resize I sp q c vals =
     (case Queue_lock_dequeuing q of
        (Inl e, q') \<Rightarrow> Inr (Inl e, q')
      | (Inr dequeuing, q') \<Rightarrow>
          Queue_try_dequeue_internal B (notify_enqueue N) sp q' dequeuing
            (Some (resize_and_insert B resize I c vals)))"

section \<open>Enqueuing\<close>

definition Queue_try_enqueue ::
    "('b, 's) buffer_trait \<Rightarrow> 'n notify_trait \<Rightarrow> ('b, 'v) insert_trait \<Rightarrow> bool list \<Rightarrow> ('b, 'n) queue \<Rightarrow> 'v \<Rightarrow>
     (('v try_enqueue_error + unit) \<times> ('b, 'n) queue) exec" where
  "Queue_try_enqueue B N I sp q v =
     (let value_size = ins_size I v in
      if value_size = 0 then Inr (Inr (), q)
      else case enqueue_loop sp (enqueuing_capacity q) (enqueuing_capacity q) None value_size of
        Reserve_Closed \<Rightarrow> Inr (Inl (Enqueue_Closed v), q)
      | Reserve_Insufficient \<Rightarrow> Inr (Inl (InsufficientCapacity v), q)
      | Reserved enqueuing new \<Rightarrow>
          let i = EC_buffer_index enqueuing; buffer = two_get (buffers q) i in
          and_then (sub_usize (buf_capacity B buffer) (EC_remaining_capacity enqueuing)) (\<lambda>index.
          and_then (ins_into I v buffer index) (\<lambda>b.
          Inr (Inr (), q\<lparr>enqueuing_capacity := new,
                         buffers := two_set (buffers q) i b,
                         buffers_length :=
                           two_set (buffers_length q) i (two_get (buffers_length q) i + value_size),
                         notify := notify_dequeue N (notify q)\<rparr>))))"

section \<open>Dropping the queue\<close>

text \<open>
  Dropping dequeues once, without notifying, and drops what it got, which releases the buffer. The
  result is the memory of the queue when \<open>drop\<close> returns; values left in its buffers are never
  dropped, because their cells are \<open>MaybeUninit\<close>.
\<close>

definition Queue_drop :: "('b, 's) buffer_trait \<Rightarrow> bool list \<Rightarrow> ('b, 'n) queue \<Rightarrow> ('b, 'n) queue exec" where
  "Queue_drop B sp q =
     (case Queue_lock_dequeuing q of
        (Inl _, q') \<Rightarrow> Inr q'
      | (Inr dequeuing, q') \<Rightarrow>
          and_then (Queue_try_dequeue_internal B (\<lambda>n. n) sp q' dequeuing None) (\<lambda>(r, q'').
          case r of Inl _ \<Rightarrow> Inr q''
          | Inr s \<Rightarrow> Queue_release B q'' (slice_buffer_index s) (slice_range s)))"

end
