(* ===== verification/Queue_Spec.thy ===== *)
theory Queue_Spec
  imports Queue
begin

text \<open>
  What the queue promises, without words, buffers or indices: \<open>aqueue\<close> holds the values being
  dequeued (\<open>aq_front\<close>), whether a slice of them is held, the values enqueued since the last swap
  (\<open>aq_back\<close>), the capacities of the two sides and the closed flag. The \<open>spec_\<close> functions
  are the operations on it. \<open>queue_rep\<close> relates a queue of \<open>Queue\<close> to its abstract state,
  and \<open>slice_rep\<close> a slice returned by a dequeue; \<open>Queue_Refinement\<close> shows that every
  operation of the source implements its specification.
\<close>

section \<open>Abstract queue\<close>

record 'c aqueue =
  aq_front :: "'c list"
  aq_held :: bool
  aq_back :: "'c list"
  aq_capacity :: nat
  aq_other :: nat
  aq_closed :: bool

datatype enqueue_outcome = Enq_Ok | Enq_Full | Enq_Closed

definition spec_new :: "nat \<Rightarrow> 'c aqueue" where
  "spec_new c = \<lparr>aq_front = [], aq_held = False, aq_back = [], aq_capacity = c, aq_other = c,
     aq_closed = False\<rparr>"

definition spec_enqueue :: "'c list \<Rightarrow> 'c aqueue \<Rightarrow> enqueue_outcome \<times> 'c aqueue" where
  "spec_enqueue xs A =
     (if xs = [] then (Enq_Ok, A)
      else if aq_closed A then (Enq_Closed, A)
      else if aq_capacity A < length (aq_back A) + length xs then (Enq_Full, A)
      else (Enq_Ok, A\<lparr>aq_back := aq_back A @ xs\<rparr>))"

definition spec_swap :: "'c aqueue \<Rightarrow> 'c aqueue" where
  "spec_swap A = A\<lparr>aq_front := aq_back A, aq_back := [], aq_capacity := aq_other A,
     aq_other := aq_capacity A\<rparr>"

definition spec_dequeue :: "'c aqueue \<Rightarrow> (try_dequeue_error + 'c list) \<times> 'c aqueue" where
  "spec_dequeue A =
     (if aq_held A then (Inl Conflict, A)
      else if aq_front A \<noteq> [] then (Inr (aq_front A), A\<lparr>aq_held := True\<rparr>)
      else if aq_back A = [] then (Inl (if aq_closed A then Closed else Empty), A)
      else (Inr (aq_back A), (spec_swap A)\<lparr>aq_held := True\<rparr>))"

text \<open>
  Dequeuing when the next buffer has been given the capacity \<open>c\<close> and already holds the values
  \<open>xs\<close>. If nothing was enqueued, the inserted values themselves are dequeued.
\<close>

definition spec_dequeue_resized ::
    "nat \<Rightarrow> bool \<Rightarrow> 'c list \<Rightarrow> 'c aqueue \<Rightarrow> (try_dequeue_error + 'c list) \<times> 'c aqueue" where
  "spec_dequeue_resized c resized xs A =
     (if aq_held A then (Inl Conflict, A)
      else if aq_front A \<noteq> [] then (Inr (aq_front A), A\<lparr>aq_held := True\<rparr>)
      else if aq_back A = [] \<and> \<not> resized \<and> xs = []
      then (Inl (if aq_closed A then Closed else Empty), A)
      else if aq_back A \<noteq> []
      then (Inr (aq_back A), A\<lparr>aq_front := aq_back A, aq_held := True, aq_back := xs,
              aq_capacity := c, aq_other := aq_capacity A\<rparr>)
      else if xs \<noteq> []
      then (Inr xs, A\<lparr>aq_front := xs, aq_held := True, aq_other := c\<rparr>)
      else (Inl Empty, A\<lparr>aq_capacity := c, aq_other := aq_capacity A\<rparr>))"

definition spec_release :: "'c aqueue \<Rightarrow> 'c aqueue" where
  "spec_release A = A\<lparr>aq_front := [], aq_held := False\<rparr>"

definition spec_requeue :: "'c aqueue \<Rightarrow> 'c aqueue" where
  "spec_requeue A = A\<lparr>aq_held := False\<rparr>"

definition spec_remove :: "'c aqueue \<Rightarrow> 'c aqueue" where
  "spec_remove A = A\<lparr>aq_front := tl (aq_front A)\<rparr>"

definition spec_close :: "'c aqueue \<Rightarrow> 'c aqueue" where
  "spec_close A = A\<lparr>aq_closed := True\<rparr>"

definition spec_reopen :: "'c aqueue \<Rightarrow> 'c aqueue" where
  "spec_reopen A = A\<lparr>aq_closed := False\<rparr>"

text \<open>Dropping the queue dequeues once and releases what it got.\<close>

definition spec_drop :: "'c aqueue \<Rightarrow> 'c aqueue" where
  "spec_drop A = (case spec_dequeue A of (Inl _, A') \<Rightarrow> A' | (Inr _, A') \<Rightarrow> spec_release A')"

section \<open>Representation\<close>

definition flip :: "usize \<Rightarrow> usize" where
  "flip i = (if i = 0 then 1 else 0)"

definition enq_index :: "('b, 'n) queue \<Rightarrow> usize" where
  "enq_index q = EC_buffer_index (enqueuing_capacity q)"

definition deq_index :: "('b, 'n) queue \<Rightarrow> usize" where
  "deq_index q = flip (enq_index q)"

definition enq_rep ::
    "('b, 's) buffer_trait \<Rightarrow> ('b \<Rightarrow> (nat \<rightharpoonup> 'c) \<Rightarrow> bool) \<Rightarrow> ('b, 'n) queue \<Rightarrow> 'c aqueue \<Rightarrow> bool" where
  "enq_rep B rep q A \<longleftrightarrow>
     (let w = enqueuing_capacity q; b = two_get (buffers q) (enq_index q) in
      EC_is_closed w = aq_closed A \<and>
      rep b (seg 0 (aq_back A)) \<and>
      unat (buf_capacity B b) = aq_capacity A \<and>
      capacity q = buf_capacity B b \<and>
      aq_capacity A < 4611686018427387903 \<and>
      length (aq_back A) \<le> aq_capacity A \<and>
      unat (EC_remaining_capacity w) = aq_capacity A - length (aq_back A) \<and>
      unat (two_get (buffers_length q) (enq_index q)) = length (aq_back A))"

definition deq_rep ::
    "('b, 's) buffer_trait \<Rightarrow> ('b \<Rightarrow> (nat \<rightharpoonup> 'c) \<Rightarrow> bool) \<Rightarrow> ('b, 'n) queue \<Rightarrow> 'c aqueue \<Rightarrow> bool" where
  "deq_rep B rep q A \<longleftrightarrow>
     (let b = two_get (buffers q) (deq_index q); n = two_get (buffers_length q) (deq_index q) in
      unat (buf_capacity B b) = aq_other A \<and>
      aq_other A < 4611686018427387903 \<and>
      length (aq_front A) \<le> unat n \<and> unat n \<le> aq_other A \<and>
      rep b (seg (unat n - length (aq_front A)) (aq_front A)) \<and>
      dequeuing_length q =
        (if aq_held A then DEQUEUING_LOCKED
         else DL_new (deq_index q) (of_nat (length (aq_front A)))) \<and>
      (\<not> aq_held A \<longrightarrow> aq_front A = [] \<longrightarrow> n = 0))"

definition queue_rep ::
    "('b, 's) buffer_trait \<Rightarrow> ('b \<Rightarrow> (nat \<rightharpoonup> 'c) \<Rightarrow> bool) \<Rightarrow> ('b, 'n) queue \<Rightarrow> 'c aqueue \<Rightarrow> bool" where
  "queue_rep B rep q A \<longleftrightarrow> enq_rep B rep q A \<and> deq_rep B rep q A"

text \<open>The slice that a dequeue hands out covers exactly the front of the abstract queue.\<close>

definition slice_rep ::
    "('c \<Rightarrow> 'd) \<Rightarrow> ('s \<Rightarrow> 'd list) \<Rightarrow> ('b, 'n) queue \<Rightarrow> 'c aqueue \<Rightarrow> 's buffer_slice \<Rightarrow> bool" where
  "slice_rep img view q A s \<longleftrightarrow>
     aq_held A \<and> slice_buffer_index s = deq_index q \<and>
     two_get (buffers_length q) (deq_index q) \<noteq> 0 \<and>
     slice_range s = (two_get (buffers_length q) (deq_index q) - of_nat (length (aq_front A)),
                      two_get (buffers_length q) (deq_index q)) \<and>
     view (slice_slice s) = map img (aq_front A)"

definition enqueue_result_rep ::
    "'v \<Rightarrow> enqueue_outcome \<Rightarrow> 'v try_enqueue_error + unit \<Rightarrow> bool" where
  "enqueue_result_rep v out r \<longleftrightarrow>
     r = (case out of Enq_Ok \<Rightarrow> Inr () | Enq_Full \<Rightarrow> Inl (InsufficientCapacity v)
          | Enq_Closed \<Rightarrow> Inl (Enqueue_Closed v))"

definition dequeue_result_rep ::
    "('c \<Rightarrow> 'd) \<Rightarrow> ('s \<Rightarrow> 'd list) \<Rightarrow> ('b, 'n) queue \<Rightarrow> 'c aqueue \<Rightarrow>
     try_dequeue_error + 'c list \<Rightarrow> try_dequeue_error + 's buffer_slice \<Rightarrow> bool" where
  "dequeue_result_rep img view q A out r \<longleftrightarrow>
     (case out of Inl e \<Rightarrow> r = Inl e
      | Inr xs \<Rightarrow> (\<exists>s. r = Inr s \<and> slice_rep img view q A s \<and> aq_front A = xs))"

section \<open>Facts about the representation\<close>

lemma flip_bound: "unat (flip i) < 2"
  by (simp add: flip_def)

lemma flip_neq: "(flip i = 0) \<noteq> (i = 0)"
  by (simp add: flip_def)

lemma flip_flip: "i = 0 \<or> i = 1 \<Longrightarrow> flip (flip i) = i"
  by (auto simp: flip_def)

lemma enq_index_cases: "enq_index q = 0 \<or> enq_index q = 1"
  by (simp add: enq_index_def EC_buffer_index_cases)

lemma deq_index_bound: "unat (deq_index q) < 2"
  by (simp add: deq_index_def flip_bound)

lemma deq_index_neq: "(deq_index q = 0) \<noteq> (enq_index q = 0)"
  by (simp add: deq_index_def flip_neq)

lemma flip_deq_index: "flip (deq_index q) = enq_index q"
  by (simp add: deq_index_def flip_flip enq_index_cases)

lemmas two_get_enq [simp] = two_get_set_other [OF deq_index_neq]
lemmas two_get_deq [simp] = two_get_set_other [OF deq_index_neq [symmetric]]

lemma enq_rep_cong:
  "enqueuing_capacity q = enqueuing_capacity q' \<Longrightarrow>
   two_get (buffers q) (enq_index q') = two_get (buffers q') (enq_index q') \<Longrightarrow>
   two_get (buffers_length q) (enq_index q') = two_get (buffers_length q') (enq_index q') \<Longrightarrow>
   capacity q = capacity q' \<Longrightarrow> aq_back A = aq_back A' \<Longrightarrow> aq_capacity A = aq_capacity A' \<Longrightarrow>
   aq_closed A = aq_closed A' \<Longrightarrow> enq_rep B rep q A = enq_rep B rep q' A'"
  by (simp add: enq_rep_def enq_index_def Let_def)

lemma deq_rep_cong:
  "enq_index q = enq_index q' \<Longrightarrow>
   two_get (buffers q) (deq_index q') = two_get (buffers q') (deq_index q') \<Longrightarrow>
   two_get (buffers_length q) (deq_index q') = two_get (buffers_length q') (deq_index q') \<Longrightarrow>
   dequeuing_length q = dequeuing_length q' \<Longrightarrow> aq_front A = aq_front A' \<Longrightarrow>
   aq_held A = aq_held A' \<Longrightarrow> aq_other A = aq_other A' \<Longrightarrow> deq_rep B rep q A = deq_rep B rep q' A'"
  by (simp add: deq_rep_def deq_index_def Let_def)

lemma spec_dequeue_resized_plain: "spec_dequeue_resized (aq_other A) False [] A = spec_dequeue A"
  by (simp add: spec_dequeue_resized_def spec_dequeue_def spec_swap_def)

lemma enqueue_loop_solo:
  "enqueue_loop sp a a backoff sz =
     (if EC_is_closed a then Reserve_Closed
      else case EC_try_reserve a sz of None \<Rightarrow> Reserve_Insufficient | Some w \<Rightarrow> Reserved a w)"
proof (induction sp arbitrary: backoff)
  case Nil
  show ?case
    by (subst enqueue_loop.simps) (simp add: cas_weak_def spurious_now_def split: option.split)
next
  case (Cons x sp)
  show ?case
    by (subst enqueue_loop.simps)
      (auto simp: cas_weak_def spurious_now_def Cons.IH Let_def split: option.split)
qed

lemma swap_loop_solo:
  "\<exists>backoff'. swap_loop sp a a w backoff = (a, EC_with_closed w a, backoff')"
proof (induction sp arbitrary: backoff)
  case Nil
  show ?case
    by (subst swap_loop.simps) (simp add: cas_weak_def spurious_now_def)
next
  case (Cons x sp)
  then show ?case
    by (subst swap_loop.simps) (simp add: cas_weak_def spurious_now_def)
qed

lemma swap_loop_backoff:
  "backoff \<le> BACKOFF_LIMIT \<Longrightarrow> snd (snd (swap_loop sp a enq w backoff)) \<le> BACKOFF_LIMIT"
proof (induction sp a enq w backoff rule: swap_loop.induct)
  case (1 sp a enq w backoff)
  show ?case
  proof (cases "cas_weak (spurious_now sp) a enq (EC_with_closed w enq)")
    case (Inl found)
    with "1.prems" show ?thesis
      by (subst swap_loop.simps) (simp add: "1.IH" [OF Inl] bump_backoff_def)
  next
    case (Inr new)
    with "1.prems" show ?thesis
      by (subst swap_loop.simps) simp
  qed
qed

end
