(* ===== verification/Queue_Refinement.thy ===== *)
theory Queue_Refinement
  imports Queue_Spec
begin

text \<open>
  Every operation of \<open>Queue\<close> implements its specification of \<open>Queue_Spec\<close>, over any buffer
  that meets the contracts of \<open>Buffer_Traits\<close>: started in a queue that represents \<open>A\<close>, it
  returns (no panic, no uninitialised read, whatever compare-and-swaps fail spuriously), the new
  queue represents the abstract state after the specified operation, and the result is the specified
  one. The lemmas are proved once in the contract locales; the root theory states them for the
  crate's buffers.
\<close>

section \<open>The two sides of a queue\<close>

lemma enq_repD:
  assumes "queue_rep B rep q A"
  shows "EC_is_closed (enqueuing_capacity q) = aq_closed A"
    and "rep (two_get (buffers q) (enq_index q)) (seg 0 (aq_back A))"
    and "unat (buf_capacity B (two_get (buffers q) (enq_index q))) = aq_capacity A"
    and "aq_capacity A < 4611686018427387903"
    and "length (aq_back A) \<le> aq_capacity A"
    and "unat (EC_remaining_capacity (enqueuing_capacity q)) = aq_capacity A - length (aq_back A)"
    and "unat (two_get (buffers_length q) (enq_index q)) = length (aq_back A)"
    and "capacity q = buf_capacity B (two_get (buffers q) (enq_index q))"
  using assms by (simp_all add: queue_rep_def enq_rep_def Let_def)

lemma deq_repD:
  assumes "queue_rep B rep q A"
  shows "unat (buf_capacity B (two_get (buffers q) (deq_index q))) = aq_other A"
    and "aq_other A < 4611686018427387903"
    and "length (aq_front A) \<le> unat (two_get (buffers_length q) (deq_index q))"
    and "unat (two_get (buffers_length q) (deq_index q)) \<le> aq_other A"
    and "rep (two_get (buffers q) (deq_index q))
      (seg (unat (two_get (buffers_length q) (deq_index q)) - length (aq_front A)) (aq_front A))"
    and "dequeuing_length q = (if aq_held A then DEQUEUING_LOCKED
      else DL_new (deq_index q) (of_nat (length (aq_front A))))"
    and "\<not> aq_held A \<Longrightarrow> aq_front A = [] \<Longrightarrow> two_get (buffers_length q) (deq_index q) = 0"
  using assms by (simp_all add: queue_rep_def deq_rep_def Let_def)

text \<open>The index at which the next value goes, and its agreement with the stored values.\<close>

lemma enqueue_index:
  assumes "queue_rep B rep q A"
  defines "c \<equiv> buf_capacity B (two_get (buffers q) (enq_index q))"
    and "r \<equiv> EC_remaining_capacity (enqueuing_capacity q)"
  shows "sub_usize c r = Inr (c - r)" and "unat (c - r) = length (aq_back A)"
  using enq_repD(3,5,6) [OF assms(1)] by (simp_all add: c_def r_def word_le_nat_alt unat_sub)

section \<open>Enqueuing\<close>

context insert_contract
begin

lemma size_neq_0: "honest v \<Longrightarrow> ins_size I v = 0 \<longleftrightarrow> content v = []"
  using size_content [of v] by (simp flip: unat_eq_0)

lemma try_reserve_back:
  assumes "queue_rep B rep q A" and "honest v" and "length (content v) < 9223372036854775808"
    and "\<not> aq_closed A"
  shows "EC_try_reserve (enqueuing_capacity q) (ins_size I v) = None \<longleftrightarrow>
    aq_capacity A < length (aq_back A) + length (content v)"
  using enq_repD [OF assms(1)] size_content [OF assms(2)] assms(3,4)
  by (subst EC_try_reserve_None) auto

lemma insert_back:
  assumes "queue_rep B rep q A" and "honest v" "content v \<noteq> []"
    and "length (aq_back A) + length (content v) \<le> aq_capacity A"
  defines "b \<equiv> two_get (buffers q) (enq_index q)"
  shows "\<exists>b'. ins_into I v b (buf_capacity B b - EC_remaining_capacity (enqueuing_capacity q)) = Inr b' \<and>
    rep b' (seg 0 (aq_back A @ content v)) \<and> buf_capacity B b' = buf_capacity B b"
  using insert_ok [OF enq_repD(2) [OF assms(1)] assms(2,3),
      of "buf_capacity B b - EC_remaining_capacity (enqueuing_capacity q)"]
    enqueue_index(2) [OF assms(1)] enq_repD(3) [OF assms(1)] seg_append [of 0 "aq_back A"] assms(4)
  by (auto simp: b_def)

lemma try_enqueue_fits:
  assumes q: "queue_rep B rep q A" and v: "honest v" "length (content v) < 9223372036854775808"
    and ok: "content v \<noteq> []" "\<not> aq_closed A"
      "length (aq_back A) + length (content v) \<le> aq_capacity A"
  shows "\<exists>q'. Queue_try_enqueue B N I sp q v = Inr (Inr (), q') \<and>
    queue_rep B rep q' (A\<lparr>aq_back := aq_back A @ content v\<rparr>) \<and>
    (\<forall>s. slice_rep img view q A s \<longrightarrow>
         slice_rep img view q' (A\<lparr>aq_back := aq_back A @ content v\<rparr>) s)"
proof -
  let ?w = "enqueuing_capacity q" and ?i = "enq_index q" and ?sz = "ins_size I v"
  let ?A' = "A\<lparr>aq_back := aq_back A @ content v\<rparr>"
  note e = enq_repD [OF q] and sz = size_content [OF v(1)]
  obtain w' where w': "EC_try_reserve ?w ?sz = Some w'"
    using try_reserve_back [OF q v ok(2)] ok(3) by fastforce
  note fields = EC_try_reserve_Some [OF _ _ w']
  obtain b' where b': "ins_into I v (two_get (buffers q) ?i)
      (buf_capacity B (two_get (buffers q) ?i) - EC_remaining_capacity ?w) = Inr b'"
    "rep b' (seg 0 (aq_back A @ content v))"
    "buf_capacity B b' = buf_capacity B (two_get (buffers q) ?i)"
    using insert_back [OF q v(1) ok(1,3)] by blast
  let ?q' = "q\<lparr>enqueuing_capacity := w', buffers := two_set (buffers q) ?i b',
    buffers_length := two_set (buffers_length q) ?i (two_get (buffers_length q) ?i + ?sz),
    notify := notify_dequeue N (notify q)\<rparr>"
  have run: "Queue_try_enqueue B N I sp q v = Inr (Inr (), ?q')"
    using ok e(1) size_neq_0 [OF v(1)] w' enqueue_index(1) [OF q] b'(1)
    by (simp add: Queue_try_enqueue_def enqueue_loop_solo Let_def enq_index_def)
  have i': "enq_index ?q' = ?i"
    using fields(4) e(1) ok(2) sz v(2) by (simp add: enq_index_def)
  have "unat (two_get (buffers_length q) ?i + ?sz) = length (aq_back A) + length (content v)"
    using ok(3) e(4,7) by (subst unat_add_usize) (simp_all add: sz)
  moreover have "unat (EC_remaining_capacity w') =
      aq_capacity A - (length (aq_back A) + length (content v))"
    using fields(2,3) e(1,6) ok(2) sz v(2) by (simp add: unat_sub)
  ultimately have "enq_rep B rep ?q' ?A'"
    using e ok fields(1) b'(2,3) sz v(2) unfolding enq_rep_def i' Let_def by simp
  moreover have "deq_rep B rep ?q' ?A' = deq_rep B rep q A"
    using i' by (intro deq_rep_cong) (simp_all add: two_get_deq)
  moreover have "slice_rep img view ?q' ?A' s = slice_rep img view q A s" for s
    using i' by (simp add: slice_rep_def deq_index_def [of ?q'] flip: deq_index_def)
  ultimately show ?thesis
    using run q by (simp add: queue_rep_def)
qed

lemma try_enqueue_refines:
  assumes q: "queue_rep B rep q A" and v: "honest v" "length (content v) < 9223372036854775808"
  shows "\<exists>r q'. Queue_try_enqueue B N I sp q v = Inr (r, q') \<and>
    queue_rep B rep q' (snd (spec_enqueue (content v) A)) \<and>
    enqueue_result_rep v (fst (spec_enqueue (content v) A)) r \<and>
    (\<forall>s. slice_rep img view q A s \<longrightarrow> slice_rep img view q' (snd (spec_enqueue (content v) A)) s)"
proof -
  consider (rejected) "content v = [] \<or> aq_closed A \<or>
      aq_capacity A < length (aq_back A) + length (content v)"
    | (fits) "content v \<noteq> []" "\<not> aq_closed A"
      "length (aq_back A) + length (content v) \<le> aq_capacity A"
    by linarith
  then show ?thesis
  proof cases
    case rejected
    then show ?thesis
      using q size_neq_0 [OF v(1)] enq_repD(1) [OF q] try_reserve_back [OF q v]
      by (auto simp: Queue_try_enqueue_def spec_enqueue_def enqueue_result_rep_def
          enqueue_loop_solo Let_def)
  next
    case fits
    then show ?thesis
      using try_enqueue_fits [OF q v fits, of N sp]
      by (auto simp: spec_enqueue_def enqueue_result_rep_def)
  qed
qed

end

section \<open>Dequeuing\<close>

lemma two_set_get [simp]: "two_set p i (two_get p i) = p"
  by (simp add: two_set_def two_get_def)

lemma update_capacity [simp]:
  "(if capacity q \<noteq> c then q\<lparr>capacity := c\<rparr> else q) = q\<lparr>capacity := c\<rparr>"
  by (cases q) auto

lemma try_dequeue_spin_ready:
  assumes "len \<le> two_get (buffers_length q) i"
    and "buf_slice B (two_get (buffers q) i)
      (two_get (buffers_length q) i - len, two_get (buffers_length q) i) = Inr s"
  shows "Queue_try_dequeue_spin B q i len =
    Inr (Inr \<lparr>slice_buffer_index = i, slice_range =
      (two_get (buffers_length q) i - len, two_get (buffers_length q) i), slice_slice = s\<rparr>, q)"
proof -
  obtain k where limit: "SPIN_LIMIT = Suc k"
    by (cases SPIN_LIMIT) (simp_all add: SPIN_LIMIT_def)
  show ?thesis
    unfolding Queue_try_dequeue_spin_def limit using assms by (simp add: Let_def)
qed

lemma try_dequeue_spin_loop_pending:
  "two_get (buffers_length q) i < len \<Longrightarrow>
   try_dequeue_spin_loop n B q i len = Inr (None, q\<lparr>dequeuing_length := DL_new i len\<rparr>)"
  by (induction n) (auto simp: Let_def dest: leD)

lemma try_dequeue_spin_pending:
  "two_get (buffers_length q) i < len \<Longrightarrow>
   Queue_try_dequeue_spin B q i len = Inr (Inl Pending, q\<lparr>dequeuing_length := DL_new i len\<rparr>)"
  by (simp add: Queue_try_dequeue_spin_def try_dequeue_spin_loop_pending)

text \<open>
  The queue after the swap: the buffer \<open>nb\<close> holding \<open>ins\<close> inserted values becomes the
  enqueuing buffer.
\<close>

definition swapped ::
    "('b, 's) buffer_trait \<Rightarrow> ('n \<Rightarrow> 'n) \<Rightarrow> ('b, 'n) queue \<Rightarrow> 'b \<Rightarrow> usize \<Rightarrow> ('b, 'n) queue" where
  "swapped B notify_enq q nb ins =
     q\<lparr>buffers := two_set (buffers q) (deq_index q) nb,
       buffers_length := two_set (buffers_length q) (deq_index q) ins,
       enqueuing_capacity :=
         EC_with_closed (EC_pack (deq_index q) (buf_capacity B nb - ins)) (enqueuing_capacity q),
       capacity := buf_capacity B nb,
       notify := notify_enq (notify q)\<rparr>"

context buffer_contract
begin

text \<open>The slice of the front is readable while it is held.\<close>

lemma spin_front:
  assumes q: "queue_rep B rep q A" and held: "aq_held A" and front: "aq_front A \<noteq> []"
  shows "\<exists>s. Queue_try_dequeue_spin B q (deq_index q) (of_nat (length (aq_front A))) = Inr (Inr s, q) \<and>
    slice_rep img view q A s"
proof -
  let ?n = "two_get (buffers_length q) (deq_index q)"
  let ?len = "of_nat (length (aq_front A)) :: usize"
  note d = deq_repD [OF q]
  have len: "unat ?len = length (aq_front A)"
    using d(2-4) by (simp add: usize_simps)
  then have le: "?len \<le> ?n" and lo: "unat (?n - ?len) = unat ?n - length (aq_front A)"
    using d(3) by (simp_all add: word_le_nat_alt unat_sub)
  have "?n \<le> buf_capacity B (two_get (buffers q) (deq_index q))"
    using d(1,4) by (simp add: word_le_nat_alt)
  moreover have "rep (two_get (buffers q) (deq_index q)) (seg (unat (?n - ?len)) (aq_front A))"
    using d(5) by (simp add: lo)
  moreover have "unat ?n = unat (?n - ?len) + length (aq_front A)"
    using d(3) lo by simp
  ultimately obtain s where
    s: "buf_slice B (two_get (buffers q) (deq_index q)) (?n - ?len, ?n) = Inr s"
      "view s = map img (aq_front A)"
    using slice_seg front by blast
  moreover have "?n \<noteq> 0"
    using d(3) front by auto
  ultimately show ?thesis
    using try_dequeue_spin_ready [OF le s(1)] by (auto simp: slice_rep_def s(2) held)
qed

lemma seg_fits:
  assumes "rep b (seg 0 xs)"
  shows "length xs \<le> unat (buf_capacity B b)"
proof -
  have "{0..<length xs} \<subseteq> {..<unat (buf_capacity B b)}"
    using rep_dom [OF assms] by simp
  then show ?thesis
    by (simp only: atLeast0LessThan lessThan_subset_iff)
qed


lemma queue_rep_swapped:
  assumes q: "queue_rep B rep q A" and front: "aq_front A = []"
    and nb: "rep nb (seg 0 xs)" "unat ins = length xs" "unat (buf_capacity B nb) < 4611686018427387903"
    and held: "aq_held A"
  shows "queue_rep B rep (swapped B f q nb ins) (A\<lparr>aq_front := aq_back A, aq_back := xs,
      aq_capacity := unat (buf_capacity B nb), aq_other := aq_capacity A\<rparr>)"
    and "deq_index (swapped B f q nb ins) = enq_index q"
proof -
  let ?q = "swapped B f q nb ins"
  note e = enq_repD [OF q] and d = deq_repD [OF q]
  have fits: "length xs \<le> unat (buf_capacity B nb)"
    using seg_fits [OF nb(1)] .
  then have room: "unat (buf_capacity B nb - ins) = unat (buf_capacity B nb) - length xs"
    using nb(2) by (simp add: unat_sub word_le_nat_alt)
  note w = EC_pack_fields [OF deq_index_bound, of "buf_capacity B nb - ins" q]
    EC_with_closed_fields [of "EC_pack (deq_index q) (buf_capacity B nb - ins)"
      "enqueuing_capacity q"]
  have i: "enq_index ?q = deq_index q"
    using w nb(3) by (simp add: enq_index_def swapped_def room)
  then show j: "deq_index ?q = enq_index q"
    by (simp add: deq_index_def [of ?q] flip_deq_index)
  have "enq_rep B rep ?q (A\<lparr>aq_front := aq_back A, aq_back := xs,
      aq_capacity := unat (buf_capacity B nb), aq_other := aq_capacity A\<rparr>)"
    using e d w nb fits room unfolding enq_rep_def i Let_def by (simp add: swapped_def)
  moreover have "deq_rep B rep ?q (A\<lparr>aq_front := aq_back A, aq_back := xs,
      aq_capacity := unat (buf_capacity B nb), aq_other := aq_capacity A\<rparr>)"
    using e d held unfolding deq_rep_def j Let_def by (simp add: swapped_def)
  ultimately show "queue_rep B rep ?q (A\<lparr>aq_front := aq_back A, aq_back := xs,
      aq_capacity := unat (buf_capacity B nb), aq_other := aq_capacity A\<rparr>)"
    by (simp add: queue_rep_def)
qed

text \<open>
  One call of \<open>try_dequeue_internal\<close> on a locked queue with an empty dequeuing side, whatever
  the resize closure did to the next buffer.
\<close>

lemma internal_unfold:
  assumes q: "queue_rep B rep q A" and held: "aq_held A" "aq_front A = []"
      "two_get (buffers_length q) (deq_index q) = 0"
    and run: "run_resize resize (two_get (buffers q) (deq_index q)) = Inr (nb, resized, ins)"
    and nb: "rep nb (seg 0 xs)" "unat ins = length xs" "unat (buf_capacity B nb) < 4611686018427387903"
  shows "Queue_try_dequeue_internal B f sp q (DL_new (deq_index q) 0) resize =
    (if aq_back A = [] \<and> \<not> resized \<and> xs = []
     then Inr (Inl (if aq_closed A then Closed else Empty),
               q\<lparr>buffers := two_set (buffers q) (deq_index q) nb,
                 dequeuing_length := DL_new (deq_index q) 0\<rparr>)
     else if aq_back A \<noteq> []
     then Queue_try_dequeue_spin B (swapped B f q nb ins) (enq_index q) (of_nat (length (aq_back A)))
     else if xs \<noteq> []
     then Queue_try_dequeue_internal B f sp (swapped B f q nb ins) (DL_new (enq_index q) 0) None
     else Inr (Inl Empty, (swapped B f q nb ins)\<lparr>dequeuing_length := DL_new (enq_index q) 0\<rparr>))"
proof -
  let ?w = "enqueuing_capacity q" and ?d = "deq_index q" and ?e = "EC_buffer_index (enqueuing_capacity q)"
  let ?c = "buf_capacity B (two_get (buffers q) ?e)"
  note e = enq_repD [OF q, unfolded enq_index_def]
  have dl: "DL_buffer_len (DL_new ?d 0) = 0" "DL_buffer_index (DL_new ?d 0) = ?d"
    by (simp_all add: DL_new_fields deq_index_bound)
  have ne: "?d \<noteq> ?e"
    using deq_index_neq [of q] by (auto simp: enq_index_def)
  have other: "two_get (two_set (buffers q) ?d nb) ?e = two_get (buffers q) ?e"
    using two_get_enq [where q = q] by (simp add: enq_index_def)
  have empty: "EC_remaining_capacity ?w = ?c \<longleftrightarrow> aq_back A = []"
    using e(3,5,6) by (auto simp: usize_eq_iff simp flip: length_0_conv)
  have ins0: "ins = 0 \<longleftrightarrow> xs = []" "0 < ins \<longleftrightarrow> xs \<noteq> []"
    using nb(2) by (auto simp: word_less_nat_alt simp flip: unat_eq_0)
  have room: "sub_usize (buf_capacity B nb) ins = Inr (buf_capacity B nb - ins)"
    "unat (buf_capacity B nb - ins) < 4611686018427387904"
    using seg_fits [OF nb(1)] nb(2,3) by (simp_all add: word_le_nat_alt unat_sub)
  have len: "sub_usize ?c (EC_remaining_capacity ?w) = Inr (of_nat (length (aq_back A)))"
    using enqueue_index(1) [OF q] unfolding enqueue_index(2) [OF q, symmetric] by (simp add: enq_index_def)
  have len0: "(of_nat (length (aq_back A)) :: usize) = 0 \<longleftrightarrow> aq_back A = []"
    using e(4,5) by (auto simp: usize_eq_iff usize_simps)
  obtain k where swap: "swap_loop sp ?w ?w (EC_pack ?d (buf_capacity B nb - ins)) 0 =
      (?w, EC_with_closed (EC_pack ?d (buf_capacity B nb - ins)) ?w, k)"
    using swap_loop_solo by blast
  have lengths: "xs = [] \<Longrightarrow> two_set (buffers_length q) ?d ins = buffers_length q"
    using held(3) two_set_get [of "buffers_length q" ?d] ins0 by (simp del: two_set_get)
  show ?thesis
    by (subst Queue_try_dequeue_internal.simps)
      (simp add: dl run other Let_def room EC_new_ok swap len swapped_def enq_index_def
        Queue_capacity_def held(3) lengths e(1) empty ins0 len0 ne)
qed


lemma internal_swaps:
  assumes q: "queue_rep B rep q A" and held: "aq_held A" "aq_front A = []"
      "two_get (buffers_length q) (deq_index q) = 0"
    and run: "run_resize resize (two_get (buffers q) (deq_index q)) = Inr (nb, resized, ins)"
    and nb: "rep nb (seg 0 xs)" "unat ins = length xs" "unat (buf_capacity B nb) < 4611686018427387903"
    and filled: "aq_back A \<noteq> []"
  shows "\<exists>s q'. Queue_try_dequeue_internal B f sp q (DL_new (deq_index q) 0) resize = Inr (Inr s, q') \<and>
    queue_rep B rep q' (A\<lparr>aq_front := aq_back A, aq_back := xs,
      aq_capacity := unat (buf_capacity B nb), aq_other := aq_capacity A\<rparr>) \<and>
    slice_rep img view q' (A\<lparr>aq_front := aq_back A, aq_back := xs,
      aq_capacity := unat (buf_capacity B nb), aq_other := aq_capacity A\<rparr>) s"
  using spin_front [OF queue_rep_swapped(1) [OF q held(2) nb held(1), of f]]
    queue_rep_swapped [OF q held(2) nb held(1), of f]
    internal_unfold [OF q held run nb, of f sp] filled held(1)
  by auto

lemma internal_idle:
  assumes q: "queue_rep B rep q A" and held: "aq_held A" "aq_front A = []"
      "two_get (buffers_length q) (deq_index q) = 0"
    and run: "run_resize resize (two_get (buffers q) (deq_index q)) = Inr (nb, resized, ins)"
    and nb: "rep nb (seg 0 xs)" "unat ins = length xs" "unat (buf_capacity B nb) < 4611686018427387903"
    and idle: "aq_back A = []" "\<not> resized" "xs = []"
    and same: "unat (buf_capacity B nb) = aq_other A"
  shows "\<exists>q'. Queue_try_dequeue_internal B f sp q (DL_new (deq_index q) 0) resize =
      Inr (Inl (if aq_closed A then Closed else Empty), q') \<and> queue_rep B rep q' (A\<lparr>aq_held := False\<rparr>)"
proof -
  let ?q = "q\<lparr>buffers := two_set (buffers q) (deq_index q) nb,
    dequeuing_length := DL_new (deq_index q) 0\<rparr>"
  have i: "enq_index ?q = enq_index q" "deq_index ?q = deq_index q"
    by (simp_all add: enq_index_def deq_index_def)
  have "enq_rep B rep ?q (A\<lparr>aq_held := False\<rparr>) = enq_rep B rep q A"
    by (rule enq_rep_cong) simp_all
  moreover have "deq_rep B rep ?q (A\<lparr>aq_held := False\<rparr>)"
    using deq_repD [OF q] held nb(1,3) same idle unfolding deq_rep_def i Let_def by simp
  ultimately show ?thesis
    using internal_unfold [OF q held run nb, of f sp] idle q by (simp add: queue_rep_def)
qed

lemma internal_inserted:
  assumes q: "queue_rep B rep q A" and held: "aq_held A" "aq_front A = []"
      "two_get (buffers_length q) (deq_index q) = 0"
    and run: "run_resize resize (two_get (buffers q) (deq_index q)) = Inr (nb, resized, ins)"
    and nb: "rep nb (seg 0 xs)" "unat ins = length xs" "unat (buf_capacity B nb) < 4611686018427387903"
    and inserted: "aq_back A = []" "xs \<noteq> []"
  shows "\<exists>s q'. Queue_try_dequeue_internal B f sp q (DL_new (deq_index q) 0) resize = Inr (Inr s, q') \<and>
    queue_rep B rep q' (A\<lparr>aq_front := xs, aq_other := unat (buf_capacity B nb)\<rparr>) \<and>
    slice_rep img view q' (A\<lparr>aq_front := xs, aq_other := unat (buf_capacity B nb)\<rparr>) s"
proof -
  let ?q = "swapped B f q nb ins"
  note sw = queue_rep_swapped [OF q held(2) nb held(1), of f]
  have n0: "two_get (buffers_length ?q) (deq_index ?q) = 0"
    unfolding sw(2) using enq_repD(7) [OF q] inserted by (simp add: swapped_def flip: unat_eq_0)
  have "rep (two_get (buffers ?q) (deq_index ?q)) (seg 0 [])"
    "unat (buf_capacity B (two_get (buffers ?q) (deq_index ?q))) = aq_capacity A"
    using deq_repD(1,5) [OF sw(1)] inserted by simp_all
  with internal_swaps [OF sw(1) _ _ n0, of None _ False 0 "[]" f sp] held inserted
    enq_repD(4) [OF q] sw(2) internal_unfold [OF q held run nb, of f sp]
  show ?thesis
    by (cases A) (auto simp: run_resize_def)
qed

lemma internal_resized_empty:
  assumes q: "queue_rep B rep q A" and held: "aq_held A" "aq_front A = []"
      "two_get (buffers_length q) (deq_index q) = 0"
    and run: "run_resize resize (two_get (buffers q) (deq_index q)) = Inr (nb, resized, ins)"
    and nb: "rep nb (seg 0 xs)" "unat ins = length xs" "unat (buf_capacity B nb) < 4611686018427387903"
    and empty: "aq_back A = []" "xs = []" "resized"
  shows "\<exists>q'. Queue_try_dequeue_internal B f sp q (DL_new (deq_index q) 0) resize = Inr (Inl Empty, q') \<and>
    queue_rep B rep q' (A\<lparr>aq_held := False, aq_capacity := unat (buf_capacity B nb),
      aq_other := aq_capacity A\<rparr>)"
proof -
  let ?q = "(swapped B f q nb ins)\<lparr>dequeuing_length := DL_new (enq_index q) 0\<rparr>"
  let ?A = "A\<lparr>aq_held := False, aq_capacity := unat (buf_capacity B nb), aq_other := aq_capacity A\<rparr>"
  note sw = queue_rep_swapped [OF q held(2) nb held(1), of f]
  have i: "deq_index ?q = enq_index q"
    using sw(2) by (simp add: deq_index_def enq_index_def)
  have "enq_rep B rep ?q ?A = enq_rep B rep (swapped B f q nb ins) (A\<lparr>aq_front := aq_back A,
      aq_back := xs, aq_capacity := unat (buf_capacity B nb), aq_other := aq_capacity A\<rparr>)"
    using empty by (intro enq_rep_cong) simp_all
  moreover have "deq_rep B rep ?q ?A"
    using deq_repD [OF sw(1), unfolded sw(2)] enq_repD(7) [OF q] empty held
    unfolding deq_rep_def i Let_def by (simp add: swapped_def flip: unat_eq_0)
  ultimately show ?thesis
    using internal_unfold [OF q held run nb, of f sp] empty sw(1) by (simp add: queue_rep_def)
qed

lemma internal_refines:
  assumes q: "queue_rep B rep q A" and held: "aq_held A" "aq_front A = []"
      "two_get (buffers_length q) (deq_index q) = 0"
    and run: "run_resize resize (two_get (buffers q) (deq_index q)) = Inr (nb, resized, ins)"
    and nb: "rep nb (seg 0 xs)" "unat ins = length xs" "unat (buf_capacity B nb) < 4611686018427387903"
    and same: "\<not> resized \<Longrightarrow> unat (buf_capacity B nb) = aq_other A"
  defines "res \<equiv> spec_dequeue_resized (unat (buf_capacity B nb)) resized xs (A\<lparr>aq_held := False\<rparr>)"
  shows "\<exists>r q'. Queue_try_dequeue_internal B f sp q (DL_new (deq_index q) 0) resize = Inr (r, q') \<and>
    queue_rep B rep q' (snd res) \<and> dequeue_result_rep img view q' (snd res) (fst res) r"
proof -
  note rd = res_def spec_dequeue_resized_def dequeue_result_rep_def
  consider (idle) "aq_back A = []" "\<not> resized" "xs = []" | (filled) "aq_back A \<noteq> []"
    | (inserted) "aq_back A = []" "xs \<noteq> []" | (empty) "aq_back A = []" "xs = []" resized
    by blast
  then show ?thesis
  proof cases
    case idle
    with internal_idle [OF q held run nb idle same, of f sp] held show ?thesis
      by (auto simp: rd)
  next
    case filled
    with internal_swaps [OF q held run nb filled, of f sp] held show ?thesis
      by (cases A) (auto simp: rd)
  next
    case inserted
    with internal_inserted [OF q held run nb inserted, of f sp] held show ?thesis
      by (cases A) (auto simp: rd)
  next
    case empty
    with internal_resized_empty [OF q held run nb empty, of f sp] held show ?thesis
      by (cases A) (auto simp: rd)
  qed
qed

lemma lock_rep:
  assumes "queue_rep B rep q A"
  shows "queue_rep B rep (q\<lparr>dequeuing_length := DEQUEUING_LOCKED\<rparr>) (A\<lparr>aq_held := True\<rparr>)"
proof -
  let ?q = "q\<lparr>dequeuing_length := DEQUEUING_LOCKED\<rparr>"
  have i: "enq_index ?q = enq_index q" "deq_index ?q = deq_index q"
    by (simp_all add: enq_index_def deq_index_def)
  then show ?thesis
    using assms unfolding queue_rep_def enq_rep_def deq_rep_def i Let_def by simp
qed

text \<open>Locking and then dequeuing, for every resize closure with a known effect on an empty buffer.\<close>

lemma lock_and_dequeue_refines:
  assumes q: "queue_rep B rep q A"
    and prep: "\<not> aq_held A \<Longrightarrow> aq_front A = [] \<Longrightarrow>
      run_resize resize (two_get (buffers q) (deq_index q)) = Inr (nb, resized, ins) \<and>
      rep nb (seg 0 xs) \<and> unat ins = length xs \<and> unat (buf_capacity B nb) < 4611686018427387903 \<and>
      (\<not> resized \<longrightarrow> unat (buf_capacity B nb) = aq_other A)"
  defines "res \<equiv> spec_dequeue_resized (unat (buf_capacity B nb)) resized xs A"
  shows "\<exists>r q'. (case Queue_lock_dequeuing q of (Inl e, q') \<Rightarrow> Inr (Inl e, q')
      | (Inr d, q') \<Rightarrow> Queue_try_dequeue_internal B f sp q' d resize) = Inr (r, q') \<and>
    queue_rep B rep q' (snd res) \<and> dequeue_result_rep img view q' (snd res) (fst res) r"
proof -
  let ?q = "q\<lparr>dequeuing_length := DEQUEUING_LOCKED\<rparr>" and ?A = "A\<lparr>aq_held := True\<rparr>"
  note d = deq_repD [OF q] and locked = lock_rep [OF q]
  have i: "deq_index ?q = deq_index q"
    by (simp add: deq_index_def enq_index_def)
  have len: "unat (of_nat (length (aq_front A)) :: usize) = length (aq_front A)"
    using d(2-4) by (simp add: usize_simps)
  consider (held) "aq_held A" | (front) "\<not> aq_held A" "aq_front A \<noteq> []"
    | (swap) "\<not> aq_held A" "aq_front A = []"
    by blast
  then show ?thesis
  proof cases
    case held
    then have same: "?q = q"
      using d(6) by (cases q) simp
    show ?thesis
      unfolding Queue_lock_dequeuing_def same using held d(6) q
      by (simp add: res_def spec_dequeue_resized_def dequeue_result_rep_def)
  next
    case front
    then have "DL_buffer_len (dequeuing_length q) = of_nat (length (aq_front A))"
      "DL_buffer_index (dequeuing_length q) = deq_index q"
      "DL_try_from_atomic (dequeuing_length q) = Inr (dequeuing_length q)"
      using d(2-4,6) len by (simp_all add: DL_new_fields DL_try_from_new deq_index_bound)
    moreover have "(of_nat (length (aq_front A)) :: usize) \<noteq> 0"
      using front len by auto
    ultimately show ?thesis
      using spin_front [OF locked] front locked i
      by (subst Queue_try_dequeue_internal.simps)
        (auto simp: Queue_lock_dequeuing_def res_def spec_dequeue_resized_def dequeue_result_rep_def)
  next
    case swap
    then have "dequeuing_length q = DL_new (deq_index q) 0"
      "DL_try_from_atomic (dequeuing_length q) = Inr (dequeuing_length q)"
      using d(6) by (simp_all add: DL_try_from_new deq_index_bound)
    moreover have same: "?A\<lparr>aq_held := False\<rparr> = A"
      using swap by (cases A) simp
    ultimately show ?thesis
      using internal_refines [OF locked, unfolded same, of resize nb resized ins xs f sp]
        swap d(7) prep i
      by (simp add: Queue_lock_dequeuing_def res_def)
  qed
qed

lemma lock_and_dequeue_plain:
  assumes q: "queue_rep B rep q A"
  shows "\<exists>r q'. (case Queue_lock_dequeuing q of (Inl e, q') \<Rightarrow> Inr (Inl e, q')
      | (Inr d, q') \<Rightarrow> Queue_try_dequeue_internal B f sp q' d None) = Inr (r, q') \<and>
    queue_rep B rep q' (snd (spec_dequeue A)) \<and>
    dequeue_result_rep img view q' (snd (spec_dequeue A)) (fst (spec_dequeue A)) r"
proof -
  let ?b = "two_get (buffers q) (deq_index q)"
  have "run_resize None ?b = Inr (?b, False, 0) \<and> rep ?b (seg 0 []) \<and> unat (0 :: usize) = length [] \<and>
      unat (buf_capacity B ?b) < 4611686018427387903 \<and>
      (\<not> False \<longrightarrow> unat (buf_capacity B ?b) = aq_other A)"
    if "\<not> aq_held A" "aq_front A = []"
    using deq_repD [OF q] that by (simp add: run_resize_def)
  from lock_and_dequeue_refines [OF q this, of f sp] deq_repD(1) [OF q]
  show ?thesis
    by (simp add: spec_dequeue_resized_plain)
qed

lemma try_dequeue_refines:
  assumes "queue_rep B rep q A"
  shows "\<exists>r q'. Queue_try_dequeue B N sp q = Inr (r, q') \<and>
    queue_rep B rep q' (snd (spec_dequeue A)) \<and>
    dequeue_result_rep img view q' (snd (spec_dequeue A)) (fst (spec_dequeue A)) r"
  using lock_and_dequeue_plain [OF assms, of "notify_enqueue N" sp] by (simp add: Queue_try_dequeue_def)

end

section \<open>Releasing, requeuing and draining\<close>

context buffer_contract
begin

lemma slice_bounds:
  assumes q: "queue_rep B rep q A"
  defines "n \<equiv> two_get (buffers_length q) (deq_index q)"
  shows "unat (n - of_nat (length (aq_front A))) = unat n - length (aq_front A)"
    and "unat n = unat (n - of_nat (length (aq_front A))) + length (aq_front A)"
    and "n \<le> buf_capacity B (two_get (buffers q) (deq_index q))"
    and "n - (n - of_nat (length (aq_front A))) = of_nat (length (aq_front A))"
    and "n - of_nat (length (aq_front A)) \<le> n"
proof -
  note d = deq_repD [OF q, folded n_def]
  have "unat (of_nat (length (aq_front A)) :: usize) = length (aq_front A)"
    using d(2-4) by (simp add: usize_simps)
  with d(1,3,4) show "unat (n - of_nat (length (aq_front A))) = unat n - length (aq_front A)"
    and "n \<le> buf_capacity B (two_get (buffers q) (deq_index q))"
    by (simp_all add: unat_sub word_le_nat_alt)
  then show "unat n = unat (n - of_nat (length (aq_front A))) + length (aq_front A)"
    and "n - of_nat (length (aq_front A)) \<le> n"
    using d(3) by (simp_all add: word_le_nat_alt)
  show "n - (n - of_nat (length (aq_front A))) = of_nat (length (aq_front A))"
    by simp
qed

lemma release_refines:
  assumes q: "queue_rep B rep q A" and s: "slice_rep img view q A s"
  shows "\<exists>q'. Queue_release B q (slice_buffer_index s) (slice_range s) = Inr q' \<and>
    queue_rep B rep q' (spec_release A)"
proof -
  let ?i = "deq_index q"
  note d = deq_repD [OF q] and sb = slice_bounds [OF q]
  obtain b' where b': "buf_clear B (two_get (buffers q) ?i) (slice_range s) = Inr b'"
    "rep b' Map.empty" "buf_capacity B b' = buf_capacity B (two_get (buffers q) ?i)"
    using clear_seg [OF _ sb(2,3)] d(5) sb(1) s by (auto simp: slice_rep_def)
  let ?q = "q\<lparr>buffers := two_set (buffers q) ?i b',
    buffers_length := two_set (buffers_length q) ?i 0, dequeuing_length := DL_new ?i 0\<rparr>"
  have i: "enq_index ?q = enq_index q" "deq_index ?q = ?i"
    by (simp_all add: enq_index_def deq_index_def)
  have "enq_rep B rep ?q (spec_release A) = enq_rep B rep q A"
    by (rule enq_rep_cong) (simp_all add: spec_release_def)
  moreover have "deq_rep B rep ?q (spec_release A)"
    using d b' unfolding deq_rep_def i Let_def by (simp add: spec_release_def)
  ultimately show ?thesis
    using q b'(1) s by (simp add: Queue_release_def slice_rep_def queue_rep_def)
qed

lemma requeue_refines:
  assumes q: "queue_rep B rep q A" and s: "slice_rep img view q A s"
  shows "\<exists>q'. Queue_requeue B q (slice_buffer_index s) (slice_range s) = Inr q' \<and>
    queue_rep B rep q' (spec_requeue A)"
proof (cases "aq_front A = []")
  case True
  then have "spec_release A = spec_requeue A"
    by (cases A) (simp add: spec_release_def spec_requeue_def)
  with release_refines [OF q s] True s show ?thesis
    by (auto simp: Queue_requeue_def slice_rep_def)
next
  case False
  let ?q = "q\<lparr>dequeuing_length := DL_new (deq_index q) (of_nat (length (aq_front A)))\<rparr>"
  note d = deq_repD [OF q]
  have i: "enq_index ?q = enq_index q" "deq_index ?q = deq_index q"
    by (simp_all add: enq_index_def deq_index_def)
  have "enq_rep B rep ?q (spec_requeue A) = enq_rep B rep q A"
    by (rule enq_rep_cong) (simp_all add: spec_requeue_def)
  moreover have "deq_rep B rep ?q (spec_requeue A)"
    using d False unfolding deq_rep_def i Let_def by (simp add: spec_requeue_def)
  moreover have "0 < (of_nat (length (aq_front A)) :: usize)"
    using d(2-4) False by (simp add: word_less_nat_alt usize_simps)
  ultimately show ?thesis
    using q s slice_bounds(4,5) [OF q] by (simp add: Queue_requeue_def slice_rep_def queue_rep_def)
qed

end

context drain_contract
begin

lemma remove_refines:
  assumes q: "queue_rep B rep q A" and held: "aq_held A" and front: "aq_front A = x # xs"
  defines "n \<equiv> two_get (buffers_length q) (deq_index q)"
  shows "\<exists>q'. Queue_remove remove q (deq_index q) (n - of_nat (length (aq_front A))) = Inr (x, q') \<and>
    queue_rep B rep q' (spec_remove A) \<and> deq_index q' = deq_index q \<and>
    two_get (buffers_length q') (deq_index q') = n"
proof -
  let ?i = "deq_index q" and ?lo = "n - of_nat (length (aq_front A)) :: usize"
  note d = deq_repD [OF q, folded n_def]
  have lo: "unat ?lo = unat n - length (aq_front A)"
    using slice_bounds(1) [OF q] by (simp add: n_def)
  have "seg (unat ?lo) (aq_front A) (unat ?lo) = Some x"
    by (simp add: front seg_def)
  then obtain b' where b': "remove (two_get (buffers q) ?i) ?lo = Inr (x, b')"
    "rep b' ((seg (unat ?lo) (aq_front A))(unat ?lo := None))"
    "buf_capacity B b' = buf_capacity B (two_get (buffers q) ?i)"
    using remove_ok d(5) unfolding lo [symmetric] by blast
  let ?q = "q\<lparr>buffers := two_set (buffers q) ?i b'\<rparr>"
  have i: "enq_index ?q = enq_index q" "deq_index ?q = ?i"
    by (simp_all add: enq_index_def deq_index_def)
  have "enq_rep B rep ?q (spec_remove A) = enq_rep B rep q A"
    by (rule enq_rep_cong) (simp_all add: spec_remove_def)
  moreover have "Suc (unat ?lo) = unat n - length xs"
    using d(3) front lo by simp
  then have "rep b' (seg (unat n - length xs) xs)"
    using b'(2) seg_tl [of "aq_front A" "unat ?lo"] front by simp
  then have "deq_rep B rep ?q (spec_remove A)"
    using d b'(3) held front unfolding deq_rep_def i Let_def by (simp add: spec_remove_def n_def)
  ultimately show ?thesis
    using q b'(1) d(6) held i(2) by (simp add: Queue_remove_def queue_rep_def n_def)
qed

end

section \<open>Construction, closing and observers\<close>

context buffer_contract
begin

lemma queue_rep_initial:
  assumes "rep b0 Map.empty" "rep b1 Map.empty" "buf_capacity B b0 = c" "buf_capacity B b1 = c"
    "unat c < 4611686018427387903"
  shows "queue_rep B rep \<lparr>enqueuing_capacity = EC_pack 0 c, dequeuing_length = DL_new 1 0,
    buffers = (b0, b1), buffers_length = (0, 0), capacity = c, notify = n\<rparr> (spec_new (unat c))"
proof -
  have "EC_buffer_index (EC_pack 0 c) = 0" "EC_remaining_capacity (EC_pack 0 c) = c"
    "\<not> EC_is_closed (EC_pack 0 c)"
    using assms(5) by (simp_all add: EC_pack_fields)
  with assms show ?thesis
    by (simp add: queue_rep_def enq_rep_def deq_rep_def enq_index_def deq_index_def flip_def
        two_get_def Let_def spec_new_def)
qed

lemma new_refines:
  assumes "unat (buf_capacity B (buf_default B)) < 4611686018427387903"
  shows "\<exists>q. Queue_new B n = Inr q \<and> queue_rep B rep q (spec_new (unat (buf_capacity B (buf_default B))))"
proof -
  have "EC_check_overflow (buf_capacity B (buf_default B)) = Inr ()"
    using assms by (simp add: EC_check_overflow_iff)
  with queue_rep_initial [OF rep_default rep_default, of _ n] assms show ?thesis
    by (simp add: Queue_new_def two_get_def Let_def EC_new_ok)
qed

lemma close_refines:
  assumes "queue_rep B rep q A"
  shows "queue_rep B rep (Queue_close N q) (spec_close A)"
  using assms
  by (simp add: queue_rep_def enq_rep_def deq_rep_def enq_index_def deq_index_def Queue_close_def
      spec_close_def Let_def)

lemma reopen_refines:
  assumes "queue_rep B rep q A"
  shows "queue_rep B rep (Queue_reopen q) (spec_reopen A)"
  using assms
  by (simp add: queue_rep_def enq_rep_def deq_rep_def enq_index_def deq_index_def Queue_reopen_def
      spec_reopen_def Let_def)

lemma observers_refine:
  assumes "queue_rep B rep q A"
  shows "unat (Queue_len q) = length (aq_back A)" and "Queue_is_empty q \<longleftrightarrow> aq_back A = []"
    and "Queue_is_closed q = aq_closed A" and "unat (Queue_capacity q) = aq_capacity A"
proof -
  note e = enq_repD [OF assms]
  show len: "unat (Queue_len q) = length (aq_back A)"
    using e(3,5,6,8) by (simp add: Queue_len_def Queue_capacity_def saturating_sub_unat)
  show "Queue_is_empty q \<longleftrightarrow> aq_back A = []"
    using len by (auto simp: Queue_is_empty_def usize_eq_iff)
  show "Queue_is_closed q = aq_closed A" and "unat (Queue_capacity q) = aq_capacity A"
    using e(1,3,8) by (simp_all add: Queue_is_closed_def Queue_capacity_def)
qed

end

context resize_contract
begin

lemma with_capacity_refines:
  assumes "unat c < 4611686018427387903"
  shows "\<exists>q. Queue_with_capacity B resize n c = Inr q \<and> queue_rep B rep q (spec_new (unat c))"
proof -
  obtain b where "resize (buf_default B) c = Inr b" "rep b Map.empty" "buf_capacity B b = c"
    using resize_ok [of c "buf_default B"] assms by auto
  with queue_rep_initial [of b b c n] assms show ?thesis
    by (simp add: Queue_with_capacity_def EC_check_overflow_iff [THEN iffD2] EC_new_ok)
qed

end

section \<open>Dequeuing with a resize\<close>

locale resizable_queue = insert_contract B rep img view I honest content +
    resize_contract B rep img view resize
  for B :: "('b, 's) buffer_trait" and rep :: "'b \<Rightarrow> (nat \<rightharpoonup> 'c) \<Rightarrow> bool"
    and img :: "'c \<Rightarrow> 'd" and view :: "'s \<Rightarrow> 'd list" and I :: "('b, 'v) insert_trait"
    and honest :: "'v \<Rightarrow> bool" and content :: "'v \<Rightarrow> 'c list" and resize :: "'b resize_fn"
begin

lemma insert_values_ok:
  assumes "rep b (seg 0 xs)" and "unat len = length xs" and "\<forall>v \<in> set vs. honest v"
    and "length xs + length (concat (map content vs)) \<le> unat (buf_capacity B b)"
  shows "\<exists>b' len'. insert_values B I vs b len = Inr (b', len') \<and>
    rep b' (seg 0 (xs @ concat (map content vs))) \<and>
    unat len' = length xs + length (concat (map content vs)) \<and>
    buf_capacity B b' = buf_capacity B b"
  using assms
proof (induction vs arbitrary: b len xs)
  case Nil
  then show ?case by simp
next
  case (Cons v vs)
  have v: "honest v" and sz: "unat (ins_size I v) = length (content v)"
    using Cons.prems(3) by (simp_all add: size_content)
  show ?case
  proof (cases "content v = []")
    case True
    then show ?thesis
      using Cons.IH [OF Cons.prems(1,2)] Cons.prems(3,4) size_neq_0 [OF v] by simp
  next
    case False
    have fits: "unat len + length (content v) \<le> unat (buf_capacity B b)"
      using Cons.prems(2,4) by simp
    then have "\<not> ins_size I v > buf_capacity B b"
      by (simp add: word_less_nat_alt sz)
    moreover obtain b' where b': "ins_into I v b len = Inr b'"
      "rep b' (seg 0 xs ++ seg (unat len) (content v))" "buf_capacity B b' = buf_capacity B b"
      using insert_ok [OF Cons.prems(1) v False fits] by (auto simp: Cons.prems(2))
    moreover have "unat len + unat (ins_size I v) < 18446744073709551616"
      using fits unat_usize_less [of "buf_capacity B b"] by (simp add: sz)
    then have "add_usize len (ins_size I v) = Inr (len + ins_size I v)"
      "unat (len + ins_size I v) = length (xs @ content v)"
      using Cons.prems(2) by (simp_all add: add_usize_ok unat_add_usize sz)
    moreover have "rep b' (seg 0 (xs @ content v))"
      using b'(2) seg_append [of 0 xs] Cons.prems(2) by simp
    ultimately show ?thesis
      using Cons.IH [of b' "xs @ content v" "len + ins_size I v"] Cons.prems(3,4) False
        size_neq_0 [OF v] by (auto simp: sz)
  qed
qed

lemma resize_and_insert_ok:
  assumes b: "rep b Map.empty" "unat (buf_capacity B b) = old" "old < 4611686018427387903"
    and c: "case_option old unat c < 4611686018427387903"
    and vs: "\<forall>v \<in> set vs. honest v" "length (concat (map content vs)) \<le> case_option old unat c"
  shows "\<exists>nb ins. resize_and_insert B resize I c (Some vs) b =
      Inr (nb, case_option old unat c \<noteq> old, ins) \<and>
    rep nb (seg 0 (concat (map content vs))) \<and> unat ins = length (concat (map content vs)) \<and>
    unat (buf_capacity B nb) = case_option old unat c"
proof (cases "case_option old unat c = old")
  case True
  then have "c = None \<or> c = Some (buf_capacity B b)"
    using b(2) by (cases c) (simp_all add: usize_eq_iff)
  with insert_values_ok [of b "[]" 0 vs] b True vs show ?thesis
    by (auto simp: resize_and_insert_def)
next
  case False
  then obtain k where k: "c = Some k" "k \<noteq> buf_capacity B b"
    using b(2) by (cases c) auto
  obtain b1 where b1: "resize b k = Inr b1" "rep b1 Map.empty" "buf_capacity B b1 = k"
    using resize_ok [of k b] c k by auto
  have "EC_check_overflow k = Inr ()"
    using c k by (simp add: EC_check_overflow_iff)
  with insert_values_ok [of b1 "[]" 0 vs] b1 k vs False show ?thesis
    by (auto simp: resize_and_insert_def)
qed

lemma try_dequeue_and_resize_refines:
  assumes q: "queue_rep B rep q A"
    and c: "case_option (aq_other A) unat c < 4611686018427387903"
    and vs: "\<forall>v \<in> set vs. honest v"
      "length (concat (map content vs)) \<le> case_option (aq_other A) unat c"
  defines "res \<equiv> spec_dequeue_resized (case_option (aq_other A) unat c)
    (case_option (aq_other A) unat c \<noteq> aq_other A) (concat (map content vs)) A"
  shows "\<exists>r q'. Queue_try_dequeue_and_resize B N resize I sp q c (Some vs) = Inr (r, q') \<and>
    queue_rep B rep q' (snd res) \<and> dequeue_result_rep img view q' (snd res) (fst res) r"
proof (cases "\<not> aq_held A \<and> aq_front A = []")
  case True
  note d = deq_repD [OF q]
  obtain nb ins where nb: "resize_and_insert B resize I c (Some vs) (two_get (buffers q) (deq_index q)) =
      Inr (nb, case_option (aq_other A) unat c \<noteq> aq_other A, ins)"
    "rep nb (seg 0 (concat (map content vs)))" "unat ins = length (concat (map content vs))"
    "unat (buf_capacity B nb) = case_option (aq_other A) unat c"
    using resize_and_insert_ok [OF _ d(1,2) c vs] d(5,7) True by auto
  with lock_and_dequeue_refines [OF q, of "Some (resize_and_insert B resize I c (Some vs))" nb
      "case_option (aq_other A) unat c \<noteq> aq_other A" ins "concat (map content vs)"
      "notify_enqueue N" sp] c
  show ?thesis
    by (simp add: run_resize_def Queue_try_dequeue_and_resize_def res_def)
next
  case False
  have "spec_dequeue_resized (unat (buf_capacity B (buf_default B))) True [] A = res"
    using False by (auto simp: spec_dequeue_resized_def res_def)
  with lock_and_dequeue_refines [OF q, of "Some (resize_and_insert B resize I c (Some vs))"
      "buf_default B" True 0 "[]" "notify_enqueue N" sp] False
  show ?thesis
    by (auto simp: Queue_try_dequeue_and_resize_def)
qed

end

section \<open>Dropping the queue\<close>

context buffer_contract
begin

lemma drop_refines:
  assumes q: "queue_rep B rep q A"
  shows "\<exists>q'. Queue_drop B sp q = Inr q' \<and> queue_rep B rep q' (spec_drop A)"
proof -
  obtain r q' where deq: "(case Queue_lock_dequeuing q of (Inl e, q') \<Rightarrow> Inr (Inl e, q')
      | (Inr d, q') \<Rightarrow> Queue_try_dequeue_internal B (\<lambda>n. n) sp q' d None) = Inr (r, q')"
    and q': "queue_rep B rep q' (snd (spec_dequeue A))"
    and r: "dequeue_result_rep img view q' (snd (spec_dequeue A)) (fst (spec_dequeue A)) r"
    using lock_and_dequeue_plain [OF q, of "\<lambda>n. n" sp] by blast
  have drop: "Queue_drop B sp q =
      (case r of Inl _ \<Rightarrow> Inr q' | Inr s \<Rightarrow> Queue_release B q' (slice_buffer_index s) (slice_range s))"
    using deq by (auto simp: Queue_drop_def split: prod.splits sum.splits)
  show ?thesis
  proof (cases "fst (spec_dequeue A)")
    case (Inl e)
    with drop q' r show ?thesis
      by (simp add: dequeue_result_rep_def spec_drop_def case_prod_unfold)
  next
    case (Inr xs)
    with r obtain s where "r = Inr s" "slice_rep img view q' (snd (spec_dequeue A)) s"
      by (auto simp: dequeue_result_rep_def)
    with drop release_refines [OF q'] Inr show ?thesis
      by (simp add: spec_drop_def case_prod_unfold)
  qed
qed

end

end
