(* ===== verification/Buffer_Slices.thy ===== *)
theory Buffer_Slices
  imports Queue_Refinement
begin

text \<open>
  \<open>BufferSlice\<close> and \<open>OwnedBufferIter\<close> of \<open>src/src/buffer.rs\<close>: the handles on a dequeued
  buffer. Both keep the queue locked; dropping a slice releases the buffer, dropping an iterator
  requeues what it has not yielded. The reference to the queue is the queue state the operations
  take; \<open>with_owned\<close> compares the addresses of the two queues, which are its extra arguments.

  \<open>take_items\<close> is a client that asks the iterator for its next \<open>n\<close> items. The lemmas show
  that it gets the front of the queue in order, whatever remains is still queued when the iterator is
  dropped, and an iterator turned back into a slice shows exactly what it has not yielded.
\<close>

section \<open>Operations\<close>

definition BufferSlice_new :: "usize \<Rightarrow> range \<Rightarrow> 's \<Rightarrow> 's buffer_slice" where
  "BufferSlice_new i r s = \<lparr>slice_buffer_index = i, slice_range = r, slice_slice = s\<rparr>"

definition BufferSlice_requeue ::
    "('b, 's) buffer_trait \<Rightarrow> ('b, 'n) queue \<Rightarrow> 's buffer_slice \<Rightarrow> ('b, 'n) queue exec" where
  "BufferSlice_requeue B q s = Queue_requeue B q (slice_buffer_index s) (slice_range s)"

definition BufferSlice_deref :: "'s buffer_slice \<Rightarrow> 's" where
  "BufferSlice_deref s = slice_slice s"

definition BufferSlice_drop ::
    "('b, 's) buffer_trait \<Rightarrow> ('b, 'n) queue \<Rightarrow> 's buffer_slice \<Rightarrow> ('b, 'n) queue exec" where
  "BufferSlice_drop B q s = Queue_release B q (slice_buffer_index s) (slice_range s)"

record buffer_iter =
  iter_buffer_index :: usize
  iter_range :: range

definition BufferSlice_into_iter :: "'s buffer_slice \<Rightarrow> buffer_iter" where
  "BufferSlice_into_iter s = \<lparr>iter_buffer_index = slice_buffer_index s, iter_range = slice_range s\<rparr>"

definition BufferIter_into_slice ::
    "('b, 's) buffer_trait \<Rightarrow> ('b, 'n) queue \<Rightarrow> buffer_iter \<Rightarrow> 's buffer_slice exec" where
  "BufferIter_into_slice B q it =
     and_then (Queue_get_slice B q (iter_buffer_index it) (iter_range it)) (\<lambda>s.
     Inr \<lparr>slice_buffer_index = iter_buffer_index it, slice_range = iter_range it, slice_slice = s\<rparr>)"

definition BufferIter_with_owned :: "nat \<Rightarrow> nat \<Rightarrow> buffer_iter \<Rightarrow> buffer_iter exec" where
  "BufferIter_with_owned iter_queue owner it =
     and_then (guard Assertion_Failed (iter_queue = owner)) (\<lambda>_.
     Inr \<lparr>iter_buffer_index = iter_buffer_index it, iter_range = iter_range it\<rparr>)"

definition BufferIter_drop ::
    "('b, 's) buffer_trait \<Rightarrow> ('b, 'n) queue \<Rightarrow> buffer_iter \<Rightarrow> ('b, 'n) queue exec" where
  "BufferIter_drop B q it = Queue_requeue B q (iter_buffer_index it) (iter_range it)"

definition BufferIter_next ::
    "('b, 'a) drain_remove \<Rightarrow> ('b, 'n) queue \<Rightarrow> buffer_iter \<Rightarrow>
     ('a option \<times> ('b, 'n) queue \<times> buffer_iter) exec" where
  "BufferIter_next remove q it =
     (if \<not> fst (iter_range it) < snd (iter_range it) then Inr (None, q, it)
      else and_then (Queue_remove remove q (iter_buffer_index it) (fst (iter_range it))) (\<lambda>(x, q').
           and_then (add_usize (fst (iter_range it)) 1) (\<lambda>start.
           Inr (Some x, q', it\<lparr>iter_range := (start, snd (iter_range it))\<rparr>))))"

definition BufferIter_size_hint :: "buffer_iter \<Rightarrow> nat \<times> nat option" where
  "BufferIter_size_hint it =
     (let n = unat (snd (iter_range it)) - unat (fst (iter_range it)) in (n, Some n))"

fun take_items ::
    "('b, 'a) drain_remove \<Rightarrow> nat \<Rightarrow> ('b, 'n) queue \<Rightarrow> buffer_iter \<Rightarrow>
     ('a list \<times> ('b, 'n) queue \<times> buffer_iter) exec" where
  "take_items remove 0 q it = Inr ([], q, it)"
| "take_items remove (Suc n) q it =
     and_then (BufferIter_next remove q it) (\<lambda>(r, q', it').
     case r of None \<Rightarrow> Inr ([], q', it')
     | Some x \<Rightarrow> and_then (take_items remove n q' it') (\<lambda>(xs, q'', it''). Inr (x # xs, q'', it'')))"

definition iter_rep :: "('b, 'n) queue \<Rightarrow> 'c aqueue \<Rightarrow> buffer_iter \<Rightarrow> bool" where
  "iter_rep q A it \<longleftrightarrow>
     aq_held A \<and> iter_buffer_index it = deq_index q \<and>
     two_get (buffers_length q) (deq_index q) \<noteq> 0 \<and>
     iter_range it = (two_get (buffers_length q) (deq_index q) - of_nat (length (aq_front A)),
                      two_get (buffers_length q) (deq_index q))"

section \<open>Handles\<close>

lemma into_iter_rep: "slice_rep img view q A s \<Longrightarrow> iter_rep q A (BufferSlice_into_iter s)"
  by (simp add: slice_rep_def iter_rep_def BufferSlice_into_iter_def)

lemma with_owned_same: "BufferIter_with_owned k k it = Inr it"
  by (cases it) (simp add: BufferIter_with_owned_def)

lemma with_owned_other: "k \<noteq> k' \<Longrightarrow> BufferIter_with_owned k k' it = Inl Assertion_Failed"
  by (simp add: BufferIter_with_owned_def)

context buffer_contract
begin

lemma size_hint_front:
  assumes q: "queue_rep B rep q A" and it: "iter_rep q A it"
  shows "BufferIter_size_hint it = (length (aq_front A), Some (length (aq_front A)))"
  using slice_bounds(2) [OF q] it by (simp add: BufferIter_size_hint_def iter_rep_def Let_def)

end

section \<open>Draining\<close>

context drain_contract
begin

lemma into_slice_refines:
  assumes q: "queue_rep B rep q A" and it: "iter_rep q A it"
  shows "\<exists>s. BufferIter_into_slice B q it = Inr s \<and> slice_rep img view q A s"
proof -
  note d = deq_repD [OF q] and sb = slice_bounds [OF q]
  obtain s where "buf_slice B (two_get (buffers q) (deq_index q)) (iter_range it) = Inr s"
    "view s = map img (aq_front A)"
    using slice_seg_all [OF _ sb(2,3)] d(5) sb(1) it by (auto simp: iter_rep_def)
  with it show ?thesis
    by (simp add: BufferIter_into_slice_def Queue_get_slice_def slice_rep_def iter_rep_def)
qed

lemma iter_drop_refines:
  assumes q: "queue_rep B rep q A" and it: "iter_rep q A it"
  shows "\<exists>q'. BufferIter_drop B q it = Inr q' \<and> queue_rep B rep q' (spec_requeue A)"
proof -
  obtain s where "slice_rep img view q A s"
    using into_slice_refines [OF q it] by blast
  with requeue_refines [OF q this] it show ?thesis
    by (simp add: BufferIter_drop_def slice_rep_def iter_rep_def)
qed

lemma next_empty:
  assumes "iter_rep q A it" and "aq_front A = []"
  shows "BufferIter_next remove q it = Inr (None, q, it)"
  using assms by (simp add: BufferIter_next_def iter_rep_def)

lemma next_refines:
  assumes q: "queue_rep B rep q A" and it: "iter_rep q A it" and front: "aq_front A = x # xs"
  shows "\<exists>q' it'. BufferIter_next remove q it = Inr (Some x, q', it') \<and>
    queue_rep B rep q' (spec_remove A) \<and> iter_rep q' (spec_remove A) it'"
proof -
  let ?n = "two_get (buffers_length q) (deq_index q)"
  let ?lo = "?n - of_nat (length (aq_front A)) :: usize"
  note sb = slice_bounds [OF q]
  obtain q' where q': "Queue_remove remove q (deq_index q) ?lo = Inr (x, q')"
    "queue_rep B rep q' (spec_remove A)" "deq_index q' = deq_index q"
    "two_get (buffers_length q') (deq_index q') = ?n"
    using remove_refines [OF q _ front] it by (auto simp: iter_rep_def)
  have lt: "?lo < ?n"
    using sb(2) front by (simp add: word_less_nat_alt)
  have "add_usize ?lo 1 = Inr (?lo + 1)"
    using sb(2) front unat_usize_less [of ?n] by (intro add_usize_ok) simp
  moreover have "?lo + 1 = ?n - of_nat (length xs)"
    using front by simp
  ultimately show ?thesis
    using it q' lt front by (simp add: BufferIter_next_def iter_rep_def spec_remove_def)
qed

lemma take_items_refines:
  assumes "queue_rep B rep q A" and "iter_rep q A it"
  shows "\<exists>q' it'. take_items remove k q it = Inr (take k (aq_front A), q', it') \<and>
    queue_rep B rep q' (A\<lparr>aq_front := drop k (aq_front A)\<rparr>) \<and>
    iter_rep q' (A\<lparr>aq_front := drop k (aq_front A)\<rparr>) it'"
  using assms
proof (induction k arbitrary: q A it)
  case 0
  then show ?case by simp
next
  case (Suc k)
  show ?case
  proof (cases "aq_front A")
    case Nil
    then have same: "A\<lparr>aq_front := drop (Suc k) (aq_front A)\<rparr> = A"
      by (cases A) simp
    show ?thesis
      unfolding same using Nil next_empty [OF Suc.prems(2)] Suc.prems by simp
  next
    case (Cons x xs)
    obtain q' it' where next_it: "BufferIter_next remove q it = Inr (Some x, q', it')"
      "queue_rep B rep q' (spec_remove A)" "iter_rep q' (spec_remove A) it'"
      using next_refines [OF Suc.prems Cons] by blast
    with Suc.IH [OF next_it(2,3)] Cons show ?thesis
      by (auto simp: spec_remove_def)
  qed
qed

end

end
