(* ===== verification/Cell_Buffers.thy ===== *)
theory Cell_Buffers
  imports Buffer_Slices
begin

text \<open>
  \<open>ArrayBuffer\<close> and \<open>VecBuffer\<close> (\<open>src/src/buffer/array.rs\<close>,
  \<open>src/src/buffer/vec.rs\<close>). A \<open>Cell<MaybeUninit<T>>\<close> is an \<open>'a option\<close>, with
  \<open>None\<close> for uninitialised memory; reading it as a \<open>T\<close> is the fault \<open>Uninit_Read\<close>.
  The two buffers differ in \<open>remove\<close>: the array writes \<open>uninit\<close> back, the vector leaves the
  moved-out value in place.

  The interpretations at the end discharge the contracts of \<open>Buffer_Traits\<close> for both.
\<close>

type_synonym 'a cells = "'a option list"

section \<open>Shared cell operations\<close>

definition init_array :: "'a \<Rightarrow> usize \<Rightarrow> 'a list" where
  "init_array x n = replicate (unat n) x"

definition cells_index :: "'a list \<Rightarrow> usize \<Rightarrow> 'a exec" where
  "cells_index xs i = (if unat i < length xs then Inr (xs ! unat i) else Inl Index_Out_Of_Bounds)"

definition cells_range :: "'a list \<Rightarrow> usize \<Rightarrow> usize \<Rightarrow> 'a list exec" where
  "cells_range xs lo hi =
     (if lo \<le> hi \<and> unat hi \<le> length xs
      then Inr (take (unat hi - unat lo) (drop (unat lo) xs)) else Inl Index_Out_Of_Bounds)"

definition assume_init :: "'a option \<Rightarrow> 'a exec" where
  "assume_init c = (case c of None \<Rightarrow> Inl Uninit_Read | Some x \<Rightarrow> Inr x)"

definition assume_init_slice :: "'a cells \<Rightarrow> 'a list exec" where
  "assume_init_slice xs = (if None \<in> set xs then Inl Uninit_Read else Inr (map the xs))"

section \<open>\<open>ArrayBuffer\<close>\<close>

definition ArrayBuffer_default :: "usize \<Rightarrow> 'a cells" where
  "ArrayBuffer_default n = init_array None n"

definition ArrayBuffer_capacity :: "'a cells \<Rightarrow> usize" where
  "ArrayBuffer_capacity b = of_nat (length b)"

definition ArrayBuffer_slice :: "'a cells \<Rightarrow> range \<Rightarrow> 'a list exec" where
  "ArrayBuffer_slice b r = and_then (cells_range b (fst r) (snd r)) assume_init_slice"

definition ArrayBuffer_insert :: "'a cells \<Rightarrow> usize \<Rightarrow> 'a \<Rightarrow> 'a cells exec" where
  "ArrayBuffer_insert b i x = and_then (cells_index b i) (\<lambda>_. Inr (b[unat i := Some x]))"

definition ArrayBuffer_remove :: "'a cells \<Rightarrow> usize \<Rightarrow> ('a \<times> 'a cells) exec" where
  "ArrayBuffer_remove b i =
     and_then (cells_index b i) (\<lambda>c. and_then (assume_init c) (\<lambda>x. Inr (x, b[unat i := None])))"

definition ArrayBuffer_clear :: "'a cells \<Rightarrow> range \<Rightarrow> 'a cells exec" where
  "ArrayBuffer_clear b r = clear_range ArrayBuffer_remove b r"

definition ArrayBuffer :: "usize \<Rightarrow> ('a cells, 'a list) buffer_trait" where
  "ArrayBuffer n = \<lparr>buf_default = ArrayBuffer_default n, buf_capacity = ArrayBuffer_capacity,
     buf_slice = ArrayBuffer_slice, buf_clear = ArrayBuffer_clear\<rparr>"

section \<open>\<open>VecBuffer\<close>\<close>

definition VecBuffer_default :: "'a cells" where
  "VecBuffer_default = []"

definition VecBuffer_capacity :: "'a cells \<Rightarrow> usize" where
  "VecBuffer_capacity b = of_nat (length b)"

definition VecBuffer_slice :: "'a cells \<Rightarrow> range \<Rightarrow> 'a list exec" where
  "VecBuffer_slice b r = and_then (cells_range b (fst r) (snd r)) assume_init_slice"

definition VecBuffer_insert :: "'a cells \<Rightarrow> usize \<Rightarrow> 'a \<Rightarrow> 'a cells exec" where
  "VecBuffer_insert b i x = and_then (cells_index b i) (\<lambda>_. Inr (b[unat i := Some x]))"

definition VecBuffer_resize :: "'a cells \<Rightarrow> usize \<Rightarrow> 'a cells exec" where
  "VecBuffer_resize b c = Inr (map (\<lambda>_. None) [0..<unat c])"

definition VecBuffer_remove :: "'a cells \<Rightarrow> usize \<Rightarrow> ('a \<times> 'a cells) exec" where
  "VecBuffer_remove b i =
     and_then (cells_index b i) (\<lambda>c. and_then (assume_init c) (\<lambda>x. Inr (x, b)))"

definition VecBuffer_clear :: "'a cells \<Rightarrow> range \<Rightarrow> 'a cells exec" where
  "VecBuffer_clear b r = clear_range VecBuffer_remove b r"

definition VecBuffer :: "('a cells, 'a list) buffer_trait" where
  "VecBuffer = \<lparr>buf_default = VecBuffer_default, buf_capacity = VecBuffer_capacity,
     buf_slice = VecBuffer_slice, buf_clear = VecBuffer_clear\<rparr>"

section \<open>The inserted cells of a buffer\<close>

definition cells_rep :: "'a cells \<Rightarrow> (nat \<rightharpoonup> 'a) \<Rightarrow> bool" where
  "cells_rep b m \<longleftrightarrow> length b < 18446744073709551616 \<and>
     (\<forall>k x. m k = Some x \<longrightarrow> k < length b \<and> b ! k = Some x)"

lemma cells_repD:
  "cells_rep b m \<Longrightarrow> m k = Some x \<Longrightarrow> k < length b \<and> b ! k = Some x"
  by (simp add: cells_rep_def)

lemma cells_rep_length: "cells_rep b m \<Longrightarrow> unat (of_nat (length b) :: usize) = length b"
  by (simp add: cells_rep_def usize_simps)

lemma cells_rep_dom: "cells_rep b m \<Longrightarrow> dom m \<subseteq> {..<length b}"
  by (auto simp: cells_rep_def)

lemma cells_rep_empty: "length b < 18446744073709551616 \<Longrightarrow> cells_rep b Map.empty"
  by (simp add: cells_rep_def)

lemma cells_rep_mono: "cells_rep b m \<Longrightarrow> m' \<subseteq>\<^sub>m m \<Longrightarrow> cells_rep b m'"
  by (force simp: cells_rep_def map_le_def dom_def)

lemma cells_rep_update: "cells_rep b m \<Longrightarrow> k < length b \<Longrightarrow> cells_rep (b[k := Some x]) (m(k \<mapsto> x))"
  by (auto simp: cells_rep_def nth_list_update)

lemma cells_rep_remove:
  "cells_rep b m \<Longrightarrow> cells_rep b (m(k := None)) \<and> cells_rep (b[k := y]) (m(k := None))"
  by (auto simp: cells_rep_def nth_list_update)

lemma cells_range_ok:
  assumes "cells_rep b m" and "lo \<le> hi" and "unat hi \<le> length b"
    and "{unat lo..<unat hi} \<subseteq> dom m"
  shows "and_then (cells_range b lo hi) assume_init_slice =
    Inr (map (\<lambda>k. the (m k)) [unat lo..<unat hi])"
proof -
  let ?xs = "take (unat hi - unat lo) (drop (unat lo) b)"
  have lohi: "unat lo \<le> unat hi"
    using assms(2) by (simp add: word_le_nat_alt)
  have nth: "b ! k = Some (the (m k))" if "unat lo \<le> k" "k < unat hi" for k
  proof -
    have "k \<in> dom m"
      using assms(4) that by (meson atLeastLessThan_iff subsetD)
    then show ?thesis
      using cells_repD [OF assms(1)] by auto
  qed
  have xs: "?xs = map (\<lambda>k. Some (the (m k))) [unat lo..<unat hi]"
    using assms(3) lohi by (intro nth_equalityI) (auto simp: nth)
  then have "None \<notin> set ?xs"
    by auto
  with xs show ?thesis
    using assms(2,3) by (simp add: cells_range_def assume_init_slice_def o_def)
qed

lemma cells_index_ok: "m (unat i) = Some x \<Longrightarrow> cells_rep b m \<Longrightarrow> cells_index b i = Inr (Some x)"
  by (auto simp: cells_index_def dest: cells_repD)

lemma ArrayBuffer_remove_ok:
  assumes "cells_rep b m \<and> length b = n" and "m (unat i) = Some x"
  shows "\<exists>b'. ArrayBuffer_remove b i = Inr (x, b') \<and> cells_rep b' (m(unat i := None)) \<and>
              length b' = n"
  using assms by (auto simp: ArrayBuffer_remove_def cells_index_ok assume_init_def cells_rep_remove)

lemma VecBuffer_remove_ok:
  assumes "cells_rep b m \<and> length b = n" and "m (unat i) = Some x"
  shows "\<exists>b'. VecBuffer_remove b i = Inr (x, b') \<and> cells_rep b' (m(unat i := None)) \<and>
              length b' = n"
  using assms by (auto simp: VecBuffer_remove_def cells_index_ok assume_init_def cells_rep_remove)

text \<open>Clearing a range of inserted cells, for any removal with the law above.\<close>

lemma cells_clear_ok:
  assumes remove: "\<And>b m i x. cells_rep b m \<and> length b = n \<Longrightarrow> m (unat i) = Some x \<Longrightarrow>
      \<exists>b'. remove b i = Inr (x, b') \<and> cells_rep b' (m(unat i := None)) \<and> length b' = n"
    and "cells_rep b m" and "length b = n" and "lo \<le> hi" and "{unat lo..<unat hi} \<subseteq> dom m"
  shows "\<exists>b'. clear_range remove b (lo, hi) = Inr b' \<and>
              cells_rep b' (m |` (- {unat lo..<unat hi})) \<and> length b' = n"
proof -
  have lohi: "unat lo + (unat hi - unat lo) = unat hi"
    using assms(4) by (simp add: word_le_nat_alt)
  then show ?thesis
    using clear_loop_ok [where R = "\<lambda>b m. cells_rep b m \<and> length b = n" and remove = remove and
        b = b and m = m and i = lo and n = "unat hi - unat lo"]
      assms unat_usize_less [of hi] by (simp add: clear_range_def)
qed

section \<open>The contracts hold\<close>

lemma cells_capacity_le: "cells_rep b m \<Longrightarrow> hi \<le> (of_nat (length b) :: usize) \<longleftrightarrow> unat hi \<le> length b"
  by (simp add: word_le_nat_alt cells_rep_length)

lemma cells_capacity_less: "cells_rep b m \<Longrightarrow> i < (of_nat (length b) :: usize) \<longleftrightarrow> unat i < length b"
  by (simp add: word_less_nat_alt cells_rep_length)

lemma ArrayBuffer_contract: "buffer_contract (ArrayBuffer n) cells_rep (\<lambda>x. x) (\<lambda>xs. xs)"
proof
  show "cells_rep (buf_default (ArrayBuffer n)) Map.empty"
    using unat_usize_less [of n]
    by (simp add: ArrayBuffer_def ArrayBuffer_default_def init_array_def cells_rep_empty)
next
  fix b :: "'a cells" and m
  assume "cells_rep b m"
  then show "dom m \<subseteq> {..<unat (buf_capacity (ArrayBuffer n) b)}"
    by (simp add: ArrayBuffer_def ArrayBuffer_capacity_def cells_rep_length cells_rep_dom)
next
  fix b :: "'a cells" and m and lo hi :: usize
  assume "cells_rep b m" "lo < hi" "hi \<le> buf_capacity (ArrayBuffer n) b"
    "{unat lo..<unat hi} \<subseteq> dom m"
  then show "\<exists>s. buf_slice (ArrayBuffer n) b (lo, hi) = Inr s \<and>
      s = map (\<lambda>k. the (m k)) [unat lo..<unat hi]"
    by (simp add: ArrayBuffer_def ArrayBuffer_slice_def ArrayBuffer_capacity_def
        cells_range_ok cells_capacity_le)
next
  fix b :: "'a cells" and m and lo hi :: usize
  assume "cells_rep b m" "lo \<le> hi" "{unat lo..<unat hi} \<subseteq> dom m"
  then have "\<exists>b'. ArrayBuffer_clear b (lo, hi) = Inr b' \<and>
      cells_rep b' (m |` (- {unat lo..<unat hi})) \<and> length b' = length b"
    unfolding ArrayBuffer_clear_def by (intro cells_clear_ok ArrayBuffer_remove_ok) auto
  then show "\<exists>b'. buf_clear (ArrayBuffer n) b (lo, hi) = Inr b' \<and>
      cells_rep b' (m |` (- {unat lo..<unat hi})) \<and>
      buf_capacity (ArrayBuffer n) b' = buf_capacity (ArrayBuffer n) b"
    by (auto simp: ArrayBuffer_def ArrayBuffer_capacity_def)
qed

lemma ArrayBuffer_default_capacity: "buf_capacity (ArrayBuffer n) (buf_default (ArrayBuffer n)) = n"
  by (simp add: ArrayBuffer_def ArrayBuffer_capacity_def ArrayBuffer_default_def init_array_def)

lemma VecBuffer_contract: "buffer_contract VecBuffer cells_rep (\<lambda>x. x) (\<lambda>xs. xs)"
proof
  show "cells_rep (buf_default VecBuffer) Map.empty"
    by (simp add: VecBuffer_def VecBuffer_default_def cells_rep_empty)
next
  fix b :: "'a cells" and m
  assume "cells_rep b m"
  then show "dom m \<subseteq> {..<unat (buf_capacity VecBuffer b)}"
    by (simp add: VecBuffer_def VecBuffer_capacity_def cells_rep_length cells_rep_dom)
next
  fix b :: "'a cells" and m and lo hi :: usize
  assume "cells_rep b m" "lo < hi" "hi \<le> buf_capacity VecBuffer b" "{unat lo..<unat hi} \<subseteq> dom m"
  then show "\<exists>s. buf_slice VecBuffer b (lo, hi) = Inr s \<and>
      s = map (\<lambda>k. the (m k)) [unat lo..<unat hi]"
    by (simp add: VecBuffer_def VecBuffer_slice_def VecBuffer_capacity_def
        cells_range_ok cells_capacity_le)
next
  fix b :: "'a cells" and m and lo hi :: usize
  assume "cells_rep b m" "lo \<le> hi" "{unat lo..<unat hi} \<subseteq> dom m"
  then have "\<exists>b'. VecBuffer_clear b (lo, hi) = Inr b' \<and>
      cells_rep b' (m |` (- {unat lo..<unat hi})) \<and> length b' = length b"
    unfolding VecBuffer_clear_def by (intro cells_clear_ok VecBuffer_remove_ok) auto
  then show "\<exists>b'. buf_clear VecBuffer b (lo, hi) = Inr b' \<and>
      cells_rep b' (m |` (- {unat lo..<unat hi})) \<and>
      buf_capacity VecBuffer b' = buf_capacity VecBuffer b"
    by (auto simp: VecBuffer_def VecBuffer_capacity_def)
qed

interpretation array_buf: cell_contract "ArrayBuffer n" cells_rep "\<lambda>x. x" "\<lambda>xs. xs" ArrayBuffer_insert
  for n
proof (intro cell_contract.intro ArrayBuffer_contract cell_contract_axioms.intro)
  fix b :: "'a cells" and m x and i :: usize
  assume "cells_rep b m" "i < buf_capacity (ArrayBuffer n) b"
  then show "\<exists>b'. ArrayBuffer_insert b i x = Inr b' \<and> cells_rep b' (m(unat i \<mapsto> x)) \<and>
      buf_capacity (ArrayBuffer n) b' = buf_capacity (ArrayBuffer n) b"
    by (simp add: ArrayBuffer_def ArrayBuffer_insert_def ArrayBuffer_capacity_def cells_index_def
        cells_capacity_less cells_rep_update)
qed

interpretation vec_buf: cell_contract VecBuffer cells_rep "\<lambda>x. x" "\<lambda>xs. xs" VecBuffer_insert
proof (intro cell_contract.intro VecBuffer_contract cell_contract_axioms.intro)
  fix b :: "'a cells" and m x and i :: usize
  assume "cells_rep b m" "i < buf_capacity VecBuffer b"
  then show "\<exists>b'. VecBuffer_insert b i x = Inr b' \<and> cells_rep b' (m(unat i \<mapsto> x)) \<and>
      buf_capacity VecBuffer b' = buf_capacity VecBuffer b"
    by (simp add: VecBuffer_def VecBuffer_insert_def VecBuffer_capacity_def cells_index_def
        cells_capacity_less cells_rep_update)
qed

interpretation array_buf: drain_contract "ArrayBuffer n" cells_rep "\<lambda>x. x" "\<lambda>xs. xs" ArrayBuffer_remove
  for n
proof
  fix b :: "'a cells" and m x and i :: usize
  assume "cells_rep b m" "m (unat i) = Some x"
  then show "\<exists>b'. ArrayBuffer_remove b i = Inr (x, b') \<and> cells_rep b' (m(unat i := None)) \<and>
      buf_capacity (ArrayBuffer n) b' = buf_capacity (ArrayBuffer n) b"
    using ArrayBuffer_remove_ok [of b m "length b" i x]
    by (auto simp: ArrayBuffer_def ArrayBuffer_capacity_def)
next
  fix b :: "'a cells" and m and hi :: usize
  assume "cells_rep b m" "hi \<noteq> 0" "hi \<le> buf_capacity (ArrayBuffer n) b"
  then show "\<exists>s. buf_slice (ArrayBuffer n) b (hi, hi) = Inr s \<and> s = []"
    using cells_range_ok [of b m hi hi]
    by (simp add: ArrayBuffer_def ArrayBuffer_slice_def ArrayBuffer_capacity_def cells_capacity_le)
qed

interpretation vec_buf: drain_contract VecBuffer cells_rep "\<lambda>x. x" "\<lambda>xs. xs" VecBuffer_remove
proof
  fix b :: "'a cells" and m x and i :: usize
  assume "cells_rep b m" "m (unat i) = Some x"
  then show "\<exists>b'. VecBuffer_remove b i = Inr (x, b') \<and> cells_rep b' (m(unat i := None)) \<and>
      buf_capacity VecBuffer b' = buf_capacity VecBuffer b"
    using VecBuffer_remove_ok [of b m "length b" i x]
    by (auto simp: VecBuffer_def VecBuffer_capacity_def)
next
  fix b :: "'a cells" and m and hi :: usize
  assume "cells_rep b m" "hi \<noteq> 0" "hi \<le> buf_capacity VecBuffer b"
  then show "\<exists>s. buf_slice VecBuffer b (hi, hi) = Inr s \<and> s = []"
    using cells_range_ok [of b m hi hi]
    by (simp add: VecBuffer_def VecBuffer_slice_def VecBuffer_capacity_def cells_capacity_le)
qed

interpretation vec_buf: resize_contract VecBuffer cells_rep "\<lambda>x. x" "\<lambda>xs. xs" VecBuffer_resize
proof
  fix b :: "'a cells" and c :: usize
  show "\<exists>b'. VecBuffer_resize b c = Inr b' \<and> cells_rep b' Map.empty \<and> buf_capacity VecBuffer b' = c"
    using unat_usize_less [of c]
    by (simp add: VecBuffer_resize_def VecBuffer_def VecBuffer_capacity_def cells_rep_empty)
qed

end
