(* ===== verification/Queue_Buffers.thy ===== *)
theory Queue_Buffers
  imports Cell_Buffers
begin

text \<open>
  The queue over the crate's cell buffers: the contract of \<open>Queue_Refinement\<close> holds for
  \<open>VecBuffer\<close> with arrays and with iterators, so every lemma proved in that locale is available
  for it under the prefixes \<open>vec_queue\<close> and \<open>vec_iter_queue\<close>. \<open>ArrayBuffer\<close> cannot be
  resized; its lemmas are those of \<open>array_buf\<close> (\<open>Cell_Buffers\<close>).

  \<open>BufferSlice_deref_mut\<close> is what a client does with the mutable slice of a cell buffer.
  \<open>enqueue_all\<close> is a client that enqueues several values; what it enqueues is what a dequeue shows.
  A small queue with two values already enqueued serves as the running example of the witnesses.
\<close>

interpretation vec_queue: resizable_queue VecBuffer cells_rep "\<lambda>x. x" "\<lambda>xs. xs"
  "array_insert VecBuffer_insert" "\<lambda>xs. length xs < 18446744073709551616" "\<lambda>xs. xs" VecBuffer_resize
  ..

interpretation vec_iter_queue: resizable_queue VecBuffer cells_rep "\<lambda>x. x" "\<lambda>xs. xs"
  "value_iter_insert VecBuffer_insert" exact_iter iter_items VecBuffer_resize
  ..

context cell_contract
begin

lemma array_contract:
  "insert_contract B rep img view (array_insert cell_insert) (\<lambda>xs. length xs < 18446744073709551616) (\<lambda>xs. xs)"
  by unfold_locales

end

section \<open>Writing through a slice\<close>

text \<open>
  The slice of a cell buffer borrows the cells of its range: a client that changes the values of the slice, through
  \<open>deref_mut\<close>, changes the buffer. The change is a function \<open>f\<close> on the values, which cannot change
  their number.
\<close>

definition cells_overwrite :: "'a cells \<Rightarrow> range \<Rightarrow> 'a list \<Rightarrow> 'a cells" where
  "cells_overwrite b r xs = take (unat (fst r)) b @ map Some xs @ drop (unat (snd r)) b"

definition BufferSlice_deref_mut ::
    "('a cells, 'n) queue \<Rightarrow> 'a list buffer_slice \<Rightarrow> ('a list \<Rightarrow> 'a list) \<Rightarrow>
     ('a cells, 'n) queue \<times> 'a list buffer_slice" where
  "BufferSlice_deref_mut q s f =
     (let i = slice_buffer_index s; xs = f (slice_slice s) in
      (q\<lparr>buffers := two_set (buffers q) i (cells_overwrite (two_get (buffers q) i) (slice_range s) xs)\<rparr>,
       s\<lparr>slice_slice := xs\<rparr>))"

lemma cells_overwrite_rep:
  assumes "length b < 18446744073709551616" and "unat lo + length xs = unat hi" and "unat hi \<le> length b"
  shows "length (cells_overwrite b (lo, hi) xs) = length b"
    and "cells_rep (cells_overwrite b (lo, hi) xs) (seg (unat lo) xs)"
  using assms by (auto simp: cells_overwrite_def cells_rep_def seg_def nth_append split: if_splits)

lemma deref_mut_refines:
  assumes q: "queue_rep VecBuffer cells_rep q A" and s: "slice_rep (\<lambda>x. x) (\<lambda>xs. xs) q A s"
    and f: "length (f (aq_front A)) = length (aq_front A)" and run: "BufferSlice_deref_mut q s f = (q', s')"
  shows "queue_rep VecBuffer cells_rep q' (A\<lparr>aq_front := f (aq_front A)\<rparr>)"
    and "slice_rep (\<lambda>x. x) (\<lambda>xs. xs) q' (A\<lparr>aq_front := f (aq_front A)\<rparr>) s'"
proof -
  let ?i = "deq_index q" and ?A = "A\<lparr>aq_front := f (aq_front A)\<rparr>"
  let ?b = "two_get (buffers q) ?i" and ?n = "two_get (buffers_length q) ?i"
  note d = deq_repD [OF q] and sb = vec_buf.slice_bounds [OF q]
  define b' where "b' = cells_overwrite ?b (?n - of_nat (length (aq_front A)), ?n) (f (aq_front A))"
  have q': "q' = q\<lparr>buffers := two_set (buffers q) ?i b'\<rparr>" and s': "s' = s\<lparr>slice_slice := f (aq_front A)\<rparr>"
    using run s unfolding BufferSlice_deref_mut_def slice_rep_def Let_def b'_def by simp_all
  have small: "length ?b < 18446744073709551616"
    using d(5) unfolding cells_rep_def by blast
  have "unat ?n \<le> length ?b"
    using d(1,4) cells_rep_length [OF d(5)] by (simp add: VecBuffer_def VecBuffer_capacity_def)
  moreover have "unat (?n - of_nat (length (aq_front A))) + length (f (aq_front A)) = unat ?n"
    unfolding f using sb(2) by (rule sym)
  ultimately have b': "length b' = length ?b" "cells_rep b' (seg (unat (?n - of_nat (length (aq_front A)))) (f (aq_front A)))"
    unfolding b'_def using cells_overwrite_rep [OF small] by blast+
  have len: "length b' = length ?b" and rep: "cells_rep b' (seg (unat ?n - length (aq_front A)) (f (aq_front A)))"
    using b' unfolding sb(1) by blast+
  have i: "enq_index q' = enq_index q" "deq_index q' = ?i"
    by (simp_all add: q' enq_index_def deq_index_def)
  have "enq_rep VecBuffer cells_rep q' ?A = enq_rep VecBuffer cells_rep q A"
    by (rule enq_rep_cong) (simp_all add: q' two_get_set_other deq_index_neq)
  moreover have "deq_rep VecBuffer cells_rep q' ?A"
    using d len rep f unfolding deq_rep_def i Let_def by (auto simp: q' VecBuffer_def VecBuffer_capacity_def)
  ultimately show "queue_rep VecBuffer cells_rep q' ?A"
    using q by (simp add: queue_rep_def)
  show "slice_rep (\<lambda>x. x) (\<lambda>xs. xs) q' ?A s'"
    using s f unfolding slice_rep_def i by (simp add: q' s')
qed


section \<open>Enqueuing several values\<close>

text \<open>A client that enqueues values one after the other, up to the first failure.\<close>

fun enqueue_all ::
    "('b, 's) buffer_trait \<Rightarrow> 'n notify_trait \<Rightarrow> ('b, 'v) insert_trait \<Rightarrow> (bool list \<times> 'v) list \<Rightarrow>
     ('b, 'n) queue \<Rightarrow> (('v try_enqueue_error + unit) \<times> ('b, 'n) queue) exec" where
  "enqueue_all B N I [] q = Inr (Inr (), q)"
| "enqueue_all B N I ((sp, v) # vs) q =
     and_then (Queue_try_enqueue B N I sp q v) (\<lambda>(r, q').
     case r of Inl e \<Rightarrow> Inr (Inl e, q') | Inr _ \<Rightarrow> enqueue_all B N I vs q')"

context insert_contract
begin

lemma enqueue_all_refines:
  assumes "queue_rep B rep q A" and "\<not> aq_closed A" and "\<forall>v \<in> set vs. honest (snd v)"
    and "length (aq_back A) + length (concat (map (content \<circ> snd) vs)) \<le> aq_capacity A"
  shows "\<exists>q'. enqueue_all B N I vs q = Inr (Inr (), q') \<and>
    queue_rep B rep q' (A\<lparr>aq_back := aq_back A @ concat (map (content \<circ> snd) vs)\<rparr>)"
  using assms
proof (induction vs arbitrary: q A)
  case Nil
  then show ?case by simp
next
  case (Cons u vs)
  obtain sp v where u: "u = (sp, v)"
    by (cases u)
  let ?A = "A\<lparr>aq_back := aq_back A @ content v\<rparr>"
  have "length (content v) < 9223372036854775808"
    using Cons.prems(1,4) enq_repD(4) [OF Cons.prems(1)] by (simp add: u)
  moreover have "spec_enqueue (content v) A = (Enq_Ok, ?A)"
    using Cons.prems(2,4) by (simp add: spec_enqueue_def u)
  ultimately obtain q' where q': "Queue_try_enqueue B N I sp q v = Inr (Inr (), q')" "queue_rep B rep q' ?A"
    using try_enqueue_refines [OF Cons.prems(1), of v N sp] Cons.prems(3)
    by (auto simp: u enqueue_result_rep_def)
  with Cons.IH [OF q'(2)] Cons.prems show ?case
    by (simp add: u)
qed

text \<open>On a new queue, a dequeue then shows all of them.\<close>

lemma enqueue_all_dequeue:
  assumes "queue_rep B rep q (spec_new c)" and "\<forall>v \<in> set vs. honest (snd v)"
    and "concat (map (content \<circ> snd) vs) \<noteq> []" and "length (concat (map (content \<circ> snd) vs)) \<le> c"
  shows "\<exists>q1 s q2. enqueue_all B N I vs q = Inr (Inr (), q1) \<and>
    Queue_try_dequeue B N sp q1 = Inr (Inr s, q2) \<and>
    view (slice_slice s) = map img (concat (map (content \<circ> snd) vs))"
proof -
  let ?A = "(spec_new c)\<lparr>aq_back := concat (map (content \<circ> snd) vs)\<rparr>"
  obtain q1 where q1: "enqueue_all B N I vs q = Inr (Inr (), q1)" "queue_rep B rep q1 ?A"
    using enqueue_all_refines [OF assms(1) _ assms(2)] assms(4) by (auto simp: spec_new_def)
  with try_dequeue_refines [OF q1(2), of N sp] assms(3) show ?thesis
    by (auto simp: spec_dequeue_def spec_new_def spec_swap_def dequeue_result_rep_def slice_rep_def
        simp del: concat_eq_Nil_conv)
qed

end

section \<open>An example queue\<close>

definition example_queue :: "(nat cells, unit) queue" where
  "example_queue = \<lparr>enqueuing_capacity = 2, dequeuing_length = 1,
     buffers = ([Some 10, Some 20, None], [None, None, None]), buffers_length = (2, 0),
     capacity = 3, notify = ()\<rparr>"

definition example_aqueue :: "nat aqueue" where
  "example_aqueue = \<lparr>aq_front = [], aq_held = False, aq_back = [10, 20], aq_capacity = 3,
     aq_other = 3, aq_closed = False\<rparr>"

lemma example_words:
  "EC_buffer_index 2 = 0" "EC_remaining_capacity 2 = 1" "\<not> EC_is_closed 2" "DL_new 1 0 = 1"
  by (simp_all add: usize_eq_iff EC_buffer_index_unat EC_remaining_unat EC_is_closed_unat DL_new_def)

lemma example_queue_rep: "queue_rep VecBuffer cells_rep example_queue example_aqueue"
proof -
  have "cells_rep [Some 10, Some 20, None] (seg 0 [10, 20 :: nat])"
    by (auto simp: cells_rep_def seg_def nth_Cons' split: if_splits)
  moreover have "cells_rep [None, None, None] (Map.empty :: nat \<rightharpoonup> nat)"
    by (simp add: cells_rep_def)
  ultimately show ?thesis
    by (simp add: queue_rep_def enq_rep_def deq_rep_def enq_index_def deq_index_def flip_def
        two_get_def Let_def example_queue_def example_aqueue_def example_words VecBuffer_def
        VecBuffer_capacity_def)
qed

lemma example_array_rep: "queue_rep (ArrayBuffer 3) cells_rep example_queue example_aqueue"
  using example_queue_rep
  by (simp add: queue_rep_def enq_rep_def deq_rep_def Let_def VecBuffer_def ArrayBuffer_def
      VecBuffer_capacity_def ArrayBuffer_capacity_def)

lemma example_dequeue: "spec_dequeue example_aqueue = (Inr [10, 20], snd (spec_dequeue example_aqueue))"
  "aq_front (snd (spec_dequeue example_aqueue)) = [10, 20]"
  by (simp_all add: spec_dequeue_def example_aqueue_def spec_swap_def)

lemma example_vec_slice:
  "\<exists>q s. Queue_try_dequeue VecBuffer unit_notify [] example_queue = Inr (Inr s, q) \<and>
    queue_rep VecBuffer cells_rep q (snd (spec_dequeue example_aqueue)) \<and>
    slice_rep (\<lambda>x. x) (\<lambda>xs. xs) q (snd (spec_dequeue example_aqueue)) s"
  using vec_buf.try_dequeue_refines [OF example_queue_rep, of unit_notify "[]"]
  by (auto simp: spec_dequeue_def example_aqueue_def dequeue_result_rep_def)

lemma example_array_slice:
  "\<exists>q s. Queue_try_dequeue (ArrayBuffer 3) unit_notify [] example_queue = Inr (Inr s, q) \<and>
    queue_rep (ArrayBuffer 3) cells_rep q (snd (spec_dequeue example_aqueue)) \<and>
    slice_rep (\<lambda>x. x) (\<lambda>xs. xs) q (snd (spec_dequeue example_aqueue)) s"
  using array_buf.try_dequeue_refines [OF example_array_rep, of unit_notify "[]"]
  by (auto simp: spec_dequeue_def example_aqueue_def dequeue_result_rep_def)

end
