(* ===== verification/Queue_Properties.thy ===== *)
theory Queue_Properties
  imports Queue_Buffers
begin

text \<open>
  The properties of the queue's operations, stated for the buffers of the crate: each operation
  implements its specification (\<open>Queue_Spec\<close>) over \<open>VecBuffer\<close> or \<open>ArrayBuffer\<close>, on
  every branch and whatever compare-and-swaps fail spuriously. The facts come from the
  interpretations \<open>vec_buf\<close>, \<open>array_buf\<close> and \<open>vec_queue\<close>. The last section has the
  inputs on which the code does not do what its comments say.
\<close>

section \<open>Enqueuing and dequeuing\<close>

text \<open>
  C17: Enqueuing an array into a queue over \<open>VecBuffer\<close> returns, without panicking, exactly what
  the specification says (success, insufficient capacity or closed, the value given back on
  failure); on success the values are appended to the enqueued ones and a slice held by a dequeuer
  still shows the same values.
\<close>

theorem vec_try_enqueue_refines:
  assumes "queue_rep VecBuffer cells_rep q A" and "length v < 9223372036854775808"
  shows "\<exists>r q'. Queue_try_enqueue VecBuffer N (array_insert VecBuffer_insert) sp q v = Inr (r, q') \<and>
    queue_rep VecBuffer cells_rep q' (snd (spec_enqueue v A)) \<and>
    enqueue_result_rep v (fst (spec_enqueue v A)) r \<and>
    (\<forall>s. slice_rep (\<lambda>x. x) (\<lambda>xs. xs) q A s \<longrightarrow>
         slice_rep (\<lambda>x. x) (\<lambda>xs. xs) q' (snd (spec_enqueue v A)) s)"
  using vec_buf.arr.try_enqueue_refines [OF assms(1) _ assms(2), of N sp] assms(2) by simp

theorem vec_try_enqueue_refines_witness:
  "\<exists>r q'. Queue_try_enqueue VecBuffer unit_notify (array_insert VecBuffer_insert) [True]
      example_queue [30] = Inr (r, q') \<and>
    queue_rep VecBuffer cells_rep q' (snd (spec_enqueue [30] example_aqueue)) \<and>
    enqueue_result_rep [30] (fst (spec_enqueue [30] example_aqueue)) r"
  using vec_try_enqueue_refines [OF example_queue_rep, of "[30]" unit_notify "[True]"]
  by (simp del: ex_simps) blast

text \<open>
  Enqueuing an iterator that announces its true length into a queue over \<open>ArrayBuffer\<close>
  behaves as enqueuing the sequence of its items.
\<close>

theorem array_try_enqueue_iter_refines:
  assumes "queue_rep (ArrayBuffer n) cells_rep q A" and "exact_iter it"
    and "length (iter_items it) < 9223372036854775808"
  shows "\<exists>r q'. Queue_try_enqueue (ArrayBuffer n) N (value_iter_insert ArrayBuffer_insert) sp q it =
      Inr (r, q') \<and>
    queue_rep (ArrayBuffer n) cells_rep q' (snd (spec_enqueue (iter_items it) A)) \<and>
    enqueue_result_rep it (fst (spec_enqueue (iter_items it) A)) r"
  using array_buf.itr.try_enqueue_refines [OF assms, of N sp] by blast

theorem array_try_enqueue_iter_refines_witness:
  "\<exists>r q'. Queue_try_enqueue (ArrayBuffer 3) unit_notify (value_iter_insert ArrayBuffer_insert) []
      example_queue (into_value_iter [30]) = Inr (r, q') \<and>
    queue_rep (ArrayBuffer 3) cells_rep q' (snd (spec_enqueue [30] example_aqueue)) \<and>
    enqueue_result_rep (into_value_iter [30]) (fst (spec_enqueue [30] example_aqueue)) r"
  using array_try_enqueue_iter_refines [OF example_array_rep, of "into_value_iter [30]" unit_notify "[]"]
  by (simp add: into_value_iter_def exact_iter_def del: ex_simps)

text \<open>The same insertion, whether the values come as an array or from an iterator of true length.\<close>

lemma iter_insert_array:
  assumes "exact_iter it" and "unat i + length (iter_items it) < 18446744073709551616"
  shows "ins_into (value_iter_insert ins) it b i = ins_into (array_insert ins) (iter_items it) b i"
  using assms value_iter_loop_array [of i "iter_items it" ins b]
  by (simp add: value_iter_insert_def value_iter_insert_into_def array_insert_def exact_iter_def add_usize_ok)

definition give_back :: "'u \<Rightarrow> 'v try_enqueue_error \<Rightarrow> 'u try_enqueue_error" where
  "give_back u e =
     (case e of InsufficientCapacity _ \<Rightarrow> InsufficientCapacity u | Enqueue_Closed _ \<Rightarrow> Enqueue_Closed u)"

text \<open>
  C20: Over \<open>VecBuffer\<close>, enqueuing an iterator that announces its true length and enqueuing the array of
  its items are the same: the same result, with the iterator given back instead of the array, and the same
  queue afterwards, word for word.
\<close>

theorem vec_enqueue_iter_array:
  assumes q: "queue_rep VecBuffer cells_rep q A" and it: "exact_iter it"
    and small: "length (iter_items it) < 9223372036854775808"
  shows "Queue_try_enqueue VecBuffer N (value_iter_insert VecBuffer_insert) sp q it =
    and_then (Queue_try_enqueue VecBuffer N (array_insert VecBuffer_insert) sp q (iter_items it))
      (\<lambda>(r, q'). Inr (map_sum (give_back it) id r, q'))"
proof -
  let ?w = "enqueuing_capacity q" and ?sz = "of_nat (length (iter_items it)) :: usize"
  have sz: "iter_len it = ?sz"
    using it small by (simp add: exact_iter_def usize_eq_iff usize_simps)
  have room: "unat (buf_capacity VecBuffer (two_get (buffers q) (EC_buffer_index ?w)) - EC_remaining_capacity ?w) +
      length (iter_items it) < 18446744073709551616"
    if "\<not> EC_is_closed ?w" "EC_try_reserve ?w ?sz = Some w" for w
    using vec_buf.arr.try_reserve_back [OF q, of "iter_items it"] small that enq_repD(1,4) [OF q]
      enqueue_index(2) [OF q] by (simp add: array_insert_def enq_index_def)
  have "value_iter_insert_into VecBuffer_insert it b
      (buf_capacity VecBuffer (two_get (buffers q) (EC_buffer_index ?w)) - EC_remaining_capacity ?w) =
    array_insert_loop VecBuffer_insert 0 (iter_items it) b
      (buf_capacity VecBuffer (two_get (buffers q) (EC_buffer_index ?w)) - EC_remaining_capacity ?w)"
    if "\<not> EC_is_closed ?w" "EC_try_reserve ?w ?sz = Some w" for w b
    using iter_insert_array [OF it room [OF that], of VecBuffer_insert b]
    by (simp add: value_iter_insert_def array_insert_def)
  then show ?thesis
    using enqueue_index(1) [OF q] sz
    by (auto simp: Queue_try_enqueue_def enqueue_loop_solo Let_def give_back_def enq_index_def
        value_iter_insert_def array_insert_def and_then_def split: option.splits sum.splits)
qed

theorem vec_enqueue_iter_array_witness:
  "Queue_try_enqueue VecBuffer unit_notify (value_iter_insert VecBuffer_insert) [True] example_queue
      (into_value_iter [30]) =
    and_then (Queue_try_enqueue VecBuffer unit_notify (array_insert VecBuffer_insert) [True] example_queue [30])
      (\<lambda>(r, q'). Inr (map_sum (give_back (into_value_iter [30])) id r, q'))"
  using vec_enqueue_iter_array [OF example_queue_rep, of "into_value_iter [30]" unit_notify "[True]"]
  by (simp add: into_value_iter_def exact_iter_def)

text \<open>
  C18: Dequeuing from a queue over \<open>VecBuffer\<close> returns, without panicking, what the
  specification says: a conflict while a slice is held, the requeued values if there are some, the
  values enqueued since the last swap, in order, and otherwise \<open>Closed\<close> or \<open>Empty\<close>; the
  slice shows exactly those values.
\<close>

theorem vec_try_dequeue_refines:
  assumes "queue_rep VecBuffer cells_rep q A"
  shows "\<exists>r q'. Queue_try_dequeue VecBuffer N sp q = Inr (r, q') \<and>
    queue_rep VecBuffer cells_rep q' (snd (spec_dequeue A)) \<and>
    dequeue_result_rep (\<lambda>x. x) (\<lambda>xs. xs) q' (snd (spec_dequeue A)) (fst (spec_dequeue A)) r"
  by (rule vec_buf.try_dequeue_refines [OF assms])

theorem vec_try_dequeue_refines_witness:
  "\<exists>s q'. Queue_try_dequeue VecBuffer unit_notify [True, True] example_queue = Inr (Inr s, q') \<and>
    slice_slice s = [10, 20 :: nat]"
  using vec_try_dequeue_refines [OF example_queue_rep, of unit_notify "[True, True]"]
  by (auto simp: spec_dequeue_def example_aqueue_def dequeue_result_rep_def slice_rep_def)

section \<open>Handles on a dequeued buffer\<close>

text \<open>
  C21: Dropping the slice of a dequeued \<open>VecBuffer\<close> forgets its values and unlocks the queue,
  and requeuing it unlocks the queue and keeps them for the next dequeue. Values that were changed through
  \<open>deref_mut\<close> are shown by the slice and kept by a requeue as they were changed.
\<close>

theorem vec_slice_ends:
  assumes "queue_rep VecBuffer cells_rep q A" and "slice_rep (\<lambda>x. x) (\<lambda>xs. xs) q A s"
  shows "(\<exists>q'. BufferSlice_drop VecBuffer q s = Inr q' \<and>
           queue_rep VecBuffer cells_rep q' (spec_release A)) \<and>
    (\<exists>q'. BufferSlice_requeue VecBuffer q s = Inr q' \<and>
           queue_rep VecBuffer cells_rep q' (spec_requeue A)) \<and>
    (\<forall>f q1 s1. length (f (aq_front A)) = length (aq_front A) \<and> BufferSlice_deref_mut q s f = (q1, s1) \<longrightarrow>
       BufferSlice_deref s1 = f (BufferSlice_deref s) \<and>
       (\<exists>q'. BufferSlice_requeue VecBuffer q1 s1 = Inr q' \<and>
           queue_rep VecBuffer cells_rep q' (spec_requeue (A\<lparr>aq_front := f (aq_front A)\<rparr>))))"
proof -
  have "BufferSlice_deref s1 = f (BufferSlice_deref s) \<and> (\<exists>q'. BufferSlice_requeue VecBuffer q1 s1 = Inr q' \<and>
      queue_rep VecBuffer cells_rep q' (spec_requeue (A\<lparr>aq_front := f (aq_front A)\<rparr>)))"
    if "length (f (aq_front A)) = length (aq_front A)" "BufferSlice_deref_mut q s f = (q1, s1)" for f q1 s1
  proof -
    note m = deref_mut_refines [OF assms that]
    have "slice_slice s1 = f (slice_slice s)"
      using that(2) by (auto simp: BufferSlice_deref_mut_def Let_def)
    with vec_buf.requeue_refines [OF m] show ?thesis
      by (simp add: BufferSlice_requeue_def BufferSlice_deref_def)
  qed
  with vec_buf.release_refines [OF assms] vec_buf.requeue_refines [OF assms] show ?thesis
    by (simp add: BufferSlice_drop_def BufferSlice_requeue_def)
qed

theorem vec_slice_ends_witness:
  "\<exists>q s q'. Queue_try_dequeue VecBuffer unit_notify [] example_queue = Inr (Inr s, q) \<and>
     BufferSlice_requeue VecBuffer q s = Inr q' \<and>
     queue_rep VecBuffer cells_rep q' (spec_requeue (snd (spec_dequeue example_aqueue))) \<and>
     BufferSlice_deref (snd (BufferSlice_deref_mut q s rev)) = rev (BufferSlice_deref s)"
proof -
  let ?A = "snd (spec_dequeue example_aqueue)"
  obtain q s where deq: "Queue_try_dequeue VecBuffer unit_notify [] example_queue = Inr (Inr s, q)"
    and rep: "queue_rep VecBuffer cells_rep q ?A" "slice_rep (\<lambda>x. x) (\<lambda>xs. xs) q ?A s"
    using example_vec_slice by blast
  obtain q1 s1 where "BufferSlice_deref_mut q s rev = (q1, s1)"
    by (cases "BufferSlice_deref_mut q s rev")
  with vec_slice_ends [OF rep] deq show ?thesis
    by fastforce
qed

text \<open>
  C22: Asking the iterator of a dequeued \<open>ArrayBuffer\<close> for \<open>k\<close> items yields the first
  \<open>k\<close> dequeued values in order (all of them if there are fewer), and dropping it then leaves
  the others queued.
\<close>

theorem array_drain_refines:
  assumes "queue_rep (ArrayBuffer n) cells_rep q A" and "slice_rep (\<lambda>x. x) (\<lambda>xs. xs) q A s"
  shows "\<exists>q1 it q2. take_items ArrayBuffer_remove k q (BufferSlice_into_iter s) =
      Inr (take k (aq_front A), q1, it) \<and>
    BufferIter_drop (ArrayBuffer n) q1 it = Inr q2 \<and>
    queue_rep (ArrayBuffer n) cells_rep q2
      (A\<lparr>aq_front := drop k (aq_front A), aq_held := False\<rparr>)"
proof -
  obtain q1 it where q1: "take_items ArrayBuffer_remove k q (BufferSlice_into_iter s) =
      Inr (take k (aq_front A), q1, it)"
    and r: "queue_rep (ArrayBuffer n) cells_rep q1 (A\<lparr>aq_front := drop k (aq_front A)\<rparr>)"
      "iter_rep q1 (A\<lparr>aq_front := drop k (aq_front A)\<rparr>) it"
    using array_buf.take_items_refines [OF assms(1) into_iter_rep [OF assms(2)]] by blast
  with array_buf.iter_drop_refines [OF r] show ?thesis
    by (auto simp: spec_requeue_def)
qed

theorem array_drain_refines_witness:
  "\<exists>q s q1 it. Queue_try_dequeue (ArrayBuffer 3) unit_notify [] example_queue = Inr (Inr s, q) \<and>
     take_items ArrayBuffer_remove 1 q (BufferSlice_into_iter s) = Inr ([10], q1, it)"
  using example_array_slice array_drain_refines [where k = 1]
  by (fastforce simp: example_dequeue(2))

text \<open>
  Turning an iterator on a dequeued \<open>VecBuffer\<close> back into a slice, after any number of items
  have been taken, shows exactly the items not taken yet, and \<open>size_hint\<close> counts them.
\<close>

theorem vec_iter_into_slice:
  assumes "queue_rep VecBuffer cells_rep q A" and "slice_rep (\<lambda>x. x) (\<lambda>xs. xs) q A s"
    and "take_items VecBuffer_remove k q (BufferSlice_into_iter s) = Inr (xs, q', it)"
  shows "xs = take k (aq_front A) \<and>
    BufferIter_size_hint it = (length (aq_front A) - k, Some (length (aq_front A) - k)) \<and>
    (\<exists>s'. BufferIter_into_slice VecBuffer q' it = Inr s' \<and>
          BufferSlice_deref s' = drop k (aq_front A))"
proof -
  let ?A = "A\<lparr>aq_front := drop k (aq_front A)\<rparr>"
  have r: "queue_rep VecBuffer cells_rep q' ?A" "iter_rep q' ?A it" "xs = take k (aq_front A)"
    using vec_buf.take_items_refines [OF assms(1) into_iter_rep [OF assms(2)], of k] assms(3) by auto
  with vec_buf.into_slice_refines [OF r(1,2)] vec_buf.size_hint_front [OF r(1,2)] show ?thesis
    by (auto simp: slice_rep_def BufferSlice_deref_def)
qed

theorem vec_iter_into_slice_witness:
  "\<exists>q s q' it s'. Queue_try_dequeue VecBuffer unit_notify [] example_queue = Inr (Inr s, q) \<and>
     take_items VecBuffer_remove 1 q (BufferSlice_into_iter s) = Inr ([10], q', it) \<and>
     BufferIter_into_slice VecBuffer q' it = Inr s' \<and> BufferSlice_deref s' = [20 :: nat]"
proof -
  obtain q s where q: "Queue_try_dequeue VecBuffer unit_notify [] example_queue = Inr (Inr s, q)"
    "queue_rep VecBuffer cells_rep q (snd (spec_dequeue example_aqueue))"
    "slice_rep (\<lambda>x. x) (\<lambda>xs. xs) q (snd (spec_dequeue example_aqueue)) s"
    using example_vec_slice by blast
  obtain q' it where "take_items VecBuffer_remove 1 q (BufferSlice_into_iter s) = Inr ([10], q', it)"
    using vec_buf.take_items_refines [OF q(2) into_iter_rep [OF q(3)], of 1]
    by (auto simp: example_dequeue(2))
  with vec_iter_into_slice [OF q(2,3) this] q(1) show ?thesis
    by (auto simp: example_dequeue(2))
qed

section \<open>Construction, closing and observers\<close>

text \<open>
  \<open>with_capacity\<close> on \<open>VecBuffer\<close> gives an empty open queue of that capacity when the
  capacity is below \<open>usize::MAX >> 2\<close>, and panics otherwise.
\<close>

theorem vec_with_capacity:
  "(if unat c < 4611686018427387903
    then \<exists>q. Queue_with_capacity VecBuffer VecBuffer_resize n c = Inr q \<and>
             queue_rep VecBuffer cells_rep q (spec_new (unat c))
    else Queue_with_capacity VecBuffer VecBuffer_resize n c = Inl Assertion_Failed)"
  using vec_buf.with_capacity_refines [of c n] EC_check_overflow_cases [of c]
  by (auto simp: Queue_with_capacity_def)

text \<open>
  \<open>new\<close> on \<open>ArrayBuffer\<close> gives an empty open queue with the capacity of the array, and
  panics when the array is too long for the enqueuing word.
\<close>

theorem array_new:
  "(if unat c < 4611686018427387903
    then \<exists>q. Queue_new (ArrayBuffer c) n = Inr q \<and>
             queue_rep (ArrayBuffer c) cells_rep q (spec_new (unat c))
    else Queue_new (ArrayBuffer c) n = Inl Assertion_Failed)"
  using array_buf.new_refines [of c n] EC_check_overflow_cases [of c]
  by (auto simp: Queue_new_def two_get_def ArrayBuffer_default_capacity)

text \<open>
  C23: Closing and reopening a queue change only its closed flag (also when a slice is held or values
  are queued); \<open>len\<close>, \<open>is_empty\<close>, \<open>is_closed\<close> and \<open>capacity\<close> report the state
  of the enqueuing side.
\<close>

theorem vec_close_reopen_observers:
  assumes "queue_rep VecBuffer cells_rep q A"
  shows "queue_rep VecBuffer cells_rep (Queue_close N q) (spec_close A) \<and>
    queue_rep VecBuffer cells_rep (Queue_reopen q) (spec_reopen A) \<and>
    unat (Queue_len q) = length (aq_back A) \<and>
    (Queue_is_empty q \<longleftrightarrow> aq_back A = []) \<and>
    Queue_is_closed q = aq_closed A \<and>
    unat (Queue_capacity q) = aq_capacity A"
  using vec_buf.close_refines [OF assms] vec_buf.reopen_refines [OF assms]
    vec_buf.observers_refine [OF assms] by blast

theorem vec_close_reopen_observers_witness:
  "queue_rep VecBuffer cells_rep (Queue_close unit_notify example_queue) (spec_close example_aqueue) \<and>
   unat (Queue_len example_queue) = 2"
  using vec_close_reopen_observers [OF example_queue_rep] by (simp add: example_aqueue_def)

section \<open>Resizing and dropping\<close>

text \<open>
  C19: Dequeuing with a resize over \<open>VecBuffer\<close>, when the inserted arrays fit together in the
  next buffer: it returns, without panicking, the values enqueued since the last swap (or the
  inserted ones when there were none), and the next enqueuing buffer has the asked capacity and
  starts with the inserted values.
\<close>

theorem vec_try_dequeue_and_resize_refines:
  assumes "queue_rep VecBuffer cells_rep q A"
    and "newcap = (case c of None \<Rightarrow> aq_other A | Some k \<Rightarrow> unat k)"
    and "newcap < 4611686018427387903" and "length (concat vs) \<le> newcap"
  shows "\<exists>r q'. Queue_try_dequeue_and_resize VecBuffer N VecBuffer_resize
      (array_insert VecBuffer_insert) sp q c (Some vs) = Inr (r, q') \<and>
    queue_rep VecBuffer cells_rep q'
      (snd (spec_dequeue_resized newcap (newcap \<noteq> aq_other A) (concat vs) A)) \<and>
    dequeue_result_rep (\<lambda>x. x) (\<lambda>xs. xs) q'
      (snd (spec_dequeue_resized newcap (newcap \<noteq> aq_other A) (concat vs) A))
      (fst (spec_dequeue_resized newcap (newcap \<noteq> aq_other A) (concat vs) A)) r"
proof -
  have "length v < 18446744073709551616" if "v \<in> set vs" for v
    using member_le_sum_list [of "length v" "map length vs"] that assms(3,4)
    by (simp add: length_concat)
  with vec_queue.try_dequeue_and_resize_refines [OF assms(1), of c vs N sp] assms(2-4)
  show ?thesis by simp
qed

theorem vec_try_dequeue_and_resize_refines_witness:
  "\<exists>s q'. Queue_try_dequeue_and_resize VecBuffer unit_notify VecBuffer_resize
      (array_insert VecBuffer_insert) [] example_queue (Some 5) (Some [[1], [2, 3]]) = Inr (Inr s, q') \<and>
    slice_slice s = [10, 20 :: nat] \<and>
    queue_rep VecBuffer cells_rep q' (example_aqueue\<lparr>aq_front := [10, 20], aq_held := True,
      aq_back := [1, 2, 3], aq_capacity := 5, aq_other := 3\<rparr>)"
  using vec_try_dequeue_and_resize_refines [OF example_queue_rep, of 5 "Some 5" "[[1], [2, 3]]"
      unit_notify "[]"]
  by (auto simp: spec_dequeue_resized_def example_aqueue_def dequeue_result_rep_def slice_rep_def)




text \<open>
  C39: Dropping a queue over \<open>VecBuffer\<close> that is not held does not panic and releases one
  buffer: the values of a pending or requeued dequeue if there are some, otherwise the enqueued ones.
  In the first case the enqueued values are still in their buffer when \<open>drop\<close> returns, so they
  are never dropped.
\<close>

theorem vec_drop_refines:
  assumes "queue_rep VecBuffer cells_rep q A" and "\<not> aq_held A"
  shows "\<exists>q'. Queue_drop VecBuffer sp q = Inr q' \<and>
    queue_rep VecBuffer cells_rep q' (spec_drop A) \<and> aq_front (spec_drop A) = [] \<and>
    aq_back (spec_drop A) = (if aq_front A = [] then [] else aq_back A)"
  using vec_buf.drop_refines [OF assms(1), of sp] assms(2)
  by (auto simp: spec_drop_def spec_dequeue_def spec_release_def spec_swap_def)

theorem vec_drop_refines_witness:
  "\<exists>q'. Queue_drop VecBuffer [True] example_queue = Inr q' \<and>
    queue_rep VecBuffer cells_rep q' (spec_drop example_aqueue) \<and> aq_back (spec_drop example_aqueue) = []"
  using vec_drop_refines [OF example_queue_rep, of "[True]"] by (auto simp: example_aqueue_def)

section \<open>The packed words\<close>

text \<open>
  A reservation of \<open>2 ^ 63\<close> slots succeeds on every word and reserves nothing, because the
  size is shifted left without a check.
\<close>

lemma try_reserve_huge: "EC_try_reserve w 9223372036854775808 = Some w"
proof -
  have "push_bit 1 (9223372036854775808 :: usize) = 0"
    by code_simp
  then show ?thesis
    unfolding EC_try_reserve_def checked_sub_def by (simp only:) simp
qed

text \<open>
  C24: The enqueuing word: packing an index and a capacity and reading the fields back gives them and
  an open flag; for sizes below \<open>2 ^ 63\<close> a reservation on an open word succeeds exactly when the size fits in the
  remaining capacity, takes it off, and leaves the index and the flag alone. The size \<open>2 ^ 63\<close> is shifted out of the
  word: it is accepted whatever the capacity, and reserves nothing.
\<close>

theorem enqueuing_word_fields:
  assumes "unat i < 2" and "unat c < 4611686018427387904" and "unat s < 9223372036854775808"
  shows "\<exists>w. EC_new i c = Inr w \<and>
    EC_buffer_index w = i \<and> EC_remaining_capacity w = c \<and> \<not> EC_is_closed w \<and>
    (if s \<le> c
     then \<exists>w'. EC_try_reserve w s = Some w' \<and> EC_buffer_index w' = i \<and>
               EC_remaining_capacity w' = c - s \<and> \<not> EC_is_closed w'
     else EC_try_reserve w s = None) \<and>
    EC_try_reserve w 9223372036854775808 = Some w"
proof -
  let ?w = "EC_pack i c"
  note f = EC_pack_fields [OF assms(1,2)]
  show ?thesis
  proof (cases "EC_try_reserve ?w s")
    case None
    with EC_try_reserve_None [OF _ assms(3), of ?w] f assms(2) show ?thesis
      by (simp add: EC_new_ok word_le_nat_alt try_reserve_huge)
  next
    case (Some w')
    with EC_try_reserve_Some [OF _ assms(3) Some] f assms(2) show ?thesis
      by (simp add: EC_new_ok try_reserve_huge)
  qed
qed

theorem enqueuing_word_fields_witness:
  "\<exists>w w'. EC_new 1 5 = Inr w \<and> EC_try_reserve w 3 = Some w' \<and> EC_remaining_capacity w' = 2"
  using enqueuing_word_fields [of 1 5 3] by auto

end
