(* ===== verification/Queue_Concurrent.thy ===== *)
theory Queue_Concurrent
  imports Queue_Buffers
begin

text \<open>
  The queue shared by any number of threads. The operations of \<open>src/src/queue.rs\<close> and the handles
  of \<open>src/src/buffer.rs\<close> are cut into their accesses to shared memory: each atomic load, store,
  swap, \<open>fetch_\<close> operation and compare-and-swap, and each access to a buffer, is one step, and the
  local variables that live across it are the arguments of a program counter \<open>pc\<close>. A system state
  has the queue of \<open>Queue\<close> and the program counters of its threads.

  \<open>step_start\<close> is the call of an operation, \<open>step_go\<close> the next step of a running one (its
  argument tells whether a \<open>compare_exchange_weak\<close> fails spuriously), \<open>step_handle\<close> what the
  owner of a slice or an iterator does with it. They return \<open>None\<close> when the thread cannot do
  that, and a fault when the code panics or reads memory it must not read. \<open>sys_steps\<close> interleaves
  the threads in every order, recording what each step showed.

  An atomic load reads the latest value here; what the orderings that the source asks for guarantee
  is the subject of \<open>Memory_Orders\<close>. Spin hints and backoff counters have no effect on shared memory and are left out.
  A buffer access is one step; \<open>Concurrent_Invariant\<close> shows that no two threads are ever about to
  make conflicting ones, so splitting them further would not show more.
\<close>

section \<open>What the system is made of\<close>

text \<open>
  The trait implementations, the closures that a dequeue request may pass to be run on the next
  buffer, and the removal of the \<open>Drain\<close> trait for the buffers that have it.
\<close>

record ('b, 's, 'n, 'v, 'c, 'r) sys =
  sys_buffer :: "('b, 's) buffer_trait"
  sys_notify :: "'n notify_trait"
  sys_insert :: "('b, 'v) insert_trait"
  sys_prep :: "'r \<Rightarrow> 'b resize_closure"
  sys_remove :: "('b, 'c) drain_remove option"

datatype ('v, 'r) request =
    Req_Enqueue 'v
  | Req_Dequeue "'r option"
  | Req_Close
  | Req_Reopen

datatype handle_op = Op_Drop | Op_Requeue | Op_Into_Iter | Op_Next | Op_Into_Slice

datatype ('v, 'r) choice =
    Start "('v, 'r) request"
  | Go bool
  | Handle handle_op

datatype ('v, 's, 'r) pc =
    Idle
  | Enq_Load 'v
  | Enq_Cas 'v usize
  | Enq_Insert 'v usize
  | Enq_Ack 'v usize
  | Enq_Notify
  | Deq_Lock "'r option"
  | Deq_Open usize "'r option"
  | Deq_Add usize "'r option" usize bool usize
  | Deq_Load usize "'r option" usize bool usize
  | Deq_Check usize "'r option" usize bool usize usize
  | Deq_Swap "'r option" usize bool usize usize usize usize
  | Deq_Capacity usize bool usize usize usize
  | Deq_Notify bool usize usize usize
  | Deq_Spin nat usize usize
  | Deq_Slice usize usize usize
  | Deq_Store usize try_dequeue_error
  | Holding "'s buffer_slice"
  | Iterating buffer_iter
  | Rel_Clear usize range
  | Rel_Len usize
  | Rel_Unlock usize
  | Close_Flag
  | Close_Dequeue
  | Close_Enqueue
  | Reopen_Flag

datatype ('v, 's, 'c, 'r) event =
    Tau
  | Ev_Reserved 'v
  | Ev_Enqueue "'v try_enqueue_error + unit"
  | Ev_Swapped "'r option"
  | Ev_Dequeue_Err try_dequeue_error
  | Ev_Sliced 's
  | Ev_Released 's
  | Ev_Removed 'c

type_synonym ('b, 's, 'n, 'v, 'c, 'r) outcome =
  "(('b, 'n) queue \<times> ('v, 's, 'r) pc \<times> ('v, 's, 'c, 'r) event) exec option"

section \<open>Calls\<close>

fun step_start ::
    "('b, 's, 'n, 'v, 'c, 'r) sys \<Rightarrow> ('b, 'n) queue \<Rightarrow> ('v, 'r) request \<Rightarrow>
     ('b, 's, 'n, 'v, 'c, 'r) outcome" where
  "step_start S q (Req_Enqueue v) =
     (if ins_size (sys_insert S) v = 0 then Some (Inr (q, Idle, Ev_Enqueue (Inr ())))
      else Some (Inr (q, Enq_Load v, Tau)))"
| "step_start S q (Req_Dequeue r) = Some (Inr (q, Deq_Lock r, Tau))"
| "step_start S q Req_Close = Some (Inr (q, Close_Flag, Tau))"
| "step_start S q Req_Reopen = Some (Inr (q, Reopen_Flag, Tau))"

section \<open>Steps of a running operation\<close>

text \<open>\<open>try_enqueue\<close>, from the load of the enqueuing word.\<close>

definition go_enq_cas ::
    "('b, 's, 'n, 'v, 'c, 'r) sys \<Rightarrow> bool \<Rightarrow> ('b, 'n) queue \<Rightarrow> 'v \<Rightarrow> usize \<Rightarrow>
     ('b, 'n) queue \<times> ('v, 's, 'r) pc \<times> ('v, 's, 'c, 'r) event" where
  "go_enq_cas S spurious q v enqueuing =
     (if EC_is_closed enqueuing then (q, Idle, Ev_Enqueue (Inl (Enqueue_Closed v)))
      else case EC_try_reserve enqueuing (ins_size (sys_insert S) v) of
        None \<Rightarrow> (q, Idle, Ev_Enqueue (Inl (InsufficientCapacity v)))
      | Some next_enq \<Rightarrow>
          (case cas_weak spurious (enqueuing_capacity q) enqueuing next_enq of
             Inr new \<Rightarrow> (q\<lparr>enqueuing_capacity := new\<rparr>, Enq_Insert v enqueuing, Ev_Reserved v)
           | Inl enq \<Rightarrow> (q, Enq_Cas v enq, Tau)))"

definition go_enq_insert ::
    "('b, 's, 'n, 'v, 'c, 'r) sys \<Rightarrow> ('b, 'n) queue \<Rightarrow> 'v \<Rightarrow> usize \<Rightarrow>
     (('b, 'n) queue \<times> ('v, 's, 'r) pc \<times> ('v, 's, 'c, 'r) event) exec" where
  "go_enq_insert S q v enqueuing =
     (let i = EC_buffer_index enqueuing; buffer = two_get (buffers q) i in
      and_then (sub_usize (buf_capacity (sys_buffer S) buffer) (EC_remaining_capacity enqueuing)) (\<lambda>index.
      and_then (ins_into (sys_insert S) v buffer index) (\<lambda>b.
      Inr (q\<lparr>buffers := two_set (buffers q) i b\<rparr>, Enq_Ack v enqueuing, Tau))))"

definition go_enq_ack ::
    "('b, 's, 'n, 'v, 'c, 'r) sys \<Rightarrow> ('b, 'n) queue \<Rightarrow> 'v \<Rightarrow> usize \<Rightarrow>
     ('b, 'n) queue \<times> ('v, 's, 'r) pc \<times> ('v, 's, 'c, 'r) event" where
  "go_enq_ack S q v enqueuing =
     (let i = EC_buffer_index enqueuing in
      (q\<lparr>buffers_length := two_set (buffers_length q) i
           (two_get (buffers_length q) i + ins_size (sys_insert S) v)\<rparr>, Enq_Notify, Tau))"

text \<open>\<open>try_dequeue_internal\<close>, from the locked dequeuing word to the spin.\<close>

definition go_deq_lock ::
    "('b, 'n) queue \<Rightarrow> 'r option \<Rightarrow> ('b, 'n) queue \<times> ('v, 's, 'r) pc \<times> ('v, 's, 'c, 'r) event" where
  "go_deq_lock q r =
     (case Queue_lock_dequeuing q of
        (Inl e, q') \<Rightarrow> (q', Idle, Ev_Dequeue_Err e)
      | (Inr dequeuing, q') \<Rightarrow> (q', Deq_Open dequeuing r, Tau))"

definition go_deq_open ::
    "('b, 's, 'n, 'v, 'c, 'r) sys \<Rightarrow> ('b, 'n) queue \<Rightarrow> usize \<Rightarrow> 'r option \<Rightarrow>
     (('b, 'n) queue \<times> ('v, 's, 'r) pc \<times> ('v, 's, 'c, 'r) event) exec" where
  "go_deq_open S q dequeuing r =
     (if DL_buffer_len dequeuing \<noteq> 0
      then Inr (q, Deq_Spin SPIN_LIMIT (DL_buffer_index dequeuing) (DL_buffer_len dequeuing), Tau)
      else
        and_then (run_resize (map_option (sys_prep S) r) (two_get (buffers q) (DL_buffer_index dequeuing)))
          (\<lambda>(next_buffer, resized, inserted_length).
        Inr (q\<lparr>buffers := two_set (buffers q) (DL_buffer_index dequeuing) next_buffer\<rparr>,
             Deq_Add dequeuing r (buf_capacity (sys_buffer S) next_buffer) resized inserted_length,
             Tau)))"

definition go_deq_add ::
    "('b, 'n) queue \<Rightarrow> usize \<Rightarrow> 'r option \<Rightarrow> usize \<Rightarrow> bool \<Rightarrow> usize \<Rightarrow>
     ('b, 'n) queue \<times> ('v, 's, 'r) pc \<times> ('v, 's, 'c, 'r) event" where
  "go_deq_add q dequeuing r next_capa resized inserted_length =
     (let i = DL_buffer_index dequeuing in
      (if inserted_length > 0
       then q\<lparr>buffers_length := two_set (buffers_length q) i
                (two_get (buffers_length q) i + inserted_length)\<rparr>
       else q, Deq_Load dequeuing r next_capa resized inserted_length, Tau))"

definition go_deq_check ::
    "('b, 's, 'n, 'v, 'c, 'r) sys \<Rightarrow> ('b, 'n) queue \<Rightarrow> usize \<Rightarrow> 'r option \<Rightarrow> usize \<Rightarrow> bool \<Rightarrow> usize \<Rightarrow>
     usize \<Rightarrow> (('b, 'n) queue \<times> ('v, 's, 'r) pc \<times> ('v, 's, 'c, 'r) event) exec" where
  "go_deq_check S q dequeuing r next_capa resized inserted_length enqueuing =
     and_then (guard Assertion_Failed (DL_buffer_index dequeuing \<noteq> EC_buffer_index enqueuing)) (\<lambda>_.
     let capa = buf_capacity (sys_buffer S) (two_get (buffers q) (EC_buffer_index enqueuing)) in
     if EC_remaining_capacity enqueuing = capa \<and> \<not> resized \<and> inserted_length = 0
     then Inr (q, Deq_Store dequeuing (if EC_is_closed enqueuing then Closed else Empty), Tau)
     else
       and_then (sub_usize next_capa inserted_length) (\<lambda>room.
       and_then (EC_new (DL_buffer_index dequeuing) room) (\<lambda>next_enqueuing.
       Inr (q, Deq_Swap r next_capa resized inserted_length capa enqueuing next_enqueuing, Tau))))"

definition go_deq_swap ::
    "bool \<Rightarrow> ('b, 'n) queue \<Rightarrow> 'r option \<Rightarrow> usize \<Rightarrow> bool \<Rightarrow> usize \<Rightarrow> usize \<Rightarrow> usize \<Rightarrow> usize \<Rightarrow>
     ('b, 'n) queue \<times> ('v, 's, 'r) pc \<times> ('v, 's, 'c, 'r) event" where
  "go_deq_swap spurious q r next_capa resized inserted_length capa enqueuing next_enqueuing =
     (case cas_weak spurious (enqueuing_capacity q) enqueuing
             (EC_with_closed next_enqueuing enqueuing) of
        Inr new \<Rightarrow> (q\<lparr>enqueuing_capacity := new\<rparr>,
                    Deq_Capacity next_capa resized inserted_length capa enqueuing, Ev_Swapped r)
      | Inl enq \<Rightarrow> (q, Deq_Swap r next_capa resized inserted_length capa enq next_enqueuing, Tau))"

definition go_deq_notify ::
    "('b, 's, 'n, 'v, 'c, 'r) sys \<Rightarrow> ('b, 'n) queue \<Rightarrow> bool \<Rightarrow> usize \<Rightarrow> usize \<Rightarrow> usize \<Rightarrow>
     (('b, 'n) queue \<times> ('v, 's, 'r) pc \<times> ('v, 's, 'c, 'r) event) exec" where
  "go_deq_notify S q resized inserted_length capa enqueuing =
     (let q' = q\<lparr>notify := notify_enqueue (sys_notify S) (notify q)\<rparr>; i = EC_buffer_index enqueuing in
      and_then (sub_usize capa (EC_remaining_capacity enqueuing)) (\<lambda>len.
      if len \<noteq> 0 then Inr (q', Deq_Spin SPIN_LIMIT i len, Tau)
      else if inserted_length > 0 then Inr (q', Deq_Open (DL_new i 0) None, Tau)
      else and_then (guard Assertion_Failed resized) (\<lambda>_.
           Inr (q', Deq_Store (DL_new i 0) Empty, Tau))))"

definition go_deq_spin ::
    "('b, 'n) queue \<Rightarrow> nat \<Rightarrow> usize \<Rightarrow> usize \<Rightarrow>
     ('b, 'n) queue \<times> ('v, 's, 'r) pc \<times> ('v, 's, 'c, 'r) event" where
  "go_deq_spin q k i len =
     (case k of
        0 \<Rightarrow> (q\<lparr>dequeuing_length := DL_new i len\<rparr>, Idle, Ev_Dequeue_Err Pending)
      | Suc k' \<Rightarrow>
          let buffer_len = two_get (buffers_length q) i in
          if len \<le> buffer_len then (q, Deq_Slice i len buffer_len, Tau)
          else (q, Deq_Spin k' i len, Tau))"

definition go_deq_slice ::
    "('b, 's, 'n, 'v, 'c, 'r) sys \<Rightarrow> ('b, 'n) queue \<Rightarrow> usize \<Rightarrow> usize \<Rightarrow> usize \<Rightarrow>
     (('b, 'n) queue \<times> ('v, 's, 'r) pc \<times> ('v, 's, 'c, 'r) event) exec" where
  "go_deq_slice S q i len buffer_len =
     and_then (sub_usize buffer_len len) (\<lambda>start.
     and_then (buf_slice (sys_buffer S) (two_get (buffers q) i) (start, buffer_len)) (\<lambda>s.
     Inr (q, Holding \<lparr>slice_buffer_index = i, slice_range = (start, buffer_len), slice_slice = s\<rparr>,
          Ev_Sliced s)))"

primrec step_go ::
    "('b, 's, 'n, 'v, 'c, 'r) sys \<Rightarrow> bool \<Rightarrow> ('b, 'n) queue \<Rightarrow> ('v, 's, 'r) pc \<Rightarrow>
     ('b, 's, 'n, 'v, 'c, 'r) outcome" where
  "step_go S sp q Idle = None"
| "step_go S sp q (Enq_Load v) = Some (Inr (q, Enq_Cas v (enqueuing_capacity q), Tau))"
| "step_go S sp q (Enq_Cas v enq) = Some (Inr (go_enq_cas S sp q v enq))"
| "step_go S sp q (Enq_Insert v enq) = Some (go_enq_insert S q v enq)"
| "step_go S sp q (Enq_Ack v enq) = Some (Inr (go_enq_ack S q v enq))"
| "step_go S sp q Enq_Notify =
     Some (Inr (q\<lparr>notify := notify_dequeue (sys_notify S) (notify q)\<rparr>, Idle, Ev_Enqueue (Inr ())))"
| "step_go S sp q (Deq_Lock r) = Some (Inr (go_deq_lock q r))"
| "step_go S sp q (Deq_Open deq r) = Some (go_deq_open S q deq r)"
| "step_go S sp q (Deq_Add deq r nc rs ins) = Some (Inr (go_deq_add q deq r nc rs ins))"
| "step_go S sp q (Deq_Load deq r nc rs ins) =
     Some (Inr (q, Deq_Check deq r nc rs ins (enqueuing_capacity q), Tau))"
| "step_go S sp q (Deq_Check deq r nc rs ins enq) = Some (go_deq_check S q deq r nc rs ins enq)"
| "step_go S sp q (Deq_Swap r nc rs ins capa enq ne) = Some (Inr (go_deq_swap sp q r nc rs ins capa enq ne))"
| "step_go S sp q (Deq_Capacity nc rs ins capa enq) =
     Some (Inr (if Queue_capacity q \<noteq> nc then q\<lparr>capacity := nc\<rparr> else q, Deq_Notify rs ins capa enq, Tau))"
| "step_go S sp q (Deq_Notify rs ins capa enq) = Some (go_deq_notify S q rs ins capa enq)"
| "step_go S sp q (Deq_Spin k i len) = Some (Inr (go_deq_spin q k i len))"
| "step_go S sp q (Deq_Slice i len buffer_len) = Some (go_deq_slice S q i len buffer_len)"
| "step_go S sp q (Deq_Store w e) = Some (Inr (q\<lparr>dequeuing_length := w\<rparr>, Idle, Ev_Dequeue_Err e))"
| "step_go S sp q (Holding s) = None"
| "step_go S sp q (Iterating it) = None"
| "step_go S sp q (Rel_Clear i r) =
     Some (and_then (buf_clear (sys_buffer S) (two_get (buffers q) i) r) (\<lambda>b.
           Inr (q\<lparr>buffers := two_set (buffers q) i b\<rparr>, Rel_Len i, Tau)))"
| "step_go S sp q (Rel_Len i) =
     Some (Inr (q\<lparr>buffers_length := two_set (buffers_length q) i 0\<rparr>, Rel_Unlock i, Tau))"
| "step_go S sp q (Rel_Unlock i) = Some (Inr (q\<lparr>dequeuing_length := DL_new i 0\<rparr>, Idle, Tau))"
| "step_go S sp q Close_Flag =
     Some (Inr (q\<lparr>enqueuing_capacity := EC_close (enqueuing_capacity q)\<rparr>, Close_Dequeue, Tau))"
| "step_go S sp q Close_Dequeue =
     Some (Inr (q\<lparr>notify := notify_dequeue (sys_notify S) (notify q)\<rparr>, Close_Enqueue, Tau))"
| "step_go S sp q Close_Enqueue =
     Some (Inr (q\<lparr>notify := notify_enqueue (sys_notify S) (notify q)\<rparr>, Idle, Tau))"
| "step_go S sp q Reopen_Flag =
     Some (Inr (q\<lparr>enqueuing_capacity := EC_reopen (enqueuing_capacity q)\<rparr>, Idle, Tau))"

section \<open>Handles\<close>

text \<open>\<open>requeue\<close>: a store when something is left, otherwise a release.\<close>

definition handle_requeue ::
    "('b, 'n) queue \<Rightarrow> usize \<Rightarrow> range \<Rightarrow>
     (('b, 'n) queue \<times> ('v, 's, 'r) pc \<times> ('v, 's, 'c, 'r) event) exec" where
  "handle_requeue q i r =
     and_then (sub_usize (snd r) (fst r)) (\<lambda>len.
     if len > 0 then Inr (q\<lparr>dequeuing_length := DL_new i len\<rparr>, Idle, Tau)
     else Inr (q, Rel_Clear i r, Tau))"

definition handle_slice ::
    "('b, 's, 'n, 'v, 'c, 'r) sys \<Rightarrow> ('b, 'n) queue \<Rightarrow> handle_op \<Rightarrow> 's buffer_slice \<Rightarrow>
     ('b, 's, 'n, 'v, 'c, 'r) outcome" where
  "handle_slice S q op s =
     (case op of
        Op_Drop \<Rightarrow>
          Some (Inr (q, Rel_Clear (slice_buffer_index s) (slice_range s), Ev_Released (slice_slice s)))
      | Op_Requeue \<Rightarrow> Some (handle_requeue q (slice_buffer_index s) (slice_range s))
      | Op_Into_Iter \<Rightarrow>
          (if sys_remove S = None then None
           else Some (Inr (q, Iterating (BufferSlice_into_iter s), Tau)))
      | _ \<Rightarrow> None)"

text \<open>Iterators exist only for the buffers that can be drained.\<close>

definition handle_iter ::
    "('b, 's, 'n, 'v, 'c, 'r) sys \<Rightarrow> ('b, 'n) queue \<Rightarrow> handle_op \<Rightarrow> buffer_iter \<Rightarrow>
     ('b, 's, 'n, 'v, 'c, 'r) outcome" where
  "handle_iter S q op it =
     (case op of
        Op_Drop \<Rightarrow> Some (handle_requeue q (iter_buffer_index it) (iter_range it))
      | Op_Next \<Rightarrow>
          (case sys_remove S of None \<Rightarrow> None
           | Some remove \<Rightarrow>
               Some (and_then (BufferIter_next remove q it) (\<lambda>(x, q', it').
                     Inr (q', Iterating it', case x of None \<Rightarrow> Tau | Some y \<Rightarrow> Ev_Removed y))))
      | Op_Into_Slice \<Rightarrow>
          if sys_remove S = None then None else
          Some (and_then (BufferIter_into_slice (sys_buffer S) q it) (\<lambda>s.
                Inr (q, Holding s, Ev_Sliced (slice_slice s))))
      | _ \<Rightarrow> None)"

definition step_handle ::
    "('b, 's, 'n, 'v, 'c, 'r) sys \<Rightarrow> ('b, 'n) queue \<Rightarrow> handle_op \<Rightarrow> ('v, 's, 'r) pc \<Rightarrow>
     ('b, 's, 'n, 'v, 'c, 'r) outcome" where
  "step_handle S q op p =
     (case p of Holding s \<Rightarrow> handle_slice S q op s | Iterating it \<Rightarrow> handle_iter S q op it | _ \<Rightarrow> None)"

section \<open>Interleavings\<close>

definition thread_step ::
    "('b, 's, 'n, 'v, 'c, 'r) sys \<Rightarrow> ('b, 'n) queue \<Rightarrow> ('v, 's, 'r) pc \<Rightarrow> ('v, 'r) choice \<Rightarrow>
     ('b, 's, 'n, 'v, 'c, 'r) outcome" where
  "thread_step S q p ch =
     (case ch of
        Start req \<Rightarrow> (if p = Idle then step_start S q req else None)
      | Go spurious \<Rightarrow> step_go S spurious q p
      | Handle op \<Rightarrow> step_handle S q op p)"

text \<open>Executable also when the values are functions, which have no equality test.\<close>

lemma thread_step_code [code]:
  "thread_step S q p ch =
     (case ch of
        Start req \<Rightarrow> (case p of Idle \<Rightarrow> step_start S q req | _ \<Rightarrow> None)
      | Go spurious \<Rightarrow> step_go S spurious q p
      | Handle op \<Rightarrow> step_handle S q op p)"
  by (cases p) (simp_all add: thread_step_def split: choice.split)

record ('b, 'n, 'v, 's, 'r) state =
  shared :: "('b, 'n) queue"
  threads :: "('v, 's, 'r) pc list"

inductive sys_steps ::
    "('b, 's, 'n, 'v, 'c, 'r) sys \<Rightarrow> (('v, 'r) choice \<Rightarrow> bool) \<Rightarrow> ('b, 'n, 'v, 's, 'r) state \<Rightarrow>
     ('v, 's, 'c, 'r) event list \<Rightarrow> ('b, 'n, 'v, 's, 'r) state \<Rightarrow> bool"
  for S allowed c where
  start: "sys_steps S allowed c [] c"
| step: "sys_steps S allowed c tr c' \<Longrightarrow> t < length (threads c') \<Longrightarrow> allowed ch \<Longrightarrow>
    thread_step S (shared c') (threads c' ! t) ch = Some (Inr (q, p, ev)) \<Longrightarrow>
    sys_steps S allowed c (tr @ [ev]) \<lparr>shared = q, threads = (threads c')[t := p]\<rparr>"

text \<open>
  One interleaving, given as the list of the threads' choices; a choice that a thread cannot make is
  skipped.
\<close>

fun run_schedule ::
    "('b, 's, 'n, 'v, 'c, 'r) sys \<Rightarrow> (nat \<times> ('v, 'r) choice) list \<Rightarrow> ('b, 'n, 'v, 's, 'r) state \<Rightarrow>
     (('v, 's, 'c, 'r) event list \<times> ('b, 'n, 'v, 's, 'r) state) exec" where
  "run_schedule S [] c = Inr ([], c)"
| "run_schedule S ((t, ch) # sched) c =
     (if length (threads c) \<le> t then run_schedule S sched c
      else case thread_step S (shared c) (threads c ! t) ch of
        None \<Rightarrow> run_schedule S sched c
      | Some r \<Rightarrow> and_then r (\<lambda>(q, p, ev).
          and_then (run_schedule S sched \<lparr>shared = q, threads = (threads c)[t := p]\<rparr>)
            (\<lambda>(tr, c'). Inr (ev # tr, c'))))"

end
