(* ===== verification/Concurrent_Invariant.thy ===== *)
theory Concurrent_Invariant
  imports Queue_Concurrent
begin

text \<open>
  The invariant of the interleaved queue. A thread that has reserved a range of a buffer and not yet
  written it has a \<open>claim\<close> on that range: the map from its indices to the values that will be
  there. \<open>side\<close> says of a buffer that it will hold the list \<open>xs\<close> from index \<open>lo\<close> on: the
  claims are disjoint parts of it, and all the rest has been inserted. \<open>unacked_sum\<close> counts the
  reserved values that are not yet added to the buffer's length.

  \<open>enq_ok\<close> describes the enqueuing side and \<open>deq_ok\<close> the dequeuing side, for each program
  counter of the one thread that owns it (\<open>holder\<close>); it is stated over the numbers collected in
  \<open>dview\<close>, so that what other threads may do to them is one relation, \<open>dv_stable\<close>.
  \<open>conc_inv\<close> (in \<open>Concurrent_Safety\<close>) puts the pieces together.
\<close>

section \<open>Claims\<close>

definition claim :: "('v \<Rightarrow> 'c list) \<Rightarrow> nat \<Rightarrow> usize \<Rightarrow> ('v, 's, 'r) pc \<Rightarrow> (nat \<rightharpoonup> 'c)" where
  "claim content cap i p =
     (case p of Enq_Insert v w \<Rightarrow>
        if EC_buffer_index w = i then seg (cap - unat (EC_remaining_capacity w)) (content v)
        else Map.empty
      | _ \<Rightarrow> Map.empty)"

text \<open>Reserved values that are not yet acknowledged in the length of the buffer \<open>i\<close>.\<close>

definition unacked :: "('v \<Rightarrow> 'c list) \<Rightarrow> usize \<Rightarrow> ('v, 's, 'r) pc \<Rightarrow> nat" where
  "unacked content i p =
     (case p of
        Enq_Insert v w \<Rightarrow> if EC_buffer_index w = i then length (content v) else 0
      | Enq_Ack v w \<Rightarrow> if EC_buffer_index w = i then length (content v) else 0
      | _ \<Rightarrow> 0)"

definition unacked_sum :: "('v \<Rightarrow> 'c list) \<Rightarrow> usize \<Rightarrow> ('v, 's, 'r) pc list \<Rightarrow> nat" where
  "unacked_sum content i ps = sum_list (map (unacked content i) ps)"

definition claimed :: "(nat \<rightharpoonup> 'c) list \<Rightarrow> nat set" where
  "claimed cls = (\<Union>t \<in> {..<length cls}. dom (cls ! t))"

definition side :: "('b \<Rightarrow> (nat \<rightharpoonup> 'c) \<Rightarrow> bool) \<Rightarrow> 'b \<Rightarrow> (nat \<rightharpoonup> 'c) list \<Rightarrow> nat \<Rightarrow> 'c list \<Rightarrow> bool" where
  "side rep b cls lo xs \<longleftrightarrow>
     rep b (seg lo xs |` (- claimed cls)) \<and>
     (\<forall>t < length cls. cls ! t \<subseteq>\<^sub>m seg lo xs) \<and>
     (\<forall>t < length cls. \<forall>u < length cls. t \<noteq> u \<longrightarrow> dom (cls ! t) \<inter> dom (cls ! u) = {})"

lemma side_quiet:
  assumes "\<forall>t < length cls. cls ! t = Map.empty"
  shows "side rep b cls lo xs \<longleftrightarrow> rep b (seg lo xs)"
proof -
  have "claimed cls = {}"
    using assms by (simp add: claimed_def)
  then have "seg lo xs |` (- claimed cls) = seg lo xs"
    by (simp add: restrict_map_def)
  with assms show ?thesis
    by (simp add: side_def)
qed

lemma claimed_update:
  assumes "t < length cls" and "cls ! t = Map.empty"
  shows "claimed (cls[t := m]) = claimed cls \<union> dom m"
proof
  show "claimed (cls[t := m]) \<subseteq> claimed cls \<union> dom m"
  proof
    fix k assume "k \<in> claimed (cls[t := m])"
    then obtain u where "u < length cls" "k \<in> dom (cls[t := m] ! u)"
      by (auto simp: claimed_def)
    then show "k \<in> claimed cls \<union> dom m"
      by (cases "u = t") (auto simp: claimed_def)
  qed
  have "dom (cls ! u) \<subseteq> dom (cls[t := m] ! u)" if "u < length cls" for u
    using that assms by (cases "u = t") simp_all
  then show "claimed cls \<union> dom m \<subseteq> claimed (cls[t := m])"
    using assms unfolding claimed_def by (fastforce simp: nth_list_update)
qed

lemma side_reserve:
  assumes "side rep b cls 0 xs" and t: "t < length cls" "cls ! t = Map.empty"
  shows "side rep b (cls[t := seg (length xs) ys]) 0 (xs @ ys)"
proof -
  have sub: "cls ! u \<subseteq>\<^sub>m seg 0 xs" if "u < length cls" for u
    using assms(1) that by (simp add: side_def)
  have dom_u: "dom (cls ! u) \<subseteq> {0..<length xs}" if "u < length cls" for u
    using map_le_implies_dom_le [OF sub [OF that]] by simp
  have le: "seg 0 xs \<subseteq>\<^sub>m seg 0 (xs @ ys)" "seg (length xs) ys \<subseteq>\<^sub>m seg 0 (xs @ ys)"
    by (simp_all add: map_le_def) (simp_all add: seg_def nth_append)
  have "seg 0 (xs @ ys) |` (- (claimed cls \<union> dom (seg (length xs) ys))) = seg 0 xs |` (- claimed cls)"
    by (auto simp: restrict_map_def seg_def nth_append fun_eq_iff)
  moreover have "dom (seg (length xs) ys) \<inter> dom (cls ! u) = {}" if "u < length cls" for u
    using dom_u [OF that] unfolding dom_seg disjoint_iff by (meson atLeastLessThan_iff leD subsetD)
  moreover have "cls ! u \<subseteq>\<^sub>m seg 0 (xs @ ys)" if "u < length cls" for u
    using sub [OF that] le(1) map_le_trans by blast
  ultimately show ?thesis
    using assms le(2) unfolding side_def claimed_update [OF t]
    by (simp add: nth_list_update Int_commute)
qed

lemma side_insert:
  assumes "side rep b cls lo xs" and t: "t < length cls" "cls ! t = m"
  defines "held \<equiv> seg lo xs |` (- claimed cls)"
  shows "rep b held" and "dom m \<inter> dom held = {}"
    and "rep b' (held ++ m) \<Longrightarrow> side rep b' (cls[t := Map.empty]) lo xs"
proof -
  let ?cls = "cls[t := Map.empty]"
  show "rep b held"
    using assms(1) by (simp add: side_def held_def)
  have V: "claimed cls = claimed ?cls \<union> dom m"
    using claimed_update [of t ?cls m] t by auto
  then show "dom m \<inter> dom held = {}"
    by (auto simp: held_def)
  have sub: "m \<subseteq>\<^sub>m seg lo xs"
    using assms(1) t by (auto simp: side_def)
  have dis: "dom m \<inter> dom (?cls ! u) = {}" if "u < length cls" for u
  proof (cases "u = t")
    case False
    with assms(1) t that show ?thesis
      unfolding side_def by (metis nth_list_update_neq)
  qed (simp add: t)
  have "dom m \<inter> claimed ?cls = {}"
    using dis by (fastforce simp: claimed_def)
  then have "held ++ m = seg lo xs |` (- claimed ?cls)"
    using sub unfolding held_def V
    by (fastforce simp: map_add_def restrict_map_def map_le_def fun_eq_iff dom_def split: option.split)
  then show "side rep b' ?cls lo xs" if "rep b' (held ++ m)"
    using that assms(1) t unfolding side_def by (simp add: nth_list_update)
qed

section \<open>The dequeuing side\<close>

text \<open>
  The indices of the two buffers, the length, unacknowledged count, content and capacity of the
  dequeuing one, the capacity of the enqueuing one and the \<open>capacity\<close> field of the queue.
\<close>

record 'c dview =
  dv_index :: usize
  dv_enq :: usize
  dv_len :: usize
  dv_unacked :: nat
  dv_lo :: nat
  dv_xs :: "'c list"
  dv_cap :: usize
  dv_enq_cap :: usize
  dv_capacity :: usize

text \<open>
  \<open>settled\<close>: the content is the front of the abstract queue and the counts add up (some of it may
  have been drained, but only once everything is acknowledged). \<open>parked\<close>: it can be left like this
  when the lock is given back. \<open>quiet_front\<close>: everything is acknowledged, and \<open>r\<close> is the range
  of the front. \<open>prepared\<close>: the next buffer has been resized and filled, before the swap.
  \<open>swapped_ok\<close>: after the swap, with the replaced enqueuing word still at hand.
\<close>

definition settled :: "'c dview \<Rightarrow> 'c aqueue \<Rightarrow> bool" where
  "settled dv A \<longleftrightarrow>
     dv_xs dv = aq_front A \<and>
     unat (dv_len dv) + dv_unacked dv = dv_lo dv + length (dv_xs dv) \<and>
     (dv_unacked dv = 0 \<or> dv_lo dv = 0) \<and>
     unat (dv_cap dv) = aq_other A \<and>
     dv_lo dv + length (dv_xs dv) \<le> aq_other A"

definition parked :: "'c dview \<Rightarrow> 'c aqueue \<Rightarrow> bool" where
  "parked dv A \<longleftrightarrow> settled dv A \<and> (aq_front A = [] \<longrightarrow> dv_len dv = 0)"

definition quiet_front :: "'c dview \<Rightarrow> 'c aqueue \<Rightarrow> usize \<Rightarrow> range \<Rightarrow> bool" where
  "quiet_front dv A i r \<longleftrightarrow>
     settled dv A \<and> dv_unacked dv = 0 \<and> i = dv_index dv \<and> dv_len dv \<noteq> 0 \<and>
     r = (dv_len dv - of_nat (length (aq_front A)), dv_len dv)"

definition inserted_opt :: "('r \<Rightarrow> 'c list) \<Rightarrow> 'r option \<Rightarrow> 'c list" where
  "inserted_opt ins r = (case r of None \<Rightarrow> [] | Some x \<Rightarrow> ins x)"

definition prepared ::
    "('r \<Rightarrow> 'c list) \<Rightarrow> 'c dview \<Rightarrow> 'c aqueue \<Rightarrow> 'r option \<Rightarrow> usize \<Rightarrow> bool \<Rightarrow> usize \<Rightarrow> bool" where
  "prepared inserted dv A r nc rs ins \<longleftrightarrow>
     aq_front A = [] \<and> dv_lo dv = 0 \<and> dv_unacked dv = 0 \<and>
     dv_xs dv = inserted_opt inserted r \<and> unat ins = length (dv_xs dv) \<and>
     nc = dv_cap dv \<and> length (dv_xs dv) \<le> unat nc \<and> (\<not> rs \<longrightarrow> unat nc = aq_other A)"

definition swapped_ok :: "'c dview \<Rightarrow> 'c aqueue \<Rightarrow> bool \<Rightarrow> usize \<Rightarrow> usize \<Rightarrow> usize \<Rightarrow> bool" where
  "swapped_ok dv A rs ins capa enq \<longleftrightarrow>
     parked dv A \<and> EC_buffer_index enq = dv_index dv \<and>
     unat (EC_remaining_capacity enq) + length (aq_front A) = unat capa \<and>
     (aq_front A = [] \<and> ins = 0 \<longrightarrow> rs)"

primrec deq_ok ::
    "('c \<Rightarrow> 'd) \<Rightarrow> ('s \<Rightarrow> 'd list) \<Rightarrow> ('r \<Rightarrow> 'c list) \<Rightarrow> 'c dview \<Rightarrow> 'c aqueue \<Rightarrow>
     ('v, 's, 'r) pc \<Rightarrow> bool" where
  "deq_ok img view inserted dv A (Deq_Open w r) =
     (parked dv A \<and> w = DL_new (dv_index dv) (of_nat (length (aq_front A))))"
| "deq_ok img view inserted dv A (Deq_Add w r nc rs ins) =
     (prepared inserted dv A r nc rs ins \<and> w = DL_new (dv_index dv) 0 \<and> dv_len dv = 0)"
| "deq_ok img view inserted dv A (Deq_Load w r nc rs ins) =
     (prepared inserted dv A r nc rs ins \<and> w = DL_new (dv_index dv) 0 \<and> dv_len dv = ins)"
| "deq_ok img view inserted dv A (Deq_Check w r nc rs ins enq) =
     (prepared inserted dv A r nc rs ins \<and> w = DL_new (dv_index dv) 0 \<and> dv_len dv = ins \<and>
      EC_buffer_index enq = dv_enq dv \<and>
      (EC_remaining_capacity enq \<noteq> dv_enq_cap dv \<longrightarrow> aq_back A \<noteq> []))"
| "deq_ok img view inserted dv A (Deq_Swap r nc rs ins capa enq ne) =
     (prepared inserted dv A r nc rs ins \<and> dv_len dv = ins \<and> EC_buffer_index enq = dv_enq dv \<and>
      capa = dv_enq_cap dv \<and> ne = EC_pack (dv_index dv) (nc - ins) \<and>
      (rs \<or> ins \<noteq> 0 \<or> aq_back A \<noteq> []))"
| "deq_ok img view inserted dv A (Deq_Capacity nc rs ins capa enq) = swapped_ok dv A rs ins capa enq"
| "deq_ok img view inserted dv A (Deq_Notify rs ins capa enq) = swapped_ok dv A rs ins capa enq"
| "deq_ok img view inserted dv A (Deq_Spin k i len) =
     (parked dv A \<and> i = dv_index dv \<and> len = of_nat (length (aq_front A)) \<and> aq_front A \<noteq> [])"
| "deq_ok img view inserted dv A (Deq_Slice i len n) =
     (quiet_front dv A i (n - len, n) \<and> len = of_nat (length (aq_front A)) \<and> aq_front A \<noteq> [])"
| "deq_ok img view inserted dv A (Deq_Store w e) =
     (parked dv A \<and> w = DL_new (dv_index dv) (of_nat (length (aq_front A))))"
| "deq_ok img view inserted dv A (Holding s) =
     (quiet_front dv A (slice_buffer_index s) (slice_range s) \<and> view (slice_slice s) = map img (aq_front A))"
| "deq_ok img view inserted dv A (Iterating it) = quiet_front dv A (iter_buffer_index it) (iter_range it)"
| "deq_ok img view inserted dv A (Rel_Clear i r) =
     (i = dv_index dv \<and> aq_front A = [] \<and> dv_unacked dv = 0 \<and> unat (fst r) = dv_lo dv \<and>
      unat (snd r) = dv_lo dv + length (dv_xs dv) \<and> snd r \<le> dv_cap dv \<and> unat (dv_cap dv) = aq_other A)"
| "deq_ok img view inserted dv A (Rel_Len i) =
     (i = dv_index dv \<and> aq_front A = [] \<and> dv_xs dv = [] \<and> dv_unacked dv = 0 \<and>
      unat (dv_cap dv) = aq_other A)"
| "deq_ok img view inserted dv A (Rel_Unlock i) =
     (i = dv_index dv \<and> aq_front A = [] \<and> dv_xs dv = [] \<and> dv_unacked dv = 0 \<and>
      unat (dv_cap dv) = aq_other A \<and> dv_len dv = 0 \<and> dv_lo dv = 0)"
| "deq_ok img view inserted dv A Idle = False"
| "deq_ok img view inserted dv A (Enq_Load v) = False"
| "deq_ok img view inserted dv A (Enq_Cas v w) = False"
| "deq_ok img view inserted dv A (Enq_Insert v w) = False"
| "deq_ok img view inserted dv A (Enq_Ack v w) = False"
| "deq_ok img view inserted dv A Enq_Notify = False"
| "deq_ok img view inserted dv A (Deq_Lock r) = False"
| "deq_ok img view inserted dv A Close_Flag = False"
| "deq_ok img view inserted dv A Close_Dequeue = False"
| "deq_ok img view inserted dv A Close_Enqueue = False"
| "deq_ok img view inserted dv A Reopen_Flag = False"

text \<open>What the steps of other threads may change while one thread owns the dequeuing side.\<close>

definition dv_stable :: "'c dview \<Rightarrow> 'c aqueue \<Rightarrow> 'c dview \<Rightarrow> 'c aqueue \<Rightarrow> bool" where
  "dv_stable dv A dv' A' \<longleftrightarrow>
     dv_index dv' = dv_index dv \<and> dv_enq dv' = dv_enq dv \<and> dv_lo dv' = dv_lo dv \<and>
     dv_xs dv' = dv_xs dv \<and> dv_cap dv' = dv_cap dv \<and> dv_enq_cap dv' = dv_enq_cap dv \<and>
     dv_capacity dv' = dv_capacity dv \<and>
     unat (dv_len dv') + dv_unacked dv' = unat (dv_len dv) + dv_unacked dv \<and>
     (dv_unacked dv = 0 \<longrightarrow> dv_len dv' = dv_len dv) \<and>
     aq_front A' = aq_front A \<and> aq_other A' = aq_other A \<and> (aq_back A \<noteq> [] \<longrightarrow> aq_back A' \<noteq> [])"

lemma stable_unacked: "dv_stable dv A dv' A' \<Longrightarrow> dv_unacked dv = 0 \<Longrightarrow> dv_unacked dv' = 0"
  by (auto simp: dv_stable_def)

lemma settled_stable: "dv_stable dv A dv' A' \<Longrightarrow> settled dv A \<Longrightarrow> settled dv' A'"
  by (auto simp: dv_stable_def settled_def)

lemma parked_stable: "dv_stable dv A dv' A' \<Longrightarrow> parked dv A \<Longrightarrow> parked dv' A'"
  using settled_stable [of dv A dv' A'] unfolding parked_def
  by (auto simp: dv_stable_def settled_def)

lemma quiet_front_stable: "dv_stable dv A dv' A' \<Longrightarrow> quiet_front dv A i r \<Longrightarrow> quiet_front dv' A' i r"
  using settled_stable [of dv A dv' A'] stable_unacked [of dv A dv' A']
  unfolding quiet_front_def by (auto simp: dv_stable_def)

lemma prepared_stable:
  "dv_stable dv A dv' A' \<Longrightarrow> prepared f dv A r nc rs ins \<Longrightarrow>
   prepared f dv' A' r nc rs ins \<and> dv_len dv' = dv_len dv"
  unfolding prepared_def by (auto simp: dv_stable_def)

lemma swapped_ok_stable:
  "dv_stable dv A dv' A' \<Longrightarrow> swapped_ok dv A rs ins capa enq \<Longrightarrow> swapped_ok dv' A' rs ins capa enq"
  using parked_stable [of dv A dv' A'] unfolding swapped_ok_def by (auto simp: dv_stable_def)

lemma deq_ok_stable:
  assumes st: "dv_stable dv A dv' A'" and "deq_ok img view inserted dv A p"
  shows "deq_ok img view inserted dv' A' p"
proof -
  note fields = st [unfolded dv_stable_def]
  show ?thesis
    using assms(2) fields
    by (cases p) (auto dest: parked_stable [OF st] quiet_front_stable [OF st] prepared_stable [OF st]
        swapped_ok_stable [OF st])
qed

section \<open>The invariant\<close>

definition is_dequeuing :: "('v, 's, 'r) pc \<Rightarrow> bool" where
  "is_dequeuing p =
     (case p of Idle \<Rightarrow> False | Enq_Load _ \<Rightarrow> False | Enq_Cas _ _ \<Rightarrow> False | Enq_Insert _ _ \<Rightarrow> False
      | Enq_Ack _ _ \<Rightarrow> False | Enq_Notify \<Rightarrow> False | Deq_Lock _ \<Rightarrow> False | Close_Flag \<Rightarrow> False
      | Close_Dequeue \<Rightarrow> False | Close_Enqueue \<Rightarrow> False | Reopen_Flag \<Rightarrow> False | _ \<Rightarrow> True)"

definition pc_honest ::
    "('v \<Rightarrow> bool) \<Rightarrow> ('v \<Rightarrow> 'c list) \<Rightarrow> ('r \<Rightarrow> bool) \<Rightarrow> ('v, 's, 'r) pc \<Rightarrow> bool" where
  "pc_honest honest content good p =
     (let ok = (\<lambda>v. honest v \<and> content v \<noteq> [] \<and> length (content v) < 9223372036854775808) in
      case p of Enq_Load v \<Rightarrow> ok v | Enq_Cas v _ \<Rightarrow> ok v | Enq_Insert v _ \<Rightarrow> ok v | Enq_Ack v _ \<Rightarrow> ok v
      | Deq_Lock r \<Rightarrow> pred_option good r | Deq_Open _ r \<Rightarrow> pred_option good r | _ \<Rightarrow> True)"

definition claims ::
    "('b, 's) buffer_trait \<Rightarrow> ('v \<Rightarrow> 'c list) \<Rightarrow> ('b, 'n) queue \<Rightarrow> usize \<Rightarrow> ('v, 's, 'r) pc list \<Rightarrow>
     (nat \<rightharpoonup> 'c) list" where
  "claims B content q i ps =
     map (claim content (unat (buf_capacity B (two_get (buffers q) i))) i) ps"

definition enq_ok ::
    "('b, 's) buffer_trait \<Rightarrow> ('b \<Rightarrow> (nat \<rightharpoonup> 'c) \<Rightarrow> bool) \<Rightarrow> ('v \<Rightarrow> 'c list) \<Rightarrow> ('b, 'n) queue \<Rightarrow>
     ('v, 's, 'r) pc list \<Rightarrow> 'c aqueue \<Rightarrow> bool" where
  "enq_ok B rep content q ps A \<longleftrightarrow>
     (let w = enqueuing_capacity q; e = enq_index q; b = two_get (buffers q) e in
      EC_is_closed w = aq_closed A \<and>
      unat (buf_capacity B b) = aq_capacity A \<and>
      length (aq_back A) \<le> aq_capacity A \<and>
      unat (EC_remaining_capacity w) = aq_capacity A - length (aq_back A) \<and>
      unat (two_get (buffers_length q) e) + unacked_sum content e ps = length (aq_back A) \<and>
      side rep b (claims B content q e ps) 0 (aq_back A))"

definition dview_of ::
    "('b, 's) buffer_trait \<Rightarrow> ('v \<Rightarrow> 'c list) \<Rightarrow> ('b, 'n) queue \<Rightarrow> ('v, 's, 'r) pc list \<Rightarrow> nat \<Rightarrow> 'c list \<Rightarrow>
     'c dview" where
  "dview_of B content q ps lo xs =
     \<lparr>dv_index = deq_index q, dv_enq = enq_index q,
      dv_len = two_get (buffers_length q) (deq_index q),
      dv_unacked = unacked_sum content (deq_index q) ps, dv_lo = lo, dv_xs = xs,
      dv_cap = buf_capacity B (two_get (buffers q) (deq_index q)),
      dv_enq_cap = buf_capacity B (two_get (buffers q) (enq_index q)),
      dv_capacity = capacity q\<rparr>"

text \<open>
  The owner of the dequeuing side: the one dequeuing thread when the dequeuing word is locked, and
  otherwise whoever will lock it next, seen as just having done so.
\<close>

definition holder :: "usize \<Rightarrow> ('v, 's, 'r) pc list \<Rightarrow> ('v, 's, 'r) pc \<Rightarrow> bool" where
  "holder w ps p \<longleftrightarrow>
     filter is_dequeuing ps = [] \<and> p = Deq_Open w None \<or>
     filter is_dequeuing ps = [p] \<and> w = DEQUEUING_LOCKED"

definition cap_ok :: "'c dview \<Rightarrow> ('v, 's, 'r) pc \<Rightarrow> bool" where
  "cap_ok dv p =
     (case p of Deq_Capacity nc _ _ _ _ \<Rightarrow> nc = dv_enq_cap dv | _ \<Rightarrow> dv_capacity dv = dv_enq_cap dv)"

definition small :: "('b, 's) buffer_trait \<Rightarrow> ('b, 'n) queue \<Rightarrow> bool" where
  "small B q \<longleftrightarrow> (\<forall>i. unat (buf_capacity B (two_get (buffers q) i)) < 4611686018427387903)"

section \<open>Updating one thread\<close>

lemma filter_update:
  assumes "t < length ps"
  shows "\<not> P (ps ! t) \<Longrightarrow> \<not> P p \<Longrightarrow> filter P (ps[t := p]) = filter P ps"
    and "filter P ps = [] \<Longrightarrow> P p \<Longrightarrow> filter P (ps[t := p]) = [p]"
    and "filter P ps = [h] \<Longrightarrow> P (ps ! t) \<Longrightarrow> ps ! t = h \<and> filter P (ps[t := p]) = (if P p then [p] else [])"
proof -
  have ps: "ps = take t ps @ ps ! t # drop (Suc t) ps"
    using assms by (simp add: id_take_nth_drop)
  have upd: "ps[t := p] = take t ps @ p # drop (Suc t) ps"
    using assms by (simp add: upd_conv_take_nth_drop)
  have split: "filter P ps = filter P (take t ps) @ filter P [ps ! t] @ filter P (drop (Suc t) ps)"
    by (subst ps) (simp only: filter_append filter.simps append.simps split: if_split, simp)
  then show "\<not> P (ps ! t) \<Longrightarrow> \<not> P p \<Longrightarrow> filter P (ps[t := p]) = filter P ps"
    by (simp add: upd)
  show "filter P ps = [] \<Longrightarrow> P p \<Longrightarrow> filter P (ps[t := p]) = [p]"
    using split by (simp add: upd)
  show "filter P ps = [h] \<Longrightarrow> P (ps ! t) \<Longrightarrow>
      ps ! t = h \<and> filter P (ps[t := p]) = (if P p then [p] else [])"
    using split by (simp add: upd append_eq_Cons_conv)
qed

lemma unacked_sum_update:
  assumes "t < length ps"
  shows "unacked_sum content i (ps[t := p]) + unacked content i (ps ! t) =
    unacked_sum content i ps + unacked content i p"
proof -
  have ps: "ps = take t ps @ ps ! t # drop (Suc t) ps"
    using assms by (simp add: id_take_nth_drop)
  have "unacked_sum content i ps = unacked_sum content i (take t ps) + unacked content i (ps ! t) +
      unacked_sum content i (drop (Suc t) ps)"
    by (subst ps) (simp add: unacked_sum_def)
  moreover have "unacked_sum content i (ps[t := p]) = unacked_sum content i (take t ps) +
      unacked content i p + unacked_sum content i (drop (Suc t) ps)"
    using assms by (simp add: upd_conv_take_nth_drop unacked_sum_def)
  ultimately show ?thesis by simp
qed

lemma claims_update:
  "claims B content q i (ps[t := p]) =
   (claims B content q i ps)[t := claim content (unat (buf_capacity B (two_get (buffers q) i))) i p]"
  by (simp add: claims_def map_update)

lemma claims_length [simp]: "length (claims B content q i ps) = length ps"
  by (simp add: claims_def)

lemma claims_nth:
  "t < length ps \<Longrightarrow> claims B content q i ps ! t =
   claim content (unat (buf_capacity B (two_get (buffers q) i))) i (ps ! t)"
  by (simp add: claims_def)

lemma unacked_le: "t < length ps \<Longrightarrow> unacked content i (ps ! t) \<le> unacked_sum content i ps"
  unfolding unacked_sum_def by (rule member_le_sum_list) simp_all

lemma claims_quiet:
  assumes "unacked_sum content i ps = 0" and "t < length (claims B content q i ps)"
  shows "claims B content q i ps ! t = Map.empty"
proof -
  have t: "t < length ps"
    using assms(2) by simp
  with assms(1) unacked_le [OF t, of content i] have "unacked content i (ps ! t) = 0"
    by simp
  then show ?thesis
    by (auto simp: claims_nth [OF t] claim_def unacked_def split: pc.splits)
qed

lemma side_acked:
  "unacked_sum content i ps = 0 \<Longrightarrow>
   side rep b (claims B content q i ps) lo xs \<longleftrightarrow> rep b (seg lo xs)"
  by (rule side_quiet) (use claims_quiet in blast)

text \<open>A thread without a claim, before and after.\<close>

definition unclaiming :: "('v, 's, 'r) pc \<Rightarrow> bool" where
  "unclaiming p = (case p of Enq_Insert _ _ \<Rightarrow> False | Enq_Ack _ _ \<Rightarrow> False | _ \<Rightarrow> True)"

lemma unclaiming_simps:
  assumes "unclaiming p"
  shows "claim content n i p = Map.empty" and "unacked content i p = 0"
  using assms by (auto simp: unclaiming_def claim_def unacked_def split: pc.splits)

lemma unclaiming_update:
  assumes "t < length ps" and "unclaiming (ps ! t)" and "unclaiming p"
  shows "claims B content q i (ps[t := p]) = claims B content q i ps"
    and "unacked_sum content i (ps[t := p]) = unacked_sum content i ps"
proof -
  show "claims B content q i (ps[t := p]) = claims B content q i ps"
    unfolding claims_update using assms
    by (simp add: unclaiming_simps list_update_same_conv claims_nth)
  show "unacked_sum content i (ps[t := p]) = unacked_sum content i ps"
    using unacked_sum_update [OF assms(1), of content i p] assms by (simp add: unclaiming_simps)
qed

lemma dequeuing_unclaiming: "is_dequeuing p \<Longrightarrow> unclaiming p"
  by (cases p) (simp_all add: is_dequeuing_def unclaiming_def)

lemma deq_ok_dequeuing: "deq_ok img view inserted dv A p \<Longrightarrow> is_dequeuing p"
  by (cases p) (simp_all add: is_dequeuing_def)

end
