(* ===== verification/Concurrent_Enqueue.thy ===== *)
theory Concurrent_Enqueue
  imports Concurrent_Invariant
begin

text \<open>
  The whole invariant (\<open>inv_at\<close>), how it is kept when one thread moves (\<open>other_step\<close> for the
  threads that do not own the dequeuing side, \<open>own_step\<close> for the one that does), the interface
  \<open>conc_system\<close> that a buffer with its closures and removal has to meet, and the steps of
  \<open>try_enqueue\<close>: reserving, inserting and acknowledging keep the invariant and do not fault.
\<close>

section \<open>The whole invariant\<close>

lemma index_update [simp]:
  "enq_index (q\<lparr>dequeuing_length := w\<rparr>) = enq_index q"
  "enq_index (q\<lparr>buffers := bs\<rparr>) = enq_index q"
  "enq_index (q\<lparr>buffers_length := ns\<rparr>) = enq_index q"
  "enq_index (q\<lparr>capacity := c\<rparr>) = enq_index q"
  "enq_index (q\<lparr>notify := n\<rparr>) = enq_index q"
  "deq_index (q\<lparr>dequeuing_length := w\<rparr>) = deq_index q"
  "deq_index (q\<lparr>buffers := bs\<rparr>) = deq_index q"
  "deq_index (q\<lparr>buffers_length := ns\<rparr>) = deq_index q"
  "deq_index (q\<lparr>capacity := c\<rparr>) = deq_index q"
  "deq_index (q\<lparr>notify := n\<rparr>) = deq_index q"
  by (simp_all add: enq_index_def deq_index_def)

text \<open>The subtraction that gives the index of an insertion does not underflow.\<close>

definition in_bounds :: "('b, 's) buffer_trait \<Rightarrow> ('b, 'n) queue \<Rightarrow> ('v, 's, 'r) pc \<Rightarrow> bool" where
  "in_bounds B q p =
     (case p of Enq_Insert v w \<Rightarrow>
        EC_remaining_capacity w \<le> buf_capacity B (two_get (buffers q) (EC_buffer_index w))
      | _ \<Rightarrow> True)"

text \<open>
  The invariant, for the ghost values \<open>A\<close> (the abstract queue), \<open>lo\<close> and \<open>xs\<close> (where the
  content of the dequeuing buffer starts and what it is) and \<open>h\<close> (the owner of that side).
\<close>

definition inv_at ::
    "('b, 's) buffer_trait \<Rightarrow> ('b \<Rightarrow> (nat \<rightharpoonup> 'c) \<Rightarrow> bool) \<Rightarrow> ('c \<Rightarrow> 'd) \<Rightarrow> ('s \<Rightarrow> 'd list) \<Rightarrow>
     ('v \<Rightarrow> bool) \<Rightarrow> ('v \<Rightarrow> 'c list) \<Rightarrow> ('r \<Rightarrow> bool) \<Rightarrow> ('r \<Rightarrow> 'c list) \<Rightarrow>
     ('b, 'n) queue \<Rightarrow> ('v, 's, 'r) pc list \<Rightarrow> 'c aqueue \<Rightarrow> nat \<Rightarrow> 'c list \<Rightarrow> ('v, 's, 'r) pc \<Rightarrow> bool" where
  "inv_at B rep img view honest content good inserted q ps A lo xs h \<longleftrightarrow>
     small B q \<and> enq_ok B rep content q ps A \<and>
     side rep (two_get (buffers q) (deq_index q)) (claims B content q (deq_index q) ps) lo xs \<and>
     (\<forall>t < length ps. pc_honest honest content good (ps ! t) \<and> in_bounds B q (ps ! t)) \<and>
     holder (dequeuing_length q) ps h \<and>
     deq_ok img view inserted (dview_of B content q ps lo xs) A h \<and>
     cap_ok (dview_of B content q ps lo xs) h"

text \<open>What a step that shows \<open>ev\<close> does to the values of the abstract queue.\<close>

definition abs_step ::
    "('c \<Rightarrow> 'd) \<Rightarrow> ('s \<Rightarrow> 'd list) \<Rightarrow> ('v \<Rightarrow> 'c list) \<Rightarrow> ('r \<Rightarrow> 'c list) \<Rightarrow> ('v, 's, 'c, 'r) event \<Rightarrow>
     'c aqueue \<Rightarrow> 'c aqueue \<Rightarrow> bool" where
  "abs_step img view content inserted ev A A' =
     (case ev of
        Ev_Reserved v \<Rightarrow> aq_front A' = aq_front A \<and> aq_back A' = aq_back A @ content v
      | Ev_Swapped r \<Rightarrow> aq_front A = [] \<and> aq_front A' = aq_back A \<and> aq_back A' = inserted_opt inserted r
      | Ev_Sliced s \<Rightarrow> view s = map img (aq_front A) \<and> aq_front A' = aq_front A \<and> aq_back A' = aq_back A
      | Ev_Released s \<Rightarrow> view s = map img (aq_front A) \<and> aq_front A' = [] \<and> aq_back A' = aq_back A
      | Ev_Removed x \<Rightarrow> aq_front A = x # aq_front A' \<and> aq_back A' = aq_back A
      | _ \<Rightarrow> aq_front A' = aq_front A \<and> aq_back A' = aq_back A)"

section \<open>Frame lemmas\<close>

definition same_caps :: "('b, 's) buffer_trait \<Rightarrow> ('b, 'n) queue \<Rightarrow> ('b, 'n) queue \<Rightarrow> bool" where
  "same_caps B q q' \<longleftrightarrow>
     (\<forall>i. buf_capacity B (two_get (buffers q') i) = buf_capacity B (two_get (buffers q) i))"

lemma same_caps_simps:
  assumes "same_caps B q q'"
  shows "small B q' = small B q" and "in_bounds B q' p = in_bounds B q p"
    and "claims B content q' i ps = claims B content q i ps"
    and "buf_capacity B (two_get (buffers q') i) = buf_capacity B (two_get (buffers q) i)"
  using assms by (simp_all add: same_caps_def small_def in_bounds_def claims_def cong: pc.case_cong)

lemma same_capsI: "buffers q' = buffers q \<Longrightarrow> same_caps B q q'"
  by (simp add: same_caps_def)

lemma same_caps_set:
  "buffers q' = two_set (buffers q) i b \<Longrightarrow>
   buf_capacity B b = buf_capacity B (two_get (buffers q) i) \<Longrightarrow> same_caps B q q'"
  by (auto simp: same_caps_def two_get_def two_set_def)

lemma pcs_fine_update:
  assumes "t < length ps"
    and "\<forall>t < length ps. pc_honest honest content good (ps ! t) \<and> in_bounds B q (ps ! t)"
    and "same_caps B q q'" and "pc_honest honest content good p \<and> in_bounds B q' p"
  shows "\<forall>u < length (ps[t := p]).
    pc_honest honest content good (ps[t := p] ! u) \<and> in_bounds B q' (ps[t := p] ! u)"
  using assms by (simp add: nth_list_update same_caps_simps(2))

lemma cap_ok_stable: "dv_stable dv A dv' A' \<Longrightarrow> cap_ok dv p \<Longrightarrow> cap_ok dv' p"
  by (cases p) (auto simp: cap_ok_def dv_stable_def)

lemma dview_of_simps [simp]:
  "dv_index (dview_of B content q ps lo xs) = deq_index q"
  "dv_enq (dview_of B content q ps lo xs) = enq_index q"
  "dv_len (dview_of B content q ps lo xs) = two_get (buffers_length q) (deq_index q)"
  "dv_unacked (dview_of B content q ps lo xs) = unacked_sum content (deq_index q) ps"
  "dv_lo (dview_of B content q ps lo xs) = lo"
  "dv_xs (dview_of B content q ps lo xs) = xs"
  "dv_cap (dview_of B content q ps lo xs) = buf_capacity B (two_get (buffers q) (deq_index q))"
  "dv_enq_cap (dview_of B content q ps lo xs) = buf_capacity B (two_get (buffers q) (enq_index q))"
  "dv_capacity (dview_of B content q ps lo xs) = capacity q"
  by (simp_all add: dview_of_def)

text \<open>A step of a thread that does not own the dequeuing side.\<close>

lemma other_step:
  assumes inv: "inv_at B rep img view honest content good inserted q ps A lo xs h"
    and t: "t < length ps" "\<not> is_dequeuing (ps ! t)" "\<not> is_dequeuing p"
    and p: "pc_honest honest content good p \<and> in_bounds B q' p"
    and q': "dequeuing_length q' = dequeuing_length q" "same_caps B q q'" "enq_ok B rep content q' (ps[t := p]) A'"
      "side rep (two_get (buffers q') (deq_index q')) (claims B content q' (deq_index q') (ps[t := p])) lo xs"
    and st: "dv_stable (dview_of B content q ps lo xs) A (dview_of B content q' (ps[t := p]) lo xs) A'"
  shows "inv_at B rep img view honest content good inserted q' (ps[t := p]) A' lo xs h"
proof -
  have "holder (dequeuing_length q') (ps[t := p]) h"
    using inv filter_update(1) [where P = is_dequeuing, OF t(1,2,3)] q'(1) by (simp add: inv_at_def holder_def)
  then show ?thesis
    using inv q' pcs_fine_update [OF t(1) _ q'(2) p] same_caps_simps(1) [OF q'(2)] deq_ok_stable [OF st, of img view inserted h]
      cap_ok_stable [OF st, of h]
    unfolding inv_at_def by simp
qed

lemma silent_step:
  fixes q q' :: "('b, 'n) queue"
  assumes inv: "inv_at B rep img view honest content good inserted q ps A lo xs h"
    and t: "t < length ps" "\<not> is_dequeuing (ps ! t)" "\<not> is_dequeuing p"
    and u: "unclaiming (ps ! t)" "unclaiming p"
    and p: "pc_honest honest content good p"
    and q': "dequeuing_length q' = dequeuing_length q" "buffers q' = buffers q"
      "buffers_length q' = buffers_length q" "capacity q' = capacity q"
      "EC_buffer_index (enqueuing_capacity q') = EC_buffer_index (enqueuing_capacity q)"
      "EC_remaining_capacity (enqueuing_capacity q') = EC_remaining_capacity (enqueuing_capacity q)"
    and A': "A' = A\<lparr>aq_closed := EC_is_closed (enqueuing_capacity q')\<rparr>"
  shows "inv_at B rep img view honest content good inserted q' (ps[t := p]) A' lo xs h"
proof (rule other_step [OF inv t _ q'(1)])
  show "pc_honest honest content good p \<and> in_bounds B q' p"
    using p u(2) by (auto simp: in_bounds_def unclaiming_def split: pc.splits)
  have i: "enq_index q' = enq_index q" "deq_index q' = deq_index q"
    using q'(5) by (simp_all add: enq_index_def deq_index_def)
  have cl: "claims B content q' i (ps[t := p]) = claims B content q i ps" for i
    using unclaiming_update(1) [OF t(1) u] q'(2) by (simp add: claims_def)
  note un = unclaiming_update(2) [OF t(1) u, of content]
  show "same_caps B q q'"
    using q'(2) by (rule same_capsI)
  show "enq_ok B rep content q' (ps[t := p]) A'"
    and "side rep (two_get (buffers q') (deq_index q')) (claims B content q' (deq_index q') (ps[t := p])) lo xs"
    using inv q' by (simp_all add: inv_at_def enq_ok_def Let_def i cl un A')
  show "dv_stable (dview_of B content q ps lo xs) A (dview_of B content q' (ps[t := p]) lo xs) A'"
    using q' by (simp add: dv_stable_def dview_of_def i un A')
qed

lemma pc_honest_simps [simp]:
  "pc_honest honest content good Idle"
  "pc_honest honest content good (Enq_Load v) =
     (honest v \<and> content v \<noteq> [] \<and> length (content v) < 9223372036854775808)"
  "pc_honest honest content good (Enq_Cas v w) =
     (honest v \<and> content v \<noteq> [] \<and> length (content v) < 9223372036854775808)"
  "pc_honest honest content good (Enq_Insert v w) =
     (honest v \<and> content v \<noteq> [] \<and> length (content v) < 9223372036854775808)"
  "pc_honest honest content good (Enq_Ack v w) =
     (honest v \<and> content v \<noteq> [] \<and> length (content v) < 9223372036854775808)"
  "pc_honest honest content good Enq_Notify"
  "pc_honest honest content good (Deq_Lock r) = pred_option good r"
  "pc_honest honest content good (Deq_Open w r) = pred_option good r"
  by (simp_all add: pc_honest_def)

lemma enq_okD:
  assumes "enq_ok B rep content q ps A"
  shows "EC_is_closed (enqueuing_capacity q) = aq_closed A"
    and "unat (buf_capacity B (two_get (buffers q) (enq_index q))) = aq_capacity A"
    and "length (aq_back A) \<le> aq_capacity A"
    and "unat (EC_remaining_capacity (enqueuing_capacity q)) = aq_capacity A - length (aq_back A)"
    and "unat (two_get (buffers_length q) (enq_index q)) + unacked_sum content (enq_index q) ps =
      length (aq_back A)"
    and "side rep (two_get (buffers q) (enq_index q)) (claims B content q (enq_index q) ps) 0 (aq_back A)"
  using assms by (simp_all add: enq_ok_def Let_def)

lemma inv_atD:
  assumes "inv_at B rep img view honest content good inserted q ps A lo xs h"
  shows "small B q" and "enq_ok B rep content q ps A"
    and "side rep (two_get (buffers q) (deq_index q)) (claims B content q (deq_index q) ps) lo xs"
    and "\<And>t. t < length ps \<Longrightarrow> pc_honest honest content good (ps ! t) \<and> in_bounds B q (ps ! t)"
    and "holder (dequeuing_length q) ps h"
    and "deq_ok img view inserted (dview_of B content q ps lo xs) A h"
    and "cap_ok (dview_of B content q ps lo xs) h"
  using assms by (simp_all add: inv_at_def)

lemma deq_ok_bound:
  "deq_ok img view inserted dv A p \<Longrightarrow> dv_unacked dv \<noteq> 0 \<Longrightarrow>
   dv_lo dv + length (dv_xs dv) \<le> unat (dv_cap dv)"
  by (cases p) (auto simp: parked_def settled_def quiet_front_def prepared_def swapped_ok_def)

lemma deq_ok_count:
  "deq_ok img view inserted dv A p \<Longrightarrow> dv_unacked dv \<noteq> 0 \<Longrightarrow>
   unat (dv_len dv) + dv_unacked dv = dv_lo dv + length (dv_xs dv)"
  by (cases p) (auto simp: parked_def settled_def quiet_front_def prepared_def swapped_ok_def)

lemma index_cases: "EC_buffer_index w = enq_index q \<or> EC_buffer_index w = deq_index q"
  using EC_buffer_index_cases [of w] enq_index_cases [of q] by (auto simp: deq_index_def flip_def)

lemma enq_neq_deq: "enq_index q \<noteq> deq_index q"
  using deq_index_neq [of q] by auto

lemma owner:
  assumes inv: "inv_at B rep img view honest content good inserted q ps A lo xs h"
    and t: "t < length ps" "is_dequeuing (ps ! t)"
  shows "h = ps ! t" and "dequeuing_length q = DEQUEUING_LOCKED"
    and "filter is_dequeuing ps = [ps ! t]"
proof -
  have mem: "ps ! t \<in> set (filter is_dequeuing ps)"
    using t by simp
  have "filter is_dequeuing ps = [h] \<and> dequeuing_length q = DEQUEUING_LOCKED"
    using inv_atD(5) [OF inv] mem by (simp only: holder_def) fastforce
  moreover from this mem have "h = ps ! t"
    by (simp del: filter_eq_Cons_iff set_filter)
  ultimately show "h = ps ! t" and "dequeuing_length q = DEQUEUING_LOCKED"
    and "filter is_dequeuing ps = [ps ! t]"
    by simp_all
qed

lemma own_step:
  fixes q q' :: "('b, 'n) queue"
  assumes inv: "inv_at B rep img view honest content good inserted q ps A lo xs h"
    and t: "t < length ps" "is_dequeuing (ps ! t)"
    and p: "pc_honest honest content good p" "unclaiming p"
    and h': "if is_dequeuing p then h' = p \<and> dequeuing_length q' = dequeuing_length q
             else h' = Deq_Open (dequeuing_length q') None"
    and q': "small B q'" "\<forall>u < length ps. in_bounds B q' (ps ! u)" "enq_ok B rep content q' ps A'"
      "side rep (two_get (buffers q') (deq_index q')) (claims B content q' (deq_index q') ps) lo' xs'"
      "deq_ok img view inserted (dview_of B content q' ps lo' xs') A' h'"
      "cap_ok (dview_of B content q' ps lo' xs') h'"
  shows "inv_at B rep img view honest content good inserted q' (ps[t := p]) A' lo' xs' h'"
proof -
  note own = owner [OF inv t]
  note up = unclaiming_update [OF t(1) dequeuing_unclaiming [OF t(2)] p(2)]
  have "in_bounds B q' p"
    using p(2) by (auto simp: in_bounds_def unclaiming_def split: pc.splits)
  then have "\<forall>u < length (ps[t := p]).
      pc_honest honest content good (ps[t := p] ! u) \<and> in_bounds B q' (ps[t := p] ! u)"
    using inv_atD(4) [OF inv] q'(2) p(1) t(1) by (simp add: nth_list_update)
  moreover have "holder (dequeuing_length q') (ps[t := p]) h'"
    using filter_update(3) [where P = is_dequeuing, OF t(1) own(3) t(2), of p] h' own(2)
    by (auto simp: holder_def split: if_splits)
  moreover have "dview_of B content q' (ps[t := p]) = dview_of B content q' ps"
    by (intro ext) (simp add: dview_of_def up)
  ultimately show ?thesis
    using q' unfolding inv_at_def enq_ok_def up by simp
qed

text \<open>The owner changes only its program counter, and perhaps what is irrelevant here.\<close>

lemma own_local:
  fixes q q' :: "('b, 'n) queue"
  assumes inv: "inv_at B rep img view honest content good inserted q ps A lo xs h"
    and t: "t < length ps" "is_dequeuing (ps ! t)"
    and p: "pc_honest honest content good p" "is_dequeuing p"
    and q': "buffers q' = buffers q" "buffers_length q' = buffers_length q"
      "enqueuing_capacity q' = enqueuing_capacity q" "dequeuing_length q' = dequeuing_length q"
    and A': "aq_back A' = aq_back A" "aq_capacity A' = aq_capacity A" "aq_closed A' = aq_closed A"
    and ok: "deq_ok img view inserted (dview_of B content q' ps lo xs) A' p"
      "cap_ok (dview_of B content q' ps lo xs) p"
  shows "inv_at B rep img view honest content good inserted q' (ps[t := p]) A' lo xs p"
proof (rule own_step [OF inv t p(1) dequeuing_unclaiming [OF p(2)]])
  have i: "enq_index q' = enq_index q" "deq_index q' = deq_index q"
    using q'(3) by (simp_all add: enq_index_def deq_index_def)
  have sc: "same_caps B q q'"
    by (rule same_capsI [OF q'(1)])
  note d = inv_atD [OF inv]
  show "small B q'" and "\<forall>u < length ps. in_bounds B q' (ps ! u)"
    using d(1,4) same_caps_simps(1,2) [OF sc] by auto
  show "enq_ok B rep content q' ps A'"
    using d(2) q' A' by (simp add: enq_ok_def Let_def i same_caps_simps(3) [OF sc])
  show "side rep (two_get (buffers q') (deq_index q')) (claims B content q' (deq_index q') ps) lo xs"
    using d(3) q'(1) by (simp add: i same_caps_simps(3) [OF sc])
qed (use ok p(2) q'(4) in simp_all)

text \<open>The owner gives the dequeuing side back.\<close>

lemma own_unlock:
  assumes inv: "inv_at B rep img view honest content good inserted q ps A lo xs h"
    and t: "t < length ps" "is_dequeuing (ps ! t)"
    and pk: "parked (dview_of B content q ps lo xs) A"
    and w: "w = DL_new (deq_index q) (of_nat (length (aq_front A)))"
    and cap: "capacity q = buf_capacity B (two_get (buffers q) (enq_index q))"
  shows "inv_at B rep img view honest content good inserted (q\<lparr>dequeuing_length := w\<rparr>)
    (ps[t := Idle]) A lo xs (Deq_Open w None)"
proof -
  have q: "small B (q\<lparr>dequeuing_length := w\<rparr>) = small B q"
    "in_bounds B (q\<lparr>dequeuing_length := w\<rparr>) p = in_bounds B q p"
    "claims B content (q\<lparr>dequeuing_length := w\<rparr>) = claims B content q"
    "dview_of B content (q\<lparr>dequeuing_length := w\<rparr>) = dview_of B content q" for w p
    by (simp_all add: small_def in_bounds_def claims_def dview_of_def fun_eq_iff cong: pc.case_cong)
  note d = inv_atD [OF inv]
  show ?thesis
    by (rule own_step [OF inv t])
      (use d pk w cap in \<open>simp_all add: is_dequeuing_def unclaiming_def q cap_ok_def enq_ok_def Let_def\<close>)
qed

section \<open>Systems\<close>

text \<open>
  A system over a buffer: the closures of good requests fill an empty buffer with \<open>inserted r\<close>, and
  the removal, if the buffer has one, takes an inserted value out.
\<close>

locale conc_system = insert_contract B rep img view I honest content
  for B :: "('b, 's) buffer_trait" and rep :: "'b \<Rightarrow> (nat \<rightharpoonup> 'c) \<Rightarrow> bool"
    and img :: "'c \<Rightarrow> 'd" and view :: "'s \<Rightarrow> 'd list" and I :: "('b, 'v) insert_trait"
    and honest :: "'v \<Rightarrow> bool" and content :: "'v \<Rightarrow> 'c list" +
  fixes S :: "('b, 's, 'n, 'v, 'c, 'r) sys"
    and good :: "'r \<Rightarrow> bool"
    and inserted :: "'r \<Rightarrow> 'c list"
  assumes sys_parts: "sys_buffer S = B" "sys_insert S = I"
    and prep_ok:
      "good r \<Longrightarrow> rep b Map.empty \<Longrightarrow> unat (buf_capacity B b) < 4611686018427387903 \<Longrightarrow>
       \<exists>nb rs ins. sys_prep S r b = Inr (nb, rs, ins) \<and> rep nb (seg 0 (inserted r)) \<and>
         unat ins = length (inserted r) \<and> unat (buf_capacity B nb) < 4611686018427387903 \<and>
         (\<not> rs \<longrightarrow> buf_capacity B nb = buf_capacity B b)"
    and remove_law:
      "sys_remove S = Some remove \<Longrightarrow> rep b m \<Longrightarrow> m (unat i) = Some x \<Longrightarrow>
       \<exists>b'. remove b i = Inr (x, b') \<and> rep b' (m(unat i := None)) \<and>
            buf_capacity B b' = buf_capacity B b"
    and empty_slice_law:
      "sys_remove S \<noteq> None \<Longrightarrow> rep b m \<Longrightarrow> hi \<noteq> 0 \<Longrightarrow> hi \<le> buf_capacity B b \<Longrightarrow>
       \<exists>s. buf_slice B b (hi, hi) = Inr s \<and> view s = []"
begin

abbreviation inv ::
    "('b, 'n) queue \<Rightarrow> ('v, 's, 'r) pc list \<Rightarrow> 'c aqueue \<Rightarrow> nat \<Rightarrow> 'c list \<Rightarrow> ('v, 's, 'r) pc \<Rightarrow> bool" where
  "inv \<equiv> inv_at B rep img view honest content good inserted"

lemma reserve_step:
  assumes inv: "inv q ps A lo xs h" and t: "t < length ps" "ps ! t = Enq_Cas v w"
    and w: "enqueuing_capacity q = w" "\<not> EC_is_closed w" "EC_try_reserve w (ins_size I v) = Some w'"
  shows "inv (q\<lparr>enqueuing_capacity := w'\<rparr>) (ps[t := Enq_Insert v w])
    (A\<lparr>aq_back := aq_back A @ content v\<rparr>) lo xs h"
proof -
  let ?q = "q\<lparr>enqueuing_capacity := w'\<rparr>" and ?ps = "ps[t := Enq_Insert v w]"
  let ?A = "A\<lparr>aq_back := aq_back A @ content v\<rparr>" and ?e = "enq_index q" and ?d = "deq_index q"
  note d = inv_atD [OF inv] and e = enq_okD [OF inv_atD(2) [OF inv]]
  have v: "honest v" "content v \<noteq> []" "length (content v) < 9223372036854775808"
    using d(4) [OF t(1)] t(2) by simp_all
  have sz: "unat (ins_size I v) = length (content v)"
    using size_content [OF v(1)] .
  have f: "\<not> EC_is_closed w'" "EC_remaining_capacity w' = EC_remaining_capacity w - ins_size I v"
    "ins_size I v \<le> EC_remaining_capacity w" "EC_buffer_index w' = EC_buffer_index w"
    using EC_try_reserve_Some [OF w(2) _ w(3)] sz v(3) by simp_all
  have i: "enq_index ?q = ?e" "deq_index ?q = ?d" "EC_buffer_index w = ?e" "?e \<noteq> ?d"
    using f(4) w(1) deq_index_neq [of q] by (auto simp: enq_index_def deq_index_def)
  have rem: "unat (EC_remaining_capacity w') =
      aq_capacity A - length (aq_back A) - length (content v)"
    "length (aq_back A) + length (content v) \<le> aq_capacity A"
    using f(2,3) e(3,4) w(1) sz by (simp_all add: unat_sub word_le_nat_alt)
  have start: "aq_capacity A - unat (EC_remaining_capacity w) = length (aq_back A)"
    using e(3,4) w(1) by simp
  have cl: "claims B content ?q ?e ?ps = (claims B content q ?e ps)[t := seg (length (aq_back A)) (content v)]"
    "claims B content ?q ?d ?ps = claims B content q ?d ps"
    unfolding claims_update using t i e(2) start
    by (simp_all add: claims_def claim_def list_update_same_conv)
  have un: "unacked_sum content ?e ?ps = unacked_sum content ?e ps + length (content v)"
    "unacked_sum content ?d ?ps = unacked_sum content ?d ps"
    using unacked_sum_update [OF t(1), of content _ "Enq_Insert v w"] t(2) i(3,4)
    by (simp_all add: unacked_def)
  have "side rep (two_get (buffers q) ?e) (claims B content ?q ?e ?ps) 0 (aq_back A @ content v)"
    unfolding cl using e(6) t by (intro side_reserve) (simp_all add: claims_nth claim_def)
  then have enq: "enq_ok B rep content ?q ?ps ?A"
    using e f(1) w rem un unfolding enq_ok_def i Let_def by simp
  show ?thesis
  proof (rule other_step [OF inv t(1)])
    show "dv_stable (dview_of B content q ps lo xs) A (dview_of B content ?q ?ps lo xs) ?A"
      by (simp add: dv_stable_def i un)
  qed (use d(3) enq cl(2) i(2,3) v t(2) e(2,4) w(1) in
      \<open>simp_all add: is_dequeuing_def same_caps_def in_bounds_def word_le_nat_alt\<close>)
qed

lemma insert_side:
  assumes sd: "side rep (two_get (buffers q) i) (claims B content q i ps) lo xs"
    and bound: "lo + length xs \<le> unat (buf_capacity B (two_get (buffers q) i))"
    and t: "t < length ps" "ps ! t = Enq_Insert v w" "EC_buffer_index w = i"
    and v: "honest v" "content v \<noteq> []" and w: "in_bounds B q (ps ! t)"
  shows "\<exists>b. go_enq_insert S q v w = Inr (q\<lparr>buffers := two_set (buffers q) i b\<rparr>, Enq_Ack v w, Tau) \<and>
    buf_capacity B b = buf_capacity B (two_get (buffers q) i) \<and>
    side rep b ((claims B content q i ps)[t := Map.empty]) lo xs"
proof -
  let ?b = "two_get (buffers q) i" and ?cls = "claims B content q i ps"
  let ?k = "buf_capacity B ?b - EC_remaining_capacity w"
  have le: "EC_remaining_capacity w \<le> buf_capacity B ?b"
    using w t by (simp add: in_bounds_def)
  then have k: "unat ?k = unat (buf_capacity B ?b) - unat (EC_remaining_capacity w)"
    by (simp add: unat_sub)
  have m: "?cls ! t = seg (unat ?k) (content v)"
    using t by (simp add: claims_nth claim_def k)
  note ins = side_insert [OF sd _ m, simplified, OF t(1)]
  have "seg (unat ?k) (content v) \<subseteq>\<^sub>m seg lo xs"
    using sd t(1) m by (auto simp: side_def)
  then have "{unat ?k..<unat ?k + length (content v)} \<subseteq> {lo..<lo + length xs}"
    using map_le_implies_dom_le by fastforce
  then have "unat ?k + length (content v) \<le> unat (buf_capacity B ?b)"
    using bound v(2) by simp
  then obtain b where "ins_into I v ?b ?k = Inr b" "buf_capacity B b = buf_capacity B ?b"
    "rep b ((seg lo xs |` (- claimed ?cls)) ++ seg (unat ?k) (content v))"
    using insert_ok [OF ins(1) v] ins(2) by (auto simp: Int_commute)
  with ins(3) le t(3) show ?thesis
    by (auto simp: go_enq_insert_def Let_def sys_parts)
qed

lemma insert_step:
  assumes inv: "inv q ps A lo xs h" and t: "t < length ps" "ps ! t = Enq_Insert v w"
  shows "\<exists>q'. go_enq_insert S q v w = Inr (q', Enq_Ack v w, Tau) \<and>
    inv q' (ps[t := Enq_Ack v w]) A lo xs h \<and> same_caps B q q'"
proof -
  let ?i = "EC_buffer_index w" and ?ps = "ps[t := Enq_Ack v w]" and ?e = "enq_index q" and ?d = "deq_index q"
  note d = inv_atD [OF inv] and e = enq_okD [OF inv_atD(2) [OF inv]]
  have v: "honest v" "content v \<noteq> []" and w: "in_bounds B q (ps ! t)"
    using d(4) [OF t(1)] t(2) by simp_all
  define lo' xs' where "lo' = (if ?i = ?e then 0 else lo)" and "xs' = (if ?i = ?e then aq_back A else xs)"
  have "unacked_sum content ?d ps \<noteq> 0" if "?i = ?d"
    using unacked_le [OF t(1), of content ?d] t(2) v(2) that by (cases "content v") (auto simp: unacked_def)
  then have bound: "lo' + length xs' \<le> unat (buf_capacity B (two_get (buffers q) ?i))"
    using deq_ok_bound [OF d(6)] index_cases [of w q] enq_neq_deq [of q] e(2,3)
    by (auto simp: lo'_def xs'_def)
  have "side rep (two_get (buffers q) ?i) (claims B content q ?i ps) lo' xs'"
    using d(3) e(6) index_cases [of w q] enq_neq_deq [of q] by (auto simp: lo'_def xs'_def)
  from insert_side [OF this bound t refl v w] obtain b
    where run: "go_enq_insert S q v w = Inr (q\<lparr>buffers := two_set (buffers q) ?i b\<rparr>, Enq_Ack v w, Tau)"
      and cap: "buf_capacity B b = buf_capacity B (two_get (buffers q) ?i)"
      and sd: "side rep b ((claims B content q ?i ps)[t := Map.empty]) lo' xs'"
    by blast
  let ?q = "q\<lparr>buffers := two_set (buffers q) ?i b\<rparr>"
  have sc: "same_caps B q ?q"
    by (rule same_caps_set [OF _ cap]) simp
  have i: "enq_index ?q = ?e" "deq_index ?q = ?d"
    by simp_all
  have cl: "claims B content ?q j ?ps =
      (if j = ?i then (claims B content q j ps)[t := Map.empty] else claims B content q j ps)" for j
    unfolding same_caps_simps(3) [OF sc] claims_update using t
    by (auto simp: claim_def claims_nth list_update_same_conv)
  have un: "unacked_sum content j ?ps = unacked_sum content j ps" for j
    using unacked_sum_update [OF t(1), of content j "Enq_Ack v w"] t(2) by (simp add: unacked_def)
  have get: "two_get (two_set (buffers q) ?i b) ?e = (if ?i = ?e then b else two_get (buffers q) ?e)"
    "two_get (two_set (buffers q) ?i b) ?d = (if ?i = ?e then two_get (buffers q) ?d else b)"
    using index_cases [of w q] enq_neq_deq [of q] by (auto simp: two_get_enq two_get_deq)
  have "side rep (two_get (buffers ?q) ?e) (claims B content ?q ?e ?ps) 0 (aq_back A)"
    using e(6) sd cl [of ?e] get(1) by (cases "?i = ?e") (simp_all add: lo'_def xs'_def)
  then have enq: "enq_ok B rep content ?q ?ps A"
    using e(1-5) same_caps_simps(4) [OF sc] un unfolding enq_ok_def i Let_def by simp
  have deq: "side rep (two_get (buffers ?q) ?d) (claims B content ?q ?d ?ps) lo xs"
  proof (cases "?i = ?e")
    case True
    then have "?d \<noteq> ?i"
      using enq_neq_deq [of q] by simp
    then show ?thesis
      using d(3) cl [of ?d] get(2) True by simp
  next
    case False
    then have "?i = ?d"
      using index_cases [of w q] by simp
    then show ?thesis
      using sd cl [of ?d] get(2) False by (simp add: lo'_def xs'_def)
  qed
  have "inv ?q ?ps A lo xs h"
  proof (rule other_step [OF inv t(1) _ _ _ _ sc enq])
    show "dv_stable (dview_of B content q ps lo xs) A (dview_of B content ?q ?ps lo xs) A"
      using same_caps_simps(4) [OF sc] by (simp add: dv_stable_def i un)
  qed (use d(4) [OF t(1)] t(2) deq i in \<open>simp_all add: is_dequeuing_def in_bounds_def\<close>)
  with run sc show ?thesis by blast
qed

lemma unacked_bound:
  assumes inv: "inv q ps A lo xs h" and j: "unacked_sum content j ps \<noteq> 0" "j = enq_index q \<or> j = deq_index q"
  shows "unat (two_get (buffers_length q) j) + unacked_sum content j ps < 4611686018427387904"
proof -
  note d = inv_atD [OF inv] and e = enq_okD [OF inv_atD(2) [OF inv]]
  have "unat (buf_capacity B (two_get (buffers q) k)) < 4611686018427387903" for k
    using d(1) by (simp add: small_def)
  from this [of "enq_index q"] this [of "deq_index q"] j e(2,3,5) deq_ok_bound [OF d(6)] deq_ok_count [OF d(6)]
  show ?thesis by auto
qed

text \<open>An acknowledgement does not overflow the length.\<close>

lemma ack_length:
  assumes inv: "inv q ps A lo xs h" and t: "t < length ps" "ps ! t = Enq_Ack v w"
  shows "unat (two_get (buffers_length q) (EC_buffer_index w) + ins_size I v) =
      unat (two_get (buffers_length q) (EC_buffer_index w)) + length (content v)"
    and "content v \<noteq> []"
proof -
  let ?i = "EC_buffer_index w"
  have v: "unat (ins_size I v) = length (content v)" "content v \<noteq> []"
    using inv_atD(4) [OF inv t(1)] t(2) size_content by simp_all
  then show "content v \<noteq> []" by simp
  have le: "length (content v) \<le> unacked_sum content ?i ps"
    using unacked_le [OF t(1), of content ?i] t(2) by (simp add: unacked_def)
  with v(2) have "unacked_sum content ?i ps \<noteq> 0"
    by (cases "content v") auto
  from unacked_bound [OF inv this index_cases] le v
  show "unat (two_get (buffers_length q) ?i + ins_size I v) =
      unat (two_get (buffers_length q) ?i) + length (content v)"
    by (subst unat_add_usize) auto
qed

lemma ack_step:
  assumes inv: "inv q ps A lo xs h" and t: "t < length ps" "ps ! t = Enq_Ack v w"
  shows "\<exists>q'. go_enq_ack S q v w = (q', Enq_Notify, Tau) \<and> inv q' (ps[t := Enq_Notify]) A lo xs h"
proof -
  let ?i = "EC_buffer_index w" and ?ps = "ps[t := Enq_Notify]" and ?e = "enq_index q" and ?d = "deq_index q"
  let ?n = "two_get (buffers_length q) ?i + ins_size I v"
  let ?q = "q\<lparr>buffers_length := two_set (buffers_length q) ?i ?n\<rparr>"
  note d = inv_atD [OF inv] and e = enq_okD [OF inv_atD(2) [OF inv]]
  have un: "unacked_sum content j ps =
      unacked_sum content j ?ps + (if j = ?i then length (content v) else 0)" for j
    using unacked_sum_update [OF t(1), of content j Enq_Notify] t(2) by (auto simp: unacked_def)
  have i: "enq_index ?q = ?e" "deq_index ?q = ?d"
    by simp_all
  have cl: "claims B content ?q j ?ps = claims B content q j ps" for j
    unfolding claims_update using t
    by (auto simp: claim_def claims_def list_update_same_conv)
  have get: "unat (two_get (buffers_length ?q) j) + unacked_sum content j ?ps =
      unat (two_get (buffers_length q) j) + unacked_sum content j ps"
    "unacked_sum content j ps = 0 \<Longrightarrow> two_get (buffers_length ?q) j = two_get (buffers_length q) j"
    if j: "j = ?e \<or> j = ?d" for j
  proof -
    note ack_length(1) [OF inv t]
    moreover have "two_get (two_set (buffers_length q) ?i ?n) j = two_get (buffers_length q) j" if "j \<noteq> ?i"
      using that j index_cases [of w q] by (auto simp: two_get_enq two_get_deq)
    ultimately show "unat (two_get (buffers_length ?q) j) + unacked_sum content j ?ps =
        unat (two_get (buffers_length q) j) + unacked_sum content j ps"
      and "unacked_sum content j ps = 0 \<Longrightarrow> two_get (buffers_length ?q) j = two_get (buffers_length q) j"
      using un [of j] ack_length(2) [OF inv t] by (cases "j = ?i"; simp)+
  qed
  have "inv ?q ?ps A lo xs h"
  proof (rule other_step [OF inv t(1)])
    show "enq_ok B rep content ?q ?ps A"
      using e get [of ?e] cl unfolding enq_ok_def i Let_def by simp
    show "side rep (two_get (buffers ?q) (deq_index ?q)) (claims B content ?q (deq_index ?q) ?ps) lo xs"
      using d(3) cl i by simp
    show "dv_stable (dview_of B content q ps lo xs) A (dview_of B content ?q ?ps lo xs) A"
      using get [of ?d] by (simp add: dv_stable_def i)
  qed (use t(2) in \<open>simp_all add: is_dequeuing_def in_bounds_def same_caps_def\<close>)
  then show ?thesis
    by (simp add: go_enq_ack_def Let_def sys_parts)
qed

end

end
