(* ===== verification/Concurrent_Dequeue.thy ===== *)
theory Concurrent_Dequeue
  imports Concurrent_Enqueue
begin

text \<open>
  The steps of the thread that owns the dequeuing side keep the invariant and do not fault: locking,
  resizing and filling the next buffer, swapping, spinning, slicing, releasing, requeuing and
  draining. The lemmas follow the code of \<open>try_dequeue_internal\<close> in order.
\<close>

section \<open>Facts for the owner\<close>

lemma claims_irrelevant [simp]:
  "claims B content (q\<lparr>enqueuing_capacity := w\<rparr>) = claims B content q"
  "claims B content (q\<lparr>dequeuing_length := w\<rparr>) = claims B content q"
  "claims B content (q\<lparr>buffers_length := ns\<rparr>) = claims B content q"
  by (simp_all add: claims_def fun_eq_iff)

lemma in_bounds_irrelevant [simp]:
  "in_bounds B (q\<lparr>enqueuing_capacity := w\<rparr>) p = in_bounds B q p"
  "in_bounds B (q\<lparr>dequeuing_length := w\<rparr>) p = in_bounds B q p"
  "in_bounds B (q\<lparr>buffers_length := ns\<rparr>) p = in_bounds B q p"
  by (cases p; simp add: in_bounds_def)+

lemma in_bounds_unclaiming: "unclaiming p \<Longrightarrow> in_bounds B q p"
  by (cases p) (simp_all add: in_bounds_def unclaiming_def)

lemma small_irrelevant [simp]:
  "small B (q\<lparr>enqueuing_capacity := w\<rparr>) = small B q"
  "small B (q\<lparr>dequeuing_length := w\<rparr>) = small B q"
  "small B (q\<lparr>buffers_length := ns\<rparr>) = small B q"
  by (simp_all add: small_def)

lemma smallD: "small B q \<Longrightarrow> unat (buf_capacity B (two_get (buffers q) i)) < 4611686018427387903"
  by (simp add: small_def)

lemma small_set:
  assumes "small B q" and "unat (buf_capacity B b) < 4611686018427387903"
  shows "small B (q\<lparr>buffers := two_set (buffers q) i b\<rparr>)"
proof -
  have "two_get (two_set (buffers q) i b) j = b \<or> two_get (two_set (buffers q) i b) j = two_get (buffers q) j" for j
    by (simp add: two_get_def two_set_def)
  then show ?thesis
    using assms unfolding small_def by (metis queue.select_convs(3) queue.surjective queue.update_convs(3))
qed

text \<open>No thread inserts into a buffer whose reservations are all acknowledged.\<close>

lemma in_bounds_quiet:
  assumes "unacked_sum content (deq_index q) ps = 0" and "t < length ps"
    and "pc_honest honest content good (ps ! t) \<and> in_bounds B q (ps ! t)"
    and "two_get (buffers q') (enq_index q) = two_get (buffers q) (enq_index q)"
  shows "in_bounds B q' (ps ! t)"
proof (cases "ps ! t")
  case (Enq_Insert v w)
  then have "EC_buffer_index w \<noteq> deq_index q"
    using assms(1,3) unacked_le [OF assms(2), of content "deq_index q"] by (auto simp: unacked_def)
  then have "EC_buffer_index w = enq_index q"
    using index_cases by blast
  with assms(3,4) Enq_Insert show ?thesis
    by (simp add: in_bounds_def)
qed (simp_all add: in_bounds_def)

lemma settled_front:
  assumes "settled (dview_of B content q ps lo xs) A" and "small B q"
  shows "length (aq_front A) < 4611686018427387903"
    and "unat (of_nat (length (aq_front A)) :: usize) = length (aq_front A)"
proof -
  show "length (aq_front A) < 4611686018427387903"
    using assms(1) smallD [OF assms(2), of "deq_index q"] by (auto simp: settled_def)
  then show "unat (of_nat (length (aq_front A)) :: usize) = length (aq_front A)"
    by (simp add: usize_simps)
qed

lemma parked_word:
  assumes "parked (dview_of B content q ps lo xs) A" and "small B q"
  defines "w \<equiv> DL_new (deq_index q) (of_nat (length (aq_front A)))"
  shows "DL_buffer_index w = deq_index q" and "DL_buffer_len w = of_nat (length (aq_front A))"
    and "DL_buffer_len w = 0 \<longleftrightarrow> aq_front A = []" and "w \<noteq> DEQUEUING_LOCKED"
proof -
  have "settled (dview_of B content q ps lo xs) A"
    using assms(1) by (simp add: parked_def)
  note len = settled_front [OF this assms(2)]
  show "DL_buffer_index w = deq_index q" and l: "DL_buffer_len w = of_nat (length (aq_front A))"
    and "w \<noteq> DEQUEUING_LOCKED"
    unfolding w_def using len by (simp_all add: DL_new_fields DL_new_not_locked deq_index_bound)
  show "DL_buffer_len w = 0 \<longleftrightarrow> aq_front A = []"
    unfolding l using len by (simp add: usize_eq_iff)
qed

section \<open>\<open>try_dequeue_internal\<close>\<close>

context conc_system
begin

lemma lock_step:
  assumes inv: "inv q ps A lo xs h" and t: "t < length ps" "ps ! t = Deq_Lock r"
  shows "\<exists>q' p ev h'. go_deq_lock q r = (q', p, ev) \<and> inv q' (ps[t := p]) A lo xs h' \<and>
    abs_step img view content inserted ev A A"
proof (cases "dequeuing_length q = DEQUEUING_LOCKED")
  case True
  then have q: "q\<lparr>dequeuing_length := DEQUEUING_LOCKED\<rparr> = q"
    by (cases q) simp
  have A: "A = A\<lparr>aq_closed := EC_is_closed (enqueuing_capacity q)\<rparr>"
    using enq_okD(1) [OF inv_atD(2) [OF inv]] by (cases A) simp
  have "inv q (ps[t := Idle]) A lo xs h"
    by (rule silent_step [OF inv t(1)]) (use t(2) A in \<open>simp_all add: is_dequeuing_def unclaiming_def\<close>)
  moreover have "go_deq_lock q r =
      (q, Idle :: ('v, 's, 'r) pc, Ev_Dequeue_Err Conflict :: ('v, 's, 'c, 'r) event)"
    unfolding go_deq_lock_def Queue_lock_dequeuing_def q using True by simp
  ultimately show ?thesis
    by (auto simp: abs_step_def)
next
  case False
  let ?q = "q\<lparr>dequeuing_length := DEQUEUING_LOCKED\<rparr>" and ?p = "Deq_Open (dequeuing_length q) r"
  note d = inv_atD [OF inv]
  have none: "filter is_dequeuing ps = []" "h = Deq_Open (dequeuing_length q) None"
    using d(5) False by (auto simp: holder_def)
  have u: "unclaiming (ps ! t)" "unclaiming ?p"
    using t by (simp_all add: unclaiming_def)
  have same: "claims B content q i (ps[t := ?p]) = claims B content q i ps"
    "unacked_sum content i (ps[t := ?p]) = unacked_sum content i ps" for i
    by (rule unclaiming_update [OF t(1) u])+
  have dv: "dview_of B content ?q (ps[t := ?p]) lo xs = dview_of B content q ps lo xs"
    by (simp add: dview_of_def same)
  have "holder DEQUEUING_LOCKED (ps[t := ?p]) ?p"
    using filter_update(2) [where P = is_dequeuing, OF t(1) none(1), of ?p]
    by (simp add: holder_def is_dequeuing_def)
  moreover have "pred_option good r"
    using d(4) [OF t(1)] t(2) by simp
  moreover have "pc_honest honest content good (ps[t := ?p] ! u) \<and> in_bounds B ?q (ps[t := ?p] ! u)"
    if "u < length ps" for u
    using d(4) that calculation(2) in_bounds_unclaiming [OF u(2)] by (cases "u = t") simp_all
  moreover have "enq_ok B rep content ?q (ps[t := ?p]) A"
    using d(2) by (simp add: enq_ok_def Let_def same)
  moreover have "deq_ok img view inserted (dview_of B content ?q (ps[t := ?p]) lo xs) A ?p"
    "cap_ok (dview_of B content ?q (ps[t := ?p]) lo xs) ?p"
    unfolding dv using d(6,7) none(2) by (simp_all add: cap_ok_def)
  ultimately have "inv ?q (ps[t := ?p]) A lo xs ?p"
    using d(1,3) by (simp add: inv_at_def same small_def del: deq_ok.simps)
  then show ?thesis
    using False by (auto simp: go_deq_lock_def Queue_lock_dequeuing_def DL_try_from_atomic_def abs_step_def)
qed

lemma open_spin:
  assumes inv: "inv q ps A lo xs h" and t: "t < length ps" "ps ! t = Deq_Open w r"
    and front: "aq_front A \<noteq> []"
  shows "\<exists>p. go_deq_open S q w r = Inr (q, p, Tau) \<and> inv q (ps[t := p]) A lo xs p"
proof -
  let ?p = "Deq_Spin SPIN_LIMIT (deq_index q) (of_nat (length (aq_front A)))"
  note d = inv_atD [OF inv]
  have own: "h = Deq_Open w r"
    using owner(1) [OF inv t(1)] t(2) by (simp add: is_dequeuing_def)
  then have pk: "parked (dview_of B content q ps lo xs) A"
    and w: "w = DL_new (deq_index q) (of_nat (length (aq_front A)))"
    using d(6) by simp_all
  note word = parked_word [OF pk d(1), folded w]
  have "inv q (ps[t := ?p]) A lo xs ?p"
    by (rule own_local [OF inv t(1)])
      (use t(2) pk front d(7) own in \<open>simp_all add: is_dequeuing_def pc_honest_def cap_ok_def\<close>)
  with word front show ?thesis
    by (simp add: go_deq_open_def)
qed

lemma open_resize:
  assumes inv: "inv q ps A lo xs h" and t: "t < length ps" "ps ! t = Deq_Open w r"
    and front: "aq_front A = []"
  shows "\<exists>q' p xs'. go_deq_open S q w r = Inr (q', p, Tau) \<and> inv q' (ps[t := p]) A 0 xs' p"
proof -
  let ?d = "deq_index q" and ?e = "enq_index q"
  let ?b = "two_get (buffers q) ?d"
  note d = inv_atD [OF inv] and e = enq_okD [OF inv_atD(2) [OF inv]]
  have own: "h = Deq_Open w r"
    using owner(1) [OF inv t(1)] t(2) by (simp add: is_dequeuing_def)
  then have pk: "parked (dview_of B content q ps lo xs) A"
    and w: "w = DL_new ?d (of_nat (length (aq_front A)))"
    using d(6) by simp_all
  note word = parked_word [OF pk d(1), folded w]
  have un: "unacked_sum content ?d ps = 0" and len: "two_get (buffers_length q) ?d = 0" and xs: "xs = []"
    and other: "unat (buf_capacity B ?b) = aq_other A"
    using pk front by (auto simp: parked_def settled_def)
  note quiet = side_acked [OF un, of rep]
  have small: "unat (buf_capacity B ?b) < 4611686018427387903"
    using d(1) by (simp add: small_def)
  have empty: "rep ?b Map.empty"
    using d(3) xs by (simp add: quiet)
  have good: "pred_option good r"
    using d(4) [OF t(1)] t(2) by simp
  obtain nb rs ins where nb: "run_resize (map_option (sys_prep S) r) ?b = Inr (nb, rs, ins)"
    "rep nb (seg 0 (inserted_opt inserted r))" "unat ins = length (inserted_opt inserted r)"
    "unat (buf_capacity B nb) < 4611686018427387903" "\<not> rs \<Longrightarrow> buf_capacity B nb = buf_capacity B ?b"
  proof (cases r)
    case None
    with that [of ?b False 0] empty small show ?thesis
      by (simp add: run_resize_def inserted_opt_def)
  next
    case (Some r')
    with prep_ok [of r' ?b] good empty small that show ?thesis
      by (auto simp: run_resize_def inserted_opt_def)
  qed
  let ?q = "q\<lparr>buffers := two_set (buffers q) ?d nb\<rparr>"
  let ?p = "Deq_Add w r (buf_capacity B nb) rs ins" and ?xs = "inserted_opt inserted r"
  have cl: "claims B content ?q ?e ps = claims B content q ?e ps"
    by (simp add: claims_def)
  have "small B ?q"
    using d(1) nb(4) by (rule small_set)
  moreover have "\<forall>u < length ps. in_bounds B ?q (ps ! u)"
    using in_bounds_quiet [OF un _ d(4), where q' = ?q] by simp
  moreover have "deq_ok img view inserted (dview_of B content ?q ps 0 ?xs) A ?p"
    using front un len w nb seg_fits [OF nb(2)] other by (auto simp: prepared_def)
  ultimately have "inv ?q (ps[t := ?p]) A 0 ?xs ?p"
    by (intro own_step [OF inv t(1)])
      (use d nb(2) t(2) own in \<open>simp_all add: is_dequeuing_def pc_honest_def unclaiming_def enq_ok_def Let_def
         cl quiet cap_ok_def\<close>)
  moreover have "go_deq_open S q w r = Inr (?q, ?p, Tau)"
    using word front nb(1) by (simp add: go_deq_open_def sys_parts)
  ultimately show ?thesis by blast
qed

lemma prepared_word:
  assumes "prepared inserted (dview_of B content q ps lo xs) A r nc rs ins"
  shows "DL_buffer_index (DL_new (deq_index q) 0) = deq_index q"
    and "unat (nc - ins) = unat nc - length xs" and "ins \<le> nc"
  using assms by (auto simp: DL_new_fields deq_index_bound prepared_def unat_sub word_le_nat_alt)

lemma add_step:
  assumes inv: "inv q ps A lo xs h" and t: "t < length ps" "ps ! t = Deq_Add w r nc rs ins"
  shows "\<exists>q' p. go_deq_add q w r nc rs ins = (q', p, Tau :: ('v, 's, 'c, 'r) event) \<and> inv q' (ps[t := p]) A lo xs p"
proof -
  let ?d = "deq_index q" and ?p = "Deq_Load w r nc rs ins"
  let ?q = "q\<lparr>buffers_length := two_set (buffers_length q) ?d ins\<rparr>"
  note d = inv_atD [OF inv]
  have own: "h = Deq_Add w r nc rs ins"
    using owner(1) [OF inv t(1)] t(2) by (simp add: is_dequeuing_def)
  then have pr: "prepared inserted (dview_of B content q ps lo xs) A r nc rs ins"
    and w: "w = DL_new ?d 0" and len: "two_get (buffers_length q) ?d = 0"
    using d(6) by simp_all
  have sc: "same_caps B q ?q"
    by (simp add: same_caps_def)
  have "inv ?q (ps[t := ?p]) A lo xs ?p"
  proof (rule own_step [OF inv t(1)])
    show "deq_ok img view inserted (dview_of B content ?q ps lo xs) A ?p"
      using pr w by (auto simp: prepared_def)
    show "cap_ok (dview_of B content ?q ps lo xs) ?p"
      using d(7) own by (simp add: cap_ok_def)
  qed (use d t(2) in \<open>simp_all add: same_caps_simps(1-3) [OF sc] is_dequeuing_def unclaiming_def
      pc_honest_def enq_ok_def Let_def\<close>)
  moreover have "go_deq_add q w r nc rs ins = (?q, ?p, Tau :: ('v, 's, 'c, 'r) event)"
  proof (cases "ins = 0")
    case True
    then have "two_set (buffers_length q) ?d ins = buffers_length q"
      using len two_set_get by metis
    then have "?q = q"
      by (cases q) simp
    then show ?thesis
      using True by (simp add: go_deq_add_def Let_def)
  next
    case False
    then show ?thesis
      using prepared_word(1) [OF pr] w len by (simp add: go_deq_add_def Let_def word_neq_0_conv)
  qed
  ultimately show ?thesis by blast
qed

lemma load_step:
  assumes inv: "inv q ps A lo xs h" and t: "t < length ps" "ps ! t = Deq_Load w r nc rs ins"
  shows "inv q (ps[t := Deq_Check w r nc rs ins (enqueuing_capacity q)]) A lo xs
    (Deq_Check w r nc rs ins (enqueuing_capacity q))"
proof -
  note d = inv_atD [OF inv] and e = enq_okD [OF inv_atD(2) [OF inv]]
  have own: "h = Deq_Load w r nc rs ins"
    using owner(1) [OF inv t(1)] t(2) by (simp add: is_dequeuing_def)
  have "EC_remaining_capacity (enqueuing_capacity q) = buf_capacity B (two_get (buffers q) (enq_index q))"
    if "aq_back A = []"
    using e(2,4) that by (simp add: usize_eq_iff)
  then show ?thesis
    by (intro own_local [OF inv t(1)])
      (use t(2) d(6,7) own in \<open>auto simp: is_dequeuing_def pc_honest_def cap_ok_def enq_index_def\<close>)
qed

lemma check_step:
  assumes inv: "inv q ps A lo xs h" and t: "t < length ps" "ps ! t = Deq_Check w r nc rs ins enq"
  shows "\<exists>p. go_deq_check S q w r nc rs ins enq = Inr (q, p, Tau) \<and> inv q (ps[t := p]) A lo xs p"
proof -
  let ?d = "deq_index q" and ?c = "buf_capacity B (two_get (buffers q) (enq_index q))"
  note d = inv_atD [OF inv]
  have own: "h = Deq_Check w r nc rs ins enq"
    using owner(1) [OF inv t(1)] t(2) by (simp add: is_dequeuing_def)
  then have pr: "prepared inserted (dview_of B content q ps lo xs) A r nc rs ins"
    and w: "w = DL_new ?d 0" and len: "two_get (buffers_length q) ?d = ins"
    and enq: "EC_buffer_index enq = enq_index q" "EC_remaining_capacity enq \<noteq> ?c \<Longrightarrow> aq_back A \<noteq> []"
    using d(6) by simp_all
  note word = prepared_word [OF pr]
  have room: "EC_new ?d (nc - ins) = Inr (EC_pack ?d (nc - ins))"
    using word(2) smallD [OF d(1), of ?d] pr by (intro EC_new_ok) (auto simp: prepared_def)
  let ?p = "if EC_remaining_capacity enq = ?c \<and> \<not> rs \<and> ins = 0
    then Deq_Store w (if EC_is_closed enq then Closed else Empty)
    else Deq_Swap r nc rs ins ?c enq (EC_pack ?d (nc - ins))"
  have "inv q (ps[t := ?p]) A lo xs ?p"
    by (rule own_local [OF inv t(1)])
      (use t(2) own pr w len enq d(7) in \<open>auto simp: is_dequeuing_def pc_honest_def cap_ok_def parked_def
        settled_def prepared_def\<close>)
  moreover have "go_deq_check S q w r nc rs ins enq = Inr (q, ?p, Tau)"
    using word(1,3) enq(1) enq_neq_deq [of q] w room by (simp add: go_deq_check_def Let_def sys_parts)
  ultimately show ?thesis by blast
qed

lemma swap_ok:
  assumes inv: "inv q ps A lo xs h" and t: "t < length ps" "ps ! t = Deq_Swap r nc rs ins capa enq ne"
    and enq: "enqueuing_capacity q = enq"
  shows "inv (q\<lparr>enqueuing_capacity := EC_with_closed ne enq\<rparr>)
    (ps[t := Deq_Capacity nc rs ins capa enq])
    (A\<lparr>aq_front := aq_back A, aq_back := inserted_opt inserted r, aq_capacity := unat nc,
       aq_other := aq_capacity A\<rparr>) 0 (aq_back A) (Deq_Capacity nc rs ins capa enq)"
    (is "inv ?q (ps[t := ?p]) ?A 0 _ ?p")
  and "aq_front A = []"
proof -
  let ?e = "enq_index q" and ?d = "deq_index q"
  note d = inv_atD [OF inv] and e = enq_okD [OF inv_atD(2) [OF inv]]
  have own: "h = Deq_Swap r nc rs ins capa enq ne"
    using owner(1) [OF inv t(1)] t(2) by (simp add: is_dequeuing_def)
  then have pr: "prepared inserted (dview_of B content q ps lo xs) A r nc rs ins"
    and len: "two_get (buffers_length q) ?d = ins" and capa: "capa = buf_capacity B (two_get (buffers q) ?e)"
    and ne: "ne = EC_pack ?d (nc - ins)" and why: "rs \<or> ins \<noteq> 0 \<or> aq_back A \<noteq> []"
    using d(6) by simp_all
  have pr': "aq_front A = []" "lo = 0" "unacked_sum content ?d ps = 0" "xs = inserted_opt inserted r"
    "unat ins = length xs" "nc = buf_capacity B (two_get (buffers q) ?d)" "length xs \<le> unat nc"
    using pr by (auto simp: prepared_def)
  then show "aq_front A = []" by simp
  have bound: "unat (nc - ins) < 4611686018427387904"
    using prepared_word(2) [OF pr] smallD [OF d(1), of ?d] pr'(6) by simp
  note f = EC_pack_fields [OF deq_index_bound bound, of q, folded ne]
  note wc = EC_with_closed_fields [of ne enq, unfolded f(1), simplified]
  have i: "enq_index ?q = ?d" "deq_index ?q = ?e"
    using wc(3) f(3) flip_deq_index [of q] by (simp_all add: enq_index_def deq_index_def [of ?q])
  have cl: "claims B content ?q = claims B content q"
    by (intro ext) (simp add: claims_def)
  have "EC_is_closed (EC_with_closed ne enq) = aq_closed A"
    using wc(1) e(1) enq by simp
  moreover have "unat (EC_remaining_capacity (EC_with_closed ne enq)) = unat nc - length xs"
    using wc(2) f(2) prepared_word(2) [OF pr] by simp
  ultimately have enq_new: "enq_ok B rep content ?q ps ?A"
    using d(3) pr' len unfolding enq_ok_def Let_def i cl by simp
  have "EC_buffer_index enq = ?e"
    using enq by (simp add: enq_index_def)
  moreover have "two_get (buffers_length q) ?e = 0" if "aq_back A = []"
    using e(5) that by (simp add: usize_eq_iff)
  ultimately have "swapped_ok (dview_of B content ?q ps 0 (aq_back A)) ?A rs ins capa enq"
    using e(2-5) why enq capa by (auto simp: swapped_ok_def parked_def settled_def i)
  moreover note enq_new
  moreover have "in_bounds B ?q (ps ! u)" if "u < length ps" for u
    using same_caps_simps(2) [of B q ?q "ps ! u"] d(4) [OF that] by (simp add: same_caps_def)
  ultimately show "inv ?q (ps[t := ?p]) ?A 0 (aq_back A) ?p"
    by (intro own_step [OF inv t(1)])
      (use t(2) d(1) e(6) pr'(6) in \<open>simp_all add: is_dequeuing_def unclaiming_def pc_honest_def i cl cap_ok_def small_def\<close>)
qed

lemma swap_retry:
  assumes inv: "inv q ps A lo xs h" and t: "t < length ps" "ps ! t = Deq_Swap r nc rs ins capa enq ne"
  shows "inv q (ps[t := Deq_Swap r nc rs ins capa (enqueuing_capacity q) ne]) A lo xs
    (Deq_Swap r nc rs ins capa (enqueuing_capacity q) ne)"
proof -
  have own: "h = Deq_Swap r nc rs ins capa enq ne"
    using owner(1) [OF inv t(1)] t(2) by (simp add: is_dequeuing_def)
  show ?thesis
    by (rule own_local [OF inv t(1)])
      (use t(2) own inv_atD(6,7) [OF inv] in
        \<open>simp_all add: is_dequeuing_def pc_honest_def cap_ok_def enq_index_def\<close>)
qed

lemma capacity_step:
  assumes inv: "inv q ps A lo xs h" and t: "t < length ps" "ps ! t = Deq_Capacity nc rs ins capa enq"
  shows "inv (if Queue_capacity q \<noteq> nc then q\<lparr>capacity := nc\<rparr> else q)
    (ps[t := Deq_Notify rs ins capa enq]) A lo xs (Deq_Notify rs ins capa enq)"
proof -
  have own: "h = Deq_Capacity nc rs ins capa enq"
    using owner(1) [OF inv t(1)] t(2) by (simp add: is_dequeuing_def)
  show ?thesis
    unfolding Queue_capacity_def update_capacity
    by (rule own_local [OF inv t(1)])
      (use t(2) own inv_atD(6,7) [OF inv] in
        \<open>auto simp: is_dequeuing_def pc_honest_def cap_ok_def swapped_ok_def parked_def settled_def\<close>)
qed

lemma notify_step:
  assumes inv: "inv q ps A lo xs h" and t: "t < length ps" "ps ! t = Deq_Notify rs ins capa enq"
  shows "\<exists>q' p. go_deq_notify S q rs ins capa enq = Inr (q', p, Tau) \<and> inv q' (ps[t := p]) A lo xs p"
proof -
  let ?q = "q\<lparr>notify := notify_enqueue (sys_notify S) (notify q)\<rparr>"
  note d = inv_atD [OF inv]
  have own: "h = Deq_Notify rs ins capa enq"
    using owner(1) [OF inv t(1)] t(2) by (simp add: is_dequeuing_def)
  then have sw: "swapped_ok (dview_of B content q ps lo xs) A rs ins capa enq"
    and cap: "capacity q = buf_capacity B (two_get (buffers q) (enq_index q))"
    using d(6,7) by (simp_all add: cap_ok_def)
  then have i: "EC_buffer_index enq = deq_index q" and pk: "parked (dview_of B content q ps lo xs) A"
    and rem: "unat (EC_remaining_capacity enq) + length (aq_front A) = unat capa"
    and why: "aq_front A = [] \<Longrightarrow> ins = 0 \<Longrightarrow> rs"
    by (auto simp: swapped_ok_def)
  have le: "EC_remaining_capacity enq \<le> capa"
    using rem by (simp add: word_le_nat_alt)
  have len: "capa - EC_remaining_capacity enq = of_nat (length (aq_front A))"
    using rem le settled_front(2) [OF pk [unfolded parked_def, THEN conjunct1] d(1)]
    by (simp add: usize_eq_iff unat_sub)
  let ?p = "if aq_front A \<noteq> [] then Deq_Spin SPIN_LIMIT (deq_index q) (of_nat (length (aq_front A)))
    else if ins > 0 then Deq_Open (DL_new (deq_index q) 0) None
    else Deq_Store (DL_new (deq_index q) 0) Empty"
  have dv: "dview_of B content ?q ps lo xs = dview_of B content q ps lo xs"
    by (simp add: dview_of_def)
  have "inv ?q (ps[t := ?p]) A lo xs ?p"
    by (rule own_local [OF inv t(1)])
      (use t(2) pk cap in \<open>auto simp: dv is_dequeuing_def pc_honest_def cap_ok_def\<close>)
  moreover have "(of_nat (length (aq_front A)) :: usize) = 0 \<longleftrightarrow> aq_front A = []"
    using parked_word(2,3) [OF pk d(1)] by simp
  then have "go_deq_notify S q rs ins capa enq = Inr (?q, ?p, Tau)"
    using le len i why by (auto simp: go_deq_notify_def Let_def word_gt_0)
  ultimately show ?thesis by blast
qed

lemma spin_step:
  assumes inv: "inv q ps A lo xs h" and t: "t < length ps" "ps ! t = Deq_Spin k i len"
  shows "\<exists>q' p ev h'. go_deq_spin q k i len = (q', p, ev) \<and> inv q' (ps[t := p]) A lo xs h' \<and>
    abs_step img view content inserted ev A A"
proof -
  let ?n = "two_get (buffers_length q) (deq_index q)"
  note d = inv_atD [OF inv]
  have own: "h = Deq_Spin k i len"
    using owner(1) [OF inv t(1)] t(2) by (simp add: is_dequeuing_def)
  then have pk: "parked (dview_of B content q ps lo xs) A" and i: "i = deq_index q"
    and len: "len = of_nat (length (aq_front A))" "aq_front A \<noteq> []"
    and cap: "capacity q = buf_capacity B (two_get (buffers q) (enq_index q))"
    using d(6,7) by (simp_all add: cap_ok_def)
  have st: "settled (dview_of B content q ps lo xs) A"
    using pk by (simp add: parked_def)
  have ul: "unat len = length (aq_front A)"
    using settled_front(2) [OF st d(1)] len(1) by simp
  show ?thesis
  proof (cases k)
    case 0
    let ?w = "DL_new i len"
    have "inv (q\<lparr>dequeuing_length := ?w\<rparr>) (ps[t := Idle]) A lo xs (Deq_Open ?w None)"
      by (rule own_unlock [OF inv t(1) _ pk _ cap]) (use t(2) i len in \<open>simp_all add: is_dequeuing_def\<close>)
    with 0 show ?thesis
      by (auto simp: go_deq_spin_def abs_step_def)
  next
    case (Suc k')
    let ?p = "if len \<le> ?n then Deq_Slice i len ?n else Deq_Spin k' i len"
    have "unacked_sum content (deq_index q) ps = 0 \<and> ?n \<noteq> 0" if "len \<le> ?n"
      using st that ul len(2) by (auto simp: settled_def word_le_nat_alt)
    then have "inv q (ps[t := ?p]) A lo xs ?p"
      by (intro own_local [OF inv t(1)])
        (use t(2) pk st i len cap in \<open>auto simp: is_dequeuing_def pc_honest_def cap_ok_def quiet_front_def\<close>)
    with Suc i show ?thesis
      by (auto simp: go_deq_spin_def abs_step_def Let_def)
  qed
qed

lemma quiet_frontD:
  assumes inv: "inv q ps A lo xs h" and qf: "quiet_front (dview_of B content q ps lo xs) A i r"
  defines "n \<equiv> two_get (buffers_length q) (deq_index q)"
  shows "i = deq_index q" and "r = (n - of_nat (length (aq_front A)), n)" and "xs = aq_front A"
    and "rep (two_get (buffers q) i) (seg lo (aq_front A))"
    and "unat (fst r) = lo" and "unat (snd r) = lo + length (aq_front A)"
    and "snd r \<le> buf_capacity B (two_get (buffers q) i)" and "fst r \<le> snd r"
    and "unat (snd r - fst r) = length (aq_front A)" and "snd r \<noteq> 0"
proof -
  note d = inv_atD [OF inv]
  have st: "settled (dview_of B content q ps lo xs) A" and un: "unacked_sum content (deq_index q) ps = 0"
    and i: "i = deq_index q" and r: "r = (n - of_nat (length (aq_front A)), n)"
    and nz: "n \<noteq> 0"
    using qf by (simp_all add: quiet_front_def n_def)
  have n: "unat n = lo + length (aq_front A)" and xs: "xs = aq_front A"
    and cap: "unat (buf_capacity B (two_get (buffers q) i)) = aq_other A" "unat n \<le> aq_other A"
    using st un i by (auto simp: settled_def n_def)
  have "of_nat (length (aq_front A)) \<le> n"
    using n settled_front(2) [OF st d(1)] by (simp add: word_le_nat_alt)
  then have lo: "unat (n - of_nat (length (aq_front A))) = lo"
    using n settled_front(2) [OF st d(1)] by (simp add: unat_sub)
  show "i = deq_index q" "r = (n - of_nat (length (aq_front A)), n)" "xs = aq_front A"
    "unat (fst r) = lo" "unat (snd r) = lo + length (aq_front A)"
    using i r xs n lo by simp_all
  show "snd r \<noteq> 0"
    using r nz by simp
  show "snd r \<le> buf_capacity B (two_get (buffers q) i)" and "fst r \<le> snd r"
    using cap r n lo by (simp_all add: word_le_nat_alt)
  show "unat (snd r - fst r) = length (aq_front A)"
    using r settled_front(2) [OF st d(1)] by simp
  show "rep (two_get (buffers q) i) (seg lo (aq_front A))"
    using d(3) i xs by (simp add: side_acked [OF un])
qed

lemma slice_step:
  assumes inv: "inv q ps A lo xs h" and t: "t < length ps" "ps ! t = Deq_Slice i len n"
  shows "\<exists>p s. go_deq_slice S q i len n = Inr (q, p, Ev_Sliced s) \<and> inv q (ps[t := p]) A lo xs p \<and>
    view s = map img (aq_front A)"
proof -
  note d = inv_atD [OF inv]
  have own: "h = Deq_Slice i len n"
    using owner(1) [OF inv t(1)] t(2) by (simp add: is_dequeuing_def)
  then have qf: "quiet_front (dview_of B content q ps lo xs) A i (n - len, n)" and front: "aq_front A \<noteq> []"
    using d(6) by auto
  note f = quiet_frontD [OF inv qf]
  obtain s where s: "buf_slice B (two_get (buffers q) i) (n - len, n) = Inr s" "view s = map img (aq_front A)"
    using slice_seg [of "two_get (buffers q) i" "n - len" "aq_front A" n] f(4-7) front by auto
  let ?p = "Holding \<lparr>slice_buffer_index = i, slice_range = (n - len, n), slice_slice = s\<rparr>"
  have "inv q (ps[t := ?p]) A lo xs ?p"
    by (rule own_local [OF inv t(1)])
      (use t(2) qf s(2) d(7) own in \<open>simp_all add: is_dequeuing_def pc_honest_def cap_ok_def\<close>)
  moreover have "len \<le> n"
    using f(6,9) by (simp add: word_le_nat_alt)
  ultimately show ?thesis
    using s by (auto simp: go_deq_slice_def sys_parts)
qed

lemma store_step:
  assumes inv: "inv q ps A lo xs h" and t: "t < length ps" "ps ! t = Deq_Store w err"
  shows "inv (q\<lparr>dequeuing_length := w\<rparr>) (ps[t := Idle]) A lo xs (Deq_Open w None)"
proof -
  have own: "h = Deq_Store w err"
    using owner(1) [OF inv t(1)] t(2) by (simp add: is_dequeuing_def)
  show ?thesis
    by (rule own_unlock [OF inv t(1)])
      (use t(2) own inv_atD(6,7) [OF inv] in \<open>simp_all add: is_dequeuing_def cap_ok_def\<close>)
qed

text \<open>Releasing and handles.\<close>

lemma release_begin:
  assumes inv: "inv q ps A lo xs h" and t: "t < length ps" "is_dequeuing (ps ! t)"
    and qf: "quiet_front (dview_of B content q ps lo xs) A i r"
    and cap: "capacity q = buf_capacity B (two_get (buffers q) (enq_index q))"
  shows "inv q (ps[t := Rel_Clear i r]) (A\<lparr>aq_front := []\<rparr>) lo xs (Rel_Clear i r)"
proof -
  note f = quiet_frontD [OF inv qf]
  have "deq_ok img view inserted (dview_of B content q ps lo xs) (A\<lparr>aq_front := []\<rparr>) (Rel_Clear i r)"
    using f qf by (simp add: quiet_front_def settled_def)
  then show ?thesis
    by (intro own_local [OF inv t]) (use cap in \<open>simp_all add: is_dequeuing_def pc_honest_def cap_ok_def\<close>)
qed

lemma requeue_step:
  assumes inv: "inv q ps A lo xs h" and t: "t < length ps" "is_dequeuing (ps ! t)"
    and qf: "quiet_front (dview_of B content q ps lo xs) A i r"
    and cap: "capacity q = buf_capacity B (two_get (buffers q) (enq_index q))"
  shows "\<exists>q' p h'. handle_requeue q i r = Inr (q', p, Tau :: ('v, 's, 'c, 'r) event) \<and>
    inv q' (ps[t := p]) A lo xs h'"
proof (cases "aq_front A = []")
  case True
  then have "A\<lparr>aq_front := []\<rparr> = A"
    by (cases A) simp
  with release_begin [OF inv t qf cap] quiet_frontD(8,9) [OF inv qf] True show ?thesis
    by (auto simp: handle_requeue_def word_gt_0 usize_eq_iff)
next
  case False
  note f = quiet_frontD [OF inv qf]
  have pk: "parked (dview_of B content q ps lo xs) A"
    using qf False by (simp add: parked_def quiet_front_def)
  have len: "snd r - fst r = of_nat (length (aq_front A))" "0 < snd r - fst r"
    using f(2,9) False by (simp_all add: word_less_nat_alt)
  let ?w = "DL_new i (snd r - fst r)"
  have "inv (q\<lparr>dequeuing_length := ?w\<rparr>) (ps[t := Idle]) A lo xs (Deq_Open ?w None)"
    by (rule own_unlock [OF inv t pk _ cap]) (simp add: f(1) len(1))
  with len(2) f(8) show ?thesis
    by (auto simp: handle_requeue_def)
qed

lemma clear_step:
  assumes inv: "inv q ps A lo xs h" and t: "t < length ps" "ps ! t = Rel_Clear i r"
  shows "\<exists>b. buf_clear B (two_get (buffers q) i) r = Inr b \<and>
    inv (q\<lparr>buffers := two_set (buffers q) i b\<rparr>) (ps[t := Rel_Len i]) A lo [] (Rel_Len i)"
proof -
  let ?d = "deq_index q" and ?e = "enq_index q"
  note d = inv_atD [OF inv]
  have own: "h = Rel_Clear i r"
    using owner(1) [OF inv t(1)] t(2) by (simp add: is_dequeuing_def)
  then have ok: "i = ?d" "aq_front A = []" "unacked_sum content ?d ps = 0" "unat (fst r) = lo"
    "unat (snd r) = lo + length xs" "snd r \<le> buf_capacity B (two_get (buffers q) ?d)"
    "unat (buf_capacity B (two_get (buffers q) ?d)) = aq_other A"
    and cap: "capacity q = buf_capacity B (two_get (buffers q) ?e)"
    using d(6,7) by (simp_all add: cap_ok_def)
  note quiet = side_acked [OF ok(3), of rep]
  obtain b where b: "buf_clear B (two_get (buffers q) ?d) r = Inr b" "rep b Map.empty"
    "buf_capacity B b = buf_capacity B (two_get (buffers q) ?d)"
    using clear_seg [of "two_get (buffers q) ?d" "fst r" xs "snd r"] ok d(3) by (auto simp: quiet)
  let ?q = "q\<lparr>buffers := two_set (buffers q) ?d b\<rparr>"
  have sc: "same_caps B q ?q"
    by (rule same_caps_set [OF _ b(3)]) simp
  have "inv ?q (ps[t := Rel_Len ?d]) A lo [] (Rel_Len ?d)"
    by (rule own_step [OF inv t(1)])
      (use t(2) d(1,2,4) ok b cap in \<open>simp_all add: is_dequeuing_def unclaiming_def pc_honest_def quiet
        same_caps_simps(1,2) [OF sc] same_caps_simps(3) [OF sc, of content "enq_index q"] enq_ok_def Let_def cap_ok_def\<close>)
  with b(1) ok(1) show ?thesis by blast
qed

lemma clear_len_step:
  assumes inv: "inv q ps A lo xs h" and t: "t < length ps" "ps ! t = Rel_Len i"
  shows "inv (q\<lparr>buffers_length := two_set (buffers_length q) i 0\<rparr>) (ps[t := Rel_Unlock i]) A 0 [] (Rel_Unlock i)"
proof -
  note d = inv_atD [OF inv]
  let ?q = "q\<lparr>buffers_length := two_set (buffers_length q) i 0\<rparr>"
  have own: "h = Rel_Len i"
    using owner(1) [OF inv t(1)] t(2) by (simp add: is_dequeuing_def)
  then have ok: "i = deq_index q" "aq_front A = []" "xs = []" "unacked_sum content (deq_index q) ps = 0"
    "unat (buf_capacity B (two_get (buffers q) (deq_index q))) = aq_other A"
    using d(6) by simp_all
  have sc: "same_caps B q ?q"
    by (simp add: same_caps_def)
  show ?thesis
    by (rule own_step [OF inv t(1)])
      (use t(2) d ok own in \<open>simp_all add: is_dequeuing_def unclaiming_def pc_honest_def
        same_caps_simps(1,2,3) [OF sc] enq_ok_def Let_def cap_ok_def side_acked [OF ok(4), of rep]\<close>)
qed

lemma unlock_step:
  assumes inv: "inv q ps A lo xs h" and t: "t < length ps" "ps ! t = Rel_Unlock i"
  shows "inv (q\<lparr>dequeuing_length := DL_new i 0\<rparr>) (ps[t := Idle]) A 0 [] (Deq_Open (DL_new i 0) None)"
proof -
  note d = inv_atD [OF inv]
  have own: "h = Rel_Unlock i"
    using owner(1) [OF inv t(1)] t(2) by (simp add: is_dequeuing_def)
  then have ok: "i = deq_index q" "aq_front A = []" "lo = 0" "xs = []"
    and pk: "parked (dview_of B content q ps lo xs) A"
    and cap: "capacity q = buf_capacity B (two_get (buffers q) (enq_index q))"
    using d(6,7) by (simp_all add: cap_ok_def parked_def settled_def)
  then show ?thesis
    using own_unlock [OF inv t(1) _ pk refl cap] t(2) by (simp add: is_dequeuing_def)
qed

lemma next_step:
  assumes inv: "inv q ps A lo xs h" and t: "t < length ps" "ps ! t = Iterating it"
    and remove: "sys_remove S = Some remove"
  shows "\<exists>x q' it' A' lo' xs'. BufferIter_next remove q it = Inr (x, q', it') \<and>
    inv q' (ps[t := Iterating it']) A' lo' xs' (Iterating it') \<and>
    abs_step img view content inserted (case x of None \<Rightarrow> Tau | Some y \<Rightarrow> Ev_Removed y) A A'"
proof (cases "aq_front A")
  note d = inv_atD [OF inv]
  have own: "h = Iterating it" "dequeuing_length q = DEQUEUING_LOCKED"
    using owner(1,2) [OF inv t(1)] t(2) by (simp_all add: is_dequeuing_def)
  then have qf: "quiet_front (dview_of B content q ps lo xs) A (iter_buffer_index it) (iter_range it)"
    and cap: "capacity q = buf_capacity B (two_get (buffers q) (enq_index q))"
    using d(6,7) by (simp_all add: cap_ok_def)
  note f = quiet_frontD [OF inv qf]
  {
    case Nil
    then have "\<not> fst (iter_range it) < snd (iter_range it)"
      using f(5,6) by (simp add: word_less_nat_alt)
    moreover have "ps[t := Iterating it] = ps"
      using list_update_id [of ps t] t(2) by simp
    ultimately show ?thesis
      using inv own by (auto simp: BufferIter_next_def abs_step_def)
  next
    case (Cons x ys)
    let ?d = "deq_index q" and ?lo = "fst (iter_range it)"
    have un: "unacked_sum content ?d ps = 0" and st: "settled (dview_of B content q ps lo xs) A"
      using qf by (simp_all add: quiet_front_def)
    have "seg lo (aq_front A) (unat ?lo) = Some x"
      by (simp add: f(5) Cons seg_def)
    then obtain b where b: "remove (two_get (buffers q) ?d) ?lo = Inr (x, b)"
      "rep b ((seg lo (aq_front A))(lo := None))"
      "buf_capacity B b = buf_capacity B (two_get (buffers q) ?d)"
      using remove_law [OF remove f(4)] f(1,5) by auto
    let ?q = "q\<lparr>buffers := two_set (buffers q) ?d b\<rparr>" and ?A = "A\<lparr>aq_front := ys\<rparr>"
    let ?it = "it\<lparr>iter_range := (?lo + 1, snd (iter_range it))\<rparr>"
    have sc: "same_caps B q ?q"
      by (rule same_caps_set [OF _ b(3)]) simp
    have "rep b (seg (Suc lo) ys)"
      using b(2) seg_tl [of "aq_front A" lo] Cons by simp
    moreover have lt: "?lo < snd (iter_range it)" "add_usize ?lo 1 = Inr (?lo + 1)"
      using f(5,6) Cons unat_usize_less [of "snd (iter_range it)"]
      by (simp_all add: word_less_nat_alt add_usize_ok)
    moreover have "quiet_front (dview_of B content ?q ps (Suc lo) ys) ?A (iter_buffer_index ?it) (iter_range ?it)"
      using qf f(2) Cons b(3) by (auto simp: quiet_front_def settled_def)
    ultimately have "inv ?q (ps[t := Iterating ?it]) ?A (Suc lo) ys (Iterating ?it)"
      by (intro own_step [OF inv t(1)])
        (use t(2) d(1,2,4) cap in \<open>simp_all add: is_dequeuing_def unclaiming_def pc_honest_def
          side_acked [OF un, of rep] same_caps_simps(1,2) [OF sc]
          same_caps_simps(3) [OF sc, of content "enq_index q"] enq_ok_def Let_def cap_ok_def\<close>)
    moreover have "BufferIter_next remove q it = Inr (Some x, ?q, ?it)"
      using lt b(1) own(2) f(1) by (simp add: BufferIter_next_def Queue_remove_def)
    ultimately show ?thesis
      using Cons by (fastforce simp: abs_step_def)
  }
qed

lemma into_slice_step:
  assumes inv: "inv q ps A lo xs h" and t: "t < length ps" "ps ! t = Iterating it"
    and drain: "sys_remove S \<noteq> None"
  shows "\<exists>s. BufferIter_into_slice B q it = Inr s \<and> inv q (ps[t := Holding s]) A lo xs (Holding s) \<and>
    view (slice_slice s) = map img (aq_front A)"
proof -
  note d = inv_atD [OF inv]
  have own: "h = Iterating it"
    using owner(1) [OF inv t(1)] t(2) by (simp add: is_dequeuing_def)
  then have qf: "quiet_front (dview_of B content q ps lo xs) A (iter_buffer_index it) (iter_range it)"
    and cap: "capacity q = buf_capacity B (two_get (buffers q) (enq_index q))"
    using d(6,7) by (simp_all add: cap_ok_def)
  note f = quiet_frontD [OF inv qf]
  obtain s where s: "buf_slice B (two_get (buffers q) (iter_buffer_index it)) (iter_range it) = Inr s"
    "view s = map img (aq_front A)"
  proof (cases "aq_front A = []")
    case True
    then have "iter_range it = (snd (iter_range it), snd (iter_range it))"
      using f(5,6) by (simp add: prod_eq_iff usize_eq_iff)
    with True empty_slice_law [OF drain f(4,10,7)] that show ?thesis
      by (metis list.simps(8))
  next
    case False
    with that slice_seg [of "two_get (buffers q) (iter_buffer_index it)" "fst (iter_range it)" "aq_front A"
        "snd (iter_range it)"] f(4-7) show ?thesis by auto
  qed
  let ?s = "\<lparr>slice_buffer_index = iter_buffer_index it, slice_range = iter_range it, slice_slice = s\<rparr>"
  have "inv q (ps[t := Holding ?s]) A lo xs (Holding ?s)"
    by (rule own_local [OF inv t(1)])
      (use t(2) qf s(2) cap in \<open>simp_all add: is_dequeuing_def pc_honest_def cap_ok_def\<close>)
  with s show ?thesis
    by (simp add: BufferIter_into_slice_def Queue_get_slice_def)
qed

end

end
