(* ===== verification/Concurrent_Safety.thy ===== *)
theory Concurrent_Safety
  imports Concurrent_Dequeue
begin

text \<open>
  Every step of every thread keeps the invariant (\<open>thread_step_ok\<close>), so it holds in every reachable
  state (\<open>steps_inv\<close>, by rule induction over \<open>sys_steps\<close>). The consequences, proved once for
  every \<open>conc_system\<close>: no step faults, one dequeuer at a time, no conflicting buffer accesses, the
  values come out in the order in which they were reserved, and a dequeue only has to wait for
  enqueuers that are in flight. \<open>produced\<close> and \<open>consumed\<close> read the values that went in and
  came out off a trace.
\<close>

section \<open>Calls and traces\<close>

text \<open>Calls pass values that are what they say, and closures that fit the buffer they fill.\<close>

definition choice_ok ::
    "('v \<Rightarrow> bool) \<Rightarrow> ('v \<Rightarrow> 'c list) \<Rightarrow> ('r \<Rightarrow> bool) \<Rightarrow> ('v, 'r) choice \<Rightarrow> bool" where
  "choice_ok honest content good ch =
     (case ch of
        Start (Req_Enqueue v) \<Rightarrow> honest v \<and> length (content v) < 9223372036854775808
      | Start (Req_Dequeue r) \<Rightarrow> pred_option good r
      | _ \<Rightarrow> True)"

definition conc_inv ::
    "('b, 's) buffer_trait \<Rightarrow> ('b \<Rightarrow> (nat \<rightharpoonup> 'c) \<Rightarrow> bool) \<Rightarrow> ('c \<Rightarrow> 'd) \<Rightarrow> ('s \<Rightarrow> 'd list) \<Rightarrow>
     ('v \<Rightarrow> bool) \<Rightarrow> ('v \<Rightarrow> 'c list) \<Rightarrow> ('r \<Rightarrow> bool) \<Rightarrow> ('r \<Rightarrow> 'c list) \<Rightarrow>
     ('b, 'n, 'v, 's, 'r) state \<Rightarrow> 'c aqueue \<Rightarrow> bool" where
  "conc_inv B rep img view honest content good inserted c A \<longleftrightarrow>
     (\<exists>lo xs h. inv_at B rep img view honest content good inserted (shared c) (threads c) A lo xs h)"

definition produced ::
    "('v \<Rightarrow> 'c list) \<Rightarrow> ('r \<Rightarrow> 'c list) \<Rightarrow> ('v, 's, 'c, 'r) event list \<Rightarrow> 'c list" where
  "produced content inserted tr =
     concat (map (\<lambda>ev. case ev of Ev_Reserved v \<Rightarrow> content v | Ev_Swapped r \<Rightarrow> inserted_opt inserted r
                  | _ \<Rightarrow> []) tr)"

definition consumed ::
    "('c \<Rightarrow> 'd) \<Rightarrow> ('s \<Rightarrow> 'd list) \<Rightarrow> ('v, 's, 'c, 'r) event list \<Rightarrow> 'd list" where
  "consumed img view tr =
     concat (map (\<lambda>ev. case ev of Ev_Released s \<Rightarrow> view s | Ev_Removed x \<Rightarrow> [img x] | _ \<Rightarrow> []) tr)"

lemma history_step:
  assumes "abs_step img view content inserted ev A A'"
    and "map img (P @ produced content inserted tr) = consumed img view tr @ map img (aq_front A @ aq_back A)"
  shows "map img (P @ produced content inserted (tr @ [ev])) =
    consumed img view (tr @ [ev]) @ map img (aq_front A' @ aq_back A')"
  using assms by (cases ev) (auto simp: abs_step_def produced_def consumed_def)

lemma trace_Nil [simp]: "produced content inserted [] = []" "consumed img view [] = []"
  by (simp_all add: produced_def consumed_def)

lemma trace_Cons:
  "produced content inserted (ev # tr) = produced content inserted [ev] @ produced content inserted tr"
  "consumed img view (ev # tr) = consumed img view [ev] @ consumed img view tr"
  by (simp_all add: produced_def consumed_def)

lemma history_compose:
  assumes "map img (P @ produced content inserted [ev]) = consumed img view [ev] @ map img Q"
    and "map img (Q @ produced content inserted tr) = consumed img view tr @ R"
  shows "map img (P @ produced content inserted (ev # tr)) = consumed img view (ev # tr) @ R"
proof -
  have "map img (P @ produced content inserted (ev # tr)) =
      map img (P @ produced content inserted [ev]) @ map img (produced content inserted tr)"
    by (subst trace_Cons) simp
  also have "\<dots> = consumed img view [ev] @ map img (Q @ produced content inserted tr)"
    unfolding assms(1) by simp
  finally show ?thesis
    unfolding assms(2) trace_Cons(2) [of img view ev tr] by simp
qed

section \<open>Buffer accesses\<close>

text \<open>
  The access to a buffer that the next step of a thread makes, or that its handle lets it make at any
  time: a shared one (through \<open>&B\<close>, writing the cells of a set) or an exclusive one
  (\<open>&mut B\<close>). Two accesses of different threads conflict when one of them is exclusive, or when
  they write the same cell.
\<close>

datatype access = No_Access | Shared_Access usize "nat set" | Exclusive_Access usize

definition next_access ::
    "('b, 's) buffer_trait \<Rightarrow> ('b, 'v) insert_trait \<Rightarrow> ('b, 'n) queue \<Rightarrow> ('v, 's, 'r) pc \<Rightarrow> access" where
  "next_access B I q p =
     (case p of
        Enq_Insert v w \<Rightarrow>
          let start = unat (buf_capacity B (two_get (buffers q) (EC_buffer_index w)))
                        - unat (EC_remaining_capacity w)
          in Shared_Access (EC_buffer_index w) {start..<start + unat (ins_size I v)}
      | Deq_Open w r \<Rightarrow>
          if DL_buffer_len w = 0 then Exclusive_Access (DL_buffer_index w) else No_Access
      | Deq_Check w r nc rs ins enq \<Rightarrow> Shared_Access (EC_buffer_index enq) {}
      | Deq_Slice i len n \<Rightarrow> Exclusive_Access i
      | Holding s \<Rightarrow> Exclusive_Access (slice_buffer_index s)
      | Iterating it \<Rightarrow> Exclusive_Access (iter_buffer_index it)
      | Rel_Clear i r \<Rightarrow> Exclusive_Access i
      | _ \<Rightarrow> No_Access)"

definition conflicting :: "access \<Rightarrow> access \<Rightarrow> bool" where
  "conflicting a b =
     (case a of
        No_Access \<Rightarrow> False
      | Shared_Access i X \<Rightarrow>
          (case b of No_Access \<Rightarrow> False | Shared_Access j Y \<Rightarrow> i = j \<and> X \<inter> Y \<noteq> {}
           | Exclusive_Access j \<Rightarrow> i = j)
      | Exclusive_Access i \<Rightarrow>
          (case b of No_Access \<Rightarrow> False | Shared_Access j Y \<Rightarrow> i = j | Exclusive_Access j \<Rightarrow> i = j))"

text \<open>A thread has reserved cells of the buffer \<open>i\<close> that are not yet counted in its length.\<close>

definition in_flight :: "usize \<Rightarrow> ('v, 's, 'r) pc \<Rightarrow> bool" where
  "in_flight i p =
     (case p of Enq_Insert v w \<Rightarrow> EC_buffer_index w = i | Enq_Ack v w \<Rightarrow> EC_buffer_index w = i | _ \<Rightarrow> False)"

section \<open>Steps\<close>

context conc_system
begin

text \<open>What every step has to show.\<close>

definition step_ok ::
    "('v, 's, 'r) pc list \<Rightarrow> nat \<Rightarrow> 'c aqueue \<Rightarrow>
     (('b, 'n) queue \<times> ('v, 's, 'r) pc \<times> ('v, 's, 'c, 'r) event) exec \<Rightarrow> bool" where
  "step_ok ps t A r \<longleftrightarrow>
     (\<exists>q' p ev A' lo' xs' h'. r = Inr (q', p, ev) \<and> inv q' (ps[t := p]) A' lo' xs' h' \<and>
        abs_step img view content inserted ev A A')"

lemma step_okI:
  "inv q' (ps[t := p]) A' lo' xs' h' \<Longrightarrow> abs_step img view content inserted ev A A' \<Longrightarrow>
   step_ok ps t A (Inr (q', p, ev))"
  unfolding step_ok_def by blast

lemma closed_same: "inv q ps A lo xs h \<Longrightarrow> A = A\<lparr>aq_closed := EC_is_closed (enqueuing_capacity q)\<rparr>"
  using enq_okD(1) [OF inv_atD(2)] by (cases A) fastforce

lemma quiet_step:
  assumes "inv q ps A lo xs h" and "t < length ps" "\<not> is_dequeuing (ps ! t)" "\<not> is_dequeuing p"
    and "unclaiming (ps ! t)" "unclaiming p" and "pc_honest honest content good p"
    and "q' = q \<or> (\<exists>n. q' = q\<lparr>notify := n\<rparr>)" and "abs_step img view content inserted ev A A"
  shows "step_ok ps t A (Inr (q', p, ev))"
proof (rule step_okI [OF silent_step [OF assms(1-7)] assms(9)])
  show "A = A\<lparr>aq_closed := EC_is_closed (enqueuing_capacity q')\<rparr>"
    using closed_same [OF assms(1)] assms(8) by auto
qed (use assms(8) in auto)

lemma start_step_ok:
  assumes inv: "inv q ps A lo xs h" and t: "t < length ps" "ps ! t = Idle"
    and ok: "choice_ok honest content good (Start req)" and r: "step_start S q req = Some r"
  shows "step_ok ps t A r"
proof -
  have "content v \<noteq> []" if "req = Req_Enqueue v" "ins_size I v \<noteq> 0" for v
    using size_neq_0 [of v] ok that by (simp add: choice_ok_def)
  then show ?thesis
    using r ok
    by (cases req) (auto simp: sys_parts choice_ok_def is_dequeuing_def unclaiming_def abs_step_def t(2)
        pc_honest_def split: if_splits intro!: quiet_step [OF inv t(1)])
qed

lemma cas_step_ok:
  assumes inv: "inv q ps A lo xs h" and t: "t < length ps" "ps ! t = Enq_Cas v w"
  shows "step_ok ps t A (Inr (go_enq_cas S sp q v w))"
proof (cases "\<not> sp \<and> enqueuing_capacity q = w \<and> \<not> EC_is_closed w \<and> EC_try_reserve w (ins_size I v) \<noteq> None")
  case True
  then obtain w' where w': "EC_try_reserve w (ins_size I v) = Some w'"
    by blast
  with True have "go_enq_cas S sp q v w = (q\<lparr>enqueuing_capacity := w'\<rparr>, Enq_Insert v w, Ev_Reserved v)"
    by (simp add: go_enq_cas_def cas_weak_def sys_parts)
  with reserve_step [OF inv t _ _ w'] True show ?thesis
    by (auto intro!: step_okI simp: abs_step_def)
next
  case False
  have "pc_honest honest content good (Enq_Cas v enq)" for enq
    using inv_atD(4) [OF inv t(1)] t(2) by simp
  with False show ?thesis
    unfolding go_enq_cas_def cas_weak_def
    by (auto simp: sys_parts is_dequeuing_def unclaiming_def abs_step_def t(2)
        split: option.split intro!: quiet_step [OF inv t(1)])
qed

lemma flag_step_ok:
  assumes inv: "inv q ps A lo xs h" and t: "t < length ps"
    and p: "\<not> is_dequeuing (ps ! t)" "\<not> is_dequeuing p" "unclaiming (ps ! t)" "unclaiming p"
      "pc_honest honest content good p"
    and w: "w = EC_close (enqueuing_capacity q) \<or> w = EC_reopen (enqueuing_capacity q)"
  shows "step_ok ps t A (Inr (q\<lparr>enqueuing_capacity := w\<rparr>, p, Tau))"
proof (rule step_okI [OF silent_step [OF inv t p]])
  show "A\<lparr>aq_closed := EC_is_closed w\<rparr> =
      A\<lparr>aq_closed := EC_is_closed (enqueuing_capacity (q\<lparr>enqueuing_capacity := w\<rparr>))\<rparr>"
    by simp
qed (use w in \<open>auto simp: abs_step_def\<close>)

lemma swap_step_ok:
  assumes inv: "inv q ps A lo xs h" and t: "t < length ps" "ps ! t = Deq_Swap r nc rs ins capa enq ne"
  shows "step_ok ps t A (Inr (go_deq_swap sp q r nc rs ins capa enq ne))"
proof (cases "\<not> sp \<and> enqueuing_capacity q = enq")
  case True
  with swap_ok [OF inv t] show ?thesis
    by (auto simp: go_deq_swap_def cas_weak_def abs_step_def intro!: step_okI)
next
  case False
  with swap_retry [OF inv t] show ?thesis
    by (auto simp: go_deq_swap_def cas_weak_def abs_step_def intro!: step_okI)
qed

lemma abs_Tau [simp]: "abs_step img view content inserted Tau A A"
  by (simp add: abs_step_def)

lemma go_owner_ok:
  assumes inv: "inv q ps A lo xs h" and t: "t < length ps" and r: "step_go S sp q (ps ! t) = Some r"
    and own: "is_dequeuing (ps ! t)"
  shows "step_ok ps t A r"
proof (cases "ps ! t")
  case (Deq_Open w rq)
  show ?thesis
  proof (cases "aq_front A = []")
    case True
    with open_resize [OF inv t Deq_Open] r Deq_Open show ?thesis by (auto intro!: step_okI)
  next
    case False
    with open_spin [OF inv t Deq_Open] r Deq_Open show ?thesis by (auto intro!: step_okI)
  qed
next
  case (Deq_Add w rq nc rs ins)
  with add_step [OF inv t] r show ?thesis by (auto intro!: step_okI)
next
  case (Deq_Load w rq nc rs ins)
  with load_step [OF inv t] r show ?thesis by (auto intro!: step_okI)
next
  case (Deq_Check w rq nc rs ins enq)
  with check_step [OF inv t] r show ?thesis by (auto intro!: step_okI)
next
  case (Deq_Swap rq nc rs ins capa enq ne)
  with swap_step_ok [OF inv t] r show ?thesis by auto
next
  case (Deq_Capacity nc rs ins capa enq)
  from step_okI [OF capacity_step [OF inv t Deq_Capacity] abs_Tau] Deq_Capacity r show ?thesis by auto
next
  case (Deq_Notify rs ins capa enq)
  with notify_step [OF inv t] r show ?thesis by (auto intro!: step_okI)
next
  case (Deq_Spin k i len)
  with spin_step [OF inv t] r show ?thesis by (auto intro!: step_okI)
next
  case (Deq_Slice i len n)
  with slice_step [OF inv t] r show ?thesis by (auto simp: abs_step_def intro!: step_okI)
next
  case (Deq_Store w e)
  with store_step [OF inv t] r show ?thesis by (auto simp: abs_step_def intro!: step_okI)
next
  case (Rel_Clear i rg)
  with clear_step [OF inv t] r show ?thesis by (auto simp: sys_parts intro!: step_okI)
next
  case (Rel_Len i)
  with clear_len_step [OF inv t] r show ?thesis by (auto intro!: step_okI)
next
  case (Rel_Unlock i)
  with unlock_step [OF inv t] r show ?thesis by (auto intro!: step_okI)
qed (use r own in \<open>simp_all add: is_dequeuing_def\<close>)

lemma go_other_ok:
  assumes inv: "inv q ps A lo xs h" and t: "t < length ps" and r: "step_go S sp q (ps ! t) = Some r"
    and other: "\<not> is_dequeuing (ps ! t)"
  shows "step_ok ps t A r"
proof (cases "ps ! t")
  case (Enq_Load v)
  moreover have "pc_honest honest content good (Enq_Cas v enq)" for enq
    using inv_atD(4) [OF inv t] Enq_Load by simp
  ultimately show ?thesis
    using r by (auto simp: is_dequeuing_def unclaiming_def intro!: quiet_step [OF inv t])
next
  case (Enq_Cas v w)
  with cas_step_ok [OF inv t Enq_Cas] r show ?thesis by auto
next
  case (Enq_Insert v w)
  with insert_step [OF inv t] r show ?thesis by (auto intro!: step_okI)
next
  case (Enq_Ack v w)
  with ack_step [OF inv t] r show ?thesis by (auto intro!: step_okI)
next
  case Enq_Notify
  with r show ?thesis
    by (auto simp: is_dequeuing_def unclaiming_def abs_step_def intro!: quiet_step [OF inv t])
next
  case (Deq_Lock rq)
  with lock_step [OF inv t] r show ?thesis by (auto intro!: step_okI)
next
  case Close_Flag
  with r show ?thesis
    by (auto simp: is_dequeuing_def unclaiming_def pc_honest_def intro!: flag_step_ok [OF inv t])
next
  case Close_Dequeue
  with r show ?thesis
    by (auto simp: is_dequeuing_def unclaiming_def pc_honest_def intro!: quiet_step [OF inv t])
next
  case Close_Enqueue
  with r show ?thesis
    by (auto simp: is_dequeuing_def unclaiming_def pc_honest_def intro!: quiet_step [OF inv t])
next
  case Reopen_Flag
  with r show ?thesis
    by (auto simp: is_dequeuing_def unclaiming_def pc_honest_def intro!: flag_step_ok [OF inv t])
qed (use r other in \<open>simp_all add: is_dequeuing_def\<close>)

lemma go_step_ok:
  assumes "inv q ps A lo xs h" and "t < length ps" and "step_go S sp q (ps ! t) = Some r"
  shows "step_ok ps t A r"
  using go_owner_ok [OF assms] go_other_ok [OF assms] by blast

lemma handle_slice_ok:
  assumes inv: "inv q ps A lo xs h" and t: "t < length ps" "ps ! t = Holding s"
    and r: "handle_slice S q op s = Some r"
  shows "step_ok ps t A r"
proof -
  have deq: "is_dequeuing (ps ! t)"
    using t(2) by (simp add: is_dequeuing_def)
  have own: "h = Holding s"
    using owner(1) [OF inv t(1) deq] t(2) by simp
  then have qf: "quiet_front (dview_of B content q ps lo xs) A (slice_buffer_index s) (slice_range s)"
    and cap: "capacity q = buf_capacity B (two_get (buffers q) (enq_index q))"
    and shown: "view (slice_slice s) = map img (aq_front A)"
    using inv_atD(6,7) [OF inv] by (simp_all add: cap_ok_def)
  have "inv q (ps[t := Iterating (BufferSlice_into_iter s)]) A lo xs (Iterating (BufferSlice_into_iter s))"
    by (rule own_local [OF inv t(1) deq])
      (use qf cap in \<open>simp_all add: is_dequeuing_def pc_honest_def cap_ok_def BufferSlice_into_iter_def\<close>)
  then show ?thesis
    using r release_begin [OF inv t(1) deq qf cap] requeue_step [OF inv t(1) deq qf cap] shown
    by (cases op) (auto simp: handle_slice_def abs_step_def split: if_splits intro!: step_okI)
qed

lemma handle_iter_ok:
  assumes inv: "inv q ps A lo xs h" and t: "t < length ps" "ps ! t = Iterating it"
    and r: "handle_iter S q op it = Some r"
  shows "step_ok ps t A r"
proof -
  have deq: "is_dequeuing (ps ! t)"
    using t(2) by (simp add: is_dequeuing_def)
  have own: "h = Iterating it"
    using owner(1) [OF inv t(1) deq] t(2) by simp
  then have qf: "quiet_front (dview_of B content q ps lo xs) A (iter_buffer_index it) (iter_range it)"
    and cap: "capacity q = buf_capacity B (two_get (buffers q) (enq_index q))"
    using inv_atD(6,7) [OF inv] by (simp_all add: cap_ok_def)
  show ?thesis
  proof (cases op)
    case Op_Drop
    with r requeue_step [OF inv t(1) deq qf cap] show ?thesis
      by (auto simp: handle_iter_def intro!: step_okI)
  next
    case Op_Next
    with r obtain remove where rm: "sys_remove S = Some remove"
      by (auto simp: handle_iter_def split: option.splits)
    with next_step [OF inv t rm] Op_Next r show ?thesis
      by (auto simp: handle_iter_def intro: step_okI)
  next
    case Op_Into_Slice
    with r into_slice_step [OF inv t] show ?thesis
      by (auto simp: handle_iter_def sys_parts abs_step_def split: if_splits intro!: step_okI)
  qed (use r in \<open>simp_all add: handle_iter_def\<close>)
qed

lemma thread_step_ok:
  assumes inv: "inv q ps A lo xs h" and t: "t < length ps" and ok: "choice_ok honest content good ch"
    and r: "thread_step S q (ps ! t) ch = Some r"
  shows "step_ok ps t A r"
proof (cases ch)
  case (Start req)
  with r ok start_step_ok [OF inv t] show ?thesis
    by (auto simp: thread_step_def split: if_splits)
next
  case (Go sp)
  with r go_step_ok [OF inv t] show ?thesis
    by (auto simp: thread_step_def)
next
  case (Handle op)
  with r handle_slice_ok [OF inv t] handle_iter_ok [OF inv t] show ?thesis
    by (cases "ps ! t") (auto simp: thread_step_def step_handle_def)
qed

lemma steps_inv:
  assumes "sys_steps S (choice_ok honest content good) c tr c'"
    and "conc_inv B rep img view honest content good inserted c A"
  shows "\<exists>A'. conc_inv B rep img view honest content good inserted c' A' \<and>
    map img ((aq_front A @ aq_back A) @ produced content inserted tr) =
      consumed img view tr @ map img (aq_front A' @ aq_back A') \<and>
    length (threads c') = length (threads c)"
  using assms(1)
proof (induction rule: sys_steps.induct)
  case start
  then show ?case
    using assms(2) by (auto simp: produced_def consumed_def)
next
  case (step tr c' t ch q p ev)
  then obtain A' lo xs h where inv: "inv (shared c') (threads c') A' lo xs h"
    and hist: "map img ((aq_front A @ aq_back A) @ produced content inserted tr) =
      consumed img view tr @ map img (aq_front A' @ aq_back A')"
    and len: "length (threads c') = length (threads c)"
    by (auto simp: conc_inv_def)
  obtain A'' lo' xs' h' where inv': "inv q ((threads c')[t := p]) A'' lo' xs' h'"
    and ab: "abs_step img view content inserted ev A' A''"
    using thread_step_ok [OF inv step.hyps(2,3,4)] by (auto simp: step_ok_def)
  from inv' len history_step [OF ab hist] show ?case
    unfolding conc_inv_def by auto
qed

lemma never_faults:
  assumes "sys_steps S (choice_ok honest content good) c tr c'"
    and "conc_inv B rep img view honest content good inserted c A"
    and "t < length (threads c')" and "choice_ok honest content good ch"
  shows "thread_step S (shared c') (threads c' ! t) ch \<noteq> Some (Inl f)"
proof
  assume fault: "thread_step S (shared c') (threads c' ! t) ch = Some (Inl f)"
  obtain A' lo xs h where "inv (shared c') (threads c') A' lo xs h"
    using steps_inv [OF assms(1,2)] by (auto simp: conc_inv_def)
  from thread_step_ok [OF this assms(3,4) fault] show False
    by (simp add: step_ok_def)
qed

lemma schedule_runs:
  assumes "conc_inv B rep img view honest content good inserted c A"
    and "\<forall>(t, ch) \<in> set sched. choice_ok honest content good ch"
  shows "\<exists>tr c' A'. run_schedule S sched c = Inr (tr, c') \<and>
    conc_inv B rep img view honest content good inserted c' A' \<and>
    map img ((aq_front A @ aq_back A) @ produced content inserted tr) =
      consumed img view tr @ map img (aq_front A' @ aq_back A')"
  using assms
proof (induction sched arbitrary: c A)
  case Nil
  then show ?case
    by (auto simp: produced_def consumed_def)
next
  case (Cons tc sched)
  obtain t ch where tc: "tc = (t, ch)"
    by (cases tc)
  have ok: "choice_ok honest content good ch" "\<forall>(t, ch) \<in> set sched. choice_ok honest content good ch"
    using Cons.prems(2) tc by auto
  show ?case
  proof (cases "length (threads c) \<le> t \<or> thread_step S (shared c) (threads c ! t) ch = None")
    case True
    with Cons.IH [OF Cons.prems(1) ok(2)] tc show ?thesis by auto
  next
    case False
    then obtain r where t: "t < length (threads c)" and r: "thread_step S (shared c) (threads c ! t) ch = Some r"
      by auto
    obtain lo xs h where inv: "inv (shared c) (threads c) A lo xs h"
      using Cons.prems(1) by (auto simp: conc_inv_def)
    obtain q p ev A1 lo1 xs1 h1 where r': "r = Inr (q, p, ev)"
      and inv1: "inv q ((threads c)[t := p]) A1 lo1 xs1 h1"
      and ab: "abs_step img view content inserted ev A A1"
      using thread_step_ok [OF inv t ok(1) r] by (auto simp: step_ok_def)
    let ?c = "\<lparr>shared = q, threads = (threads c)[t := p]\<rparr>"
    have "conc_inv B rep img view honest content good inserted ?c A1"
      using inv1 by (auto simp: conc_inv_def)
    from Cons.IH [OF this ok(2)] obtain tr c' A' where
      run: "run_schedule S sched ?c = Inr (tr, c')"
        "conc_inv B rep img view honest content good inserted c' A'"
      and hist: "map img ((aq_front A1 @ aq_back A1) @ produced content inserted tr) =
        consumed img view tr @ map img (aq_front A' @ aq_back A')"
      by blast
    have "map img ((aq_front A @ aq_back A) @ produced content inserted [ev]) =
        consumed img view [ev] @ map img (aq_front A1 @ aq_back A1)"
      using history_step [OF ab, of "aq_front A @ aq_back A" "[]"] by simp
    from history_compose [OF this hist]
    have "map img ((aq_front A @ aq_back A) @ produced content inserted (ev # tr)) =
        consumed img view (ev # tr) @ map img (aq_front A' @ aq_back A')" .
    with run t r r' tc show ?thesis by auto
  qed
qed

text \<open>Consequences of the invariant.\<close>

lemma one_dequeuer:
  assumes inv: "inv q ps A lo xs h" and t: "t < length ps" "is_dequeuing (ps ! t)"
    and u: "u < length ps" "is_dequeuing (ps ! u)"
  shows "t = u"
proof (rule ccontr)
  assume "t \<noteq> u"
  have one: "filter is_dequeuing ps = [ps ! t]"
    using owner(3) [OF inv t] .
  from filter_update(3) [where P = is_dequeuing, OF t(1) one t(2), of Idle]
  have "filter is_dequeuing (ps[t := Idle]) = []"
    by (simp add: is_dequeuing_def)
  moreover have "(ps[t := Idle]) ! u = ps ! u"
    using \<open>t \<noteq> u\<close> by simp
  ultimately show False
    using u by (metis filter_empty_conv length_list_update nth_mem)
qed

lemma exclusive_quiet:
  assumes inv: "inv q ps A lo xs h" and t: "t < length ps"
    and ex: "next_access B I q (ps ! t) = Exclusive_Access i"
  shows "is_dequeuing (ps ! t)" and "i = deq_index q" and "unacked_sum content (deq_index q) ps = 0"
proof -
  show deq: "is_dequeuing (ps ! t)"
    using ex by (cases "ps ! t") (simp_all add: next_access_def is_dequeuing_def Let_def)
  have ok: "deq_ok img view inserted (dview_of B content q ps lo xs) A (ps ! t)"
    using inv_atD(6) [OF inv] owner(1) [OF inv t deq] by simp
  note w = parked_word [OF _ inv_atD(1) [OF inv], of content ps lo xs A]
  show "i = deq_index q" and "unacked_sum content (deq_index q) ps = 0"
    using ok ex w(1,3)
    by (cases "ps ! t"; auto simp: next_access_def Let_def quiet_front_def parked_def settled_def
        split: if_splits)+
qed

lemma not_in_flight:
  assumes inv: "inv q ps A lo xs h" and un: "unacked_sum content i ps = 0" and t: "t < length ps"
  shows "\<not> in_flight i (ps ! t)"
  using unacked_le [OF t, of content i] inv_atD(4) [OF inv t] un
  by (cases "ps ! t") (auto simp: in_flight_def unacked_def)

lemma no_conflicts:
  assumes inv: "inv q ps A lo xs h" and tu: "t < length ps" "u < length ps" "t \<noteq> u"
  shows "\<not> conflicting (next_access B I q (ps ! t)) (next_access B I q (ps ! u))"
proof -
  have excl: False
    if ex: "next_access B I q (ps ! t) = Exclusive_Access i" and tu: "t < length ps" "u < length ps" "t \<noteq> u"
      and other: "next_access B I q (ps ! u) = Exclusive_Access i \<or>
        (\<exists>X. next_access B I q (ps ! u) = Shared_Access i X)" for t u i
  proof -
    note x = exclusive_quiet [OF inv tu(1) ex]
    have "\<not> is_dequeuing (ps ! u)"
      using one_dequeuer [OF inv tu(1) x(1) tu(2)] tu(3) by blast
    with other not_in_flight [OF inv x(3) tu(2)] x(2) show False
      by (cases "ps ! u") (auto simp: next_access_def is_dequeuing_def in_flight_def Let_def split: if_splits)
  qed
  have shared: "X \<inter> Y = {}"
    if acc: "next_access B I q (ps ! t) = Shared_Access i X"
      "next_access B I q (ps ! u) = Shared_Access i Y" for i X Y
  proof -
    obtain w where "i = EC_buffer_index w"
      using acc(1) by (cases "ps ! t") (auto simp: next_access_def Let_def split: if_splits)
    then have "i = enq_index q \<or> i = deq_index q"
      using index_cases [of w q] by simp
    then obtain lo' xs' where "side rep (two_get (buffers q) i) (claims B content q i ps) lo' xs'"
      using inv_atD(3) [OF inv] enq_okD(6) [OF inv_atD(2) [OF inv]] by blast
    then have sd: "dom (claims B content q i ps ! t) \<inter> dom (claims B content q i ps ! u) = {}"
      unfolding side_def claims_length using tu by blast
    have cl: "Z \<subseteq> dom (claims B content q i ps ! v)"
      if "v < length ps" "next_access B I q (ps ! v) = Shared_Access i Z" for v Z
      using that inv_atD(4) [OF inv that(1)] size_content
      by (cases "ps ! v") (auto simp: next_access_def Let_def claims_nth claim_def split: if_splits)
    from sd cl [OF tu(1) acc(1)] cl [OF tu(2) acc(2)] show ?thesis by blast
  qed
  show ?thesis
    using excl [of t _ u] excl [of u _ t] shared tu
    by (cases "next_access B I q (ps ! t)"; cases "next_access B I q (ps ! u)")
      (auto simp: conflicting_def)
qed

lemma spin_waits:
  assumes inv: "inv q ps A lo xs h" and t: "t < length ps" "ps ! t = Deq_Spin k i len"
    and wait: "\<not> len \<le> two_get (buffers_length q) i"
  shows "\<exists>u < length ps. in_flight i (ps ! u)"
proof (rule ccontr)
  assume none: "\<not> (\<exists>u < length ps. in_flight i (ps ! u))"
  have "unacked content i (ps ! u) = 0" if "u < length ps" for u
    using none that by (cases "ps ! u") (auto simp: in_flight_def unacked_def)
  then have un: "unacked_sum content i ps = 0"
    unfolding unacked_sum_def by (auto simp: sum_list_eq_0_iff in_set_conv_nth)
  have own: "h = Deq_Spin k i len"
    using owner(1) [OF inv t(1)] t(2) by (simp add: is_dequeuing_def)
  have pk: "parked (dview_of B content q ps lo xs) A" and i: "i = deq_index q"
    and len: "len = of_nat (length (aq_front A))"
    using inv_atD(6) [OF inv] own by simp_all
  have st: "settled (dview_of B content q ps lo xs) A"
    using pk by (simp add: parked_def)
  then have "length (aq_front A) \<le> unat (two_get (buffers_length q) i)"
    using un i by (auto simp: settled_def)
  with wait len settled_front(2) [OF st inv_atD(1) [OF inv]] show False
    by (simp add: word_le_nat_alt)
qed

lemma initial_inv:
  fixes q :: "('b, 'n) queue" and ps :: "('v, 's, 'r) pc list"
  assumes q: "queue_rep B rep q A" and idle: "\<not> aq_held A" and ps: "\<forall>p \<in> set ps. p = Idle"
  shows "conc_inv B rep img view honest content good inserted \<lparr>shared = q, threads = ps\<rparr> A"
proof -
  let ?lo = "unat (two_get (buffers_length q) (deq_index q)) - length (aq_front A)"
  note e = enq_repD [OF q] and d = deq_repD [OF q]
  have un: "unacked_sum content i ps = 0" for i
    using ps by (induction ps) (auto simp: unacked_sum_def unacked_def)
  have none: "filter is_dequeuing ps = []"
    using ps by (auto simp: filter_empty_conv is_dequeuing_def)
  have idle_t: "ps ! t = Idle" if "t < length ps" for t
    using ps that nth_mem by blast
  have "small B q"
    unfolding small_def
  proof
    fix i
    have "two_get (buffers q) i = two_get (buffers q) (enq_index q) \<or>
        two_get (buffers q) i = two_get (buffers q) (deq_index q)"
      using deq_index_neq [of q] by (auto simp: two_get_def)
    with d(1,2) e(3,4) show "unat (buf_capacity B (two_get (buffers q) i)) < 4611686018427387903"
      by auto
  qed
  moreover have "enq_ok B rep content q ps A"
    using e by (simp add: enq_ok_def Let_def un side_acked [OF un])
  moreover have "deq_ok img view inserted (dview_of B content q ps ?lo (aq_front A)) A
      (Deq_Open (dequeuing_length q) None)"
    using d idle by (auto simp: parked_def settled_def un)
  moreover have "cap_ok (dview_of B content q ps ?lo (aq_front A)) (Deq_Open (dequeuing_length q) None)"
    using e(8) by (simp add: cap_ok_def)
  ultimately have "inv q ps A ?lo (aq_front A) (Deq_Open (dequeuing_length q) None)"
    using d(5) none idle_t by (simp add: inv_at_def side_acked [OF un] holder_def in_bounds_def)
  then show ?thesis
    by (auto simp: conc_inv_def)
qed

lemma quiescent_rep:
  fixes c :: "('b, 'n, 'v, 's, 'r) state"
  assumes "conc_inv B rep img view honest content good inserted c A" and ps: "\<forall>p \<in> set (threads c). p = Idle"
  shows "queue_rep B rep (shared c) (A\<lparr>aq_held := False\<rparr>)"
proof -
  let ?q = "shared c" and ?ps = "threads c"
  obtain lo xs h where inv: "inv ?q ?ps A lo xs h"
    using assms(1) by (auto simp: conc_inv_def)
  note d = inv_atD [OF inv] and e = enq_okD [OF inv_atD(2) [OF inv]]
  have un: "unacked_sum content i ?ps = 0" for i
    using ps by (induction ?ps) (auto simp: unacked_sum_def unacked_def)
  have "filter is_dequeuing ?ps = []"
    using ps by (auto simp: filter_empty_conv is_dequeuing_def)
  then have h: "h = Deq_Open (dequeuing_length ?q) None"
    using d(5) by (simp add: holder_def)
  then have pk: "parked (dview_of B content ?q ?ps lo xs) A"
    and w: "dequeuing_length ?q = DL_new (deq_index ?q) (of_nat (length (aq_front A)))"
    and cap: "capacity ?q = buf_capacity B (two_get (buffers ?q) (enq_index ?q))"
    using d(6,7) by (simp_all add: cap_ok_def)
  have "enq_rep B rep ?q (A\<lparr>aq_held := False\<rparr>)"
    using e cap smallD [OF d(1), of "enq_index ?q"] un
    by (simp add: enq_rep_def Let_def side_acked [OF un])
  moreover have "deq_rep B rep ?q (A\<lparr>aq_held := False\<rparr>)"
    using pk w d(3) smallD [OF d(1), of "deq_index ?q"] un
    by (auto simp: deq_rep_def Let_def side_acked [OF un] parked_def settled_def)
  ultimately show ?thesis
    by (simp add: queue_rep_def)
qed

text \<open>The step that ends a spin hands out the front of the queue, which is not empty.\<close>

lemma go_slice_front:
  assumes inv: "inv q ps A lo xs h" and t: "t < length ps"
    and step: "step_go S sp q (ps ! t) = Some (Inr (q', p, Ev_Sliced s))"
  shows "view s = map img (aq_front A)" and "aq_front A \<noteq> []"
proof -
  obtain i len n where pc: "ps ! t = Deq_Slice i len n"
    using step by (cases "ps ! t")
      (auto simp: go_enq_cas_def go_enq_insert_def go_enq_ack_def go_deq_lock_def go_deq_open_def
        go_deq_add_def go_deq_check_def go_deq_swap_def go_deq_notify_def go_deq_spin_def
        and_then_eq_Inr Let_def split: if_splits option.splits sum.splits prod.splits nat.splits)
  then show "aq_front A \<noteq> []"
    using inv_atD(6) [OF inv] owner(1) [OF inv t] by (simp add: is_dequeuing_def)
  have "step_ok ps t A (Inr (q', p, Ev_Sliced s))"
    using thread_step_ok [OF inv t, of "Go sp"] step by (simp add: thread_step_def choice_ok_def)
  then show "view s = map img (aq_front A)"
    by (auto simp: step_ok_def abs_step_def)
qed

text \<open>
  From a queue that nobody is using: no step faults, and a slice handed out at the end of a spin shows,
  without a gap, the oldest values that have not been consumed.
\<close>

lemma interleaving_ok:
  assumes "queue_rep B rep q A" and "\<not> aq_held A"
    and steps: "sys_steps S (choice_ok honest content good) \<lparr>shared = q, threads = replicate n Idle\<rparr> tr c"
    and t: "t < n"
  shows "choice_ok honest content good ch \<Longrightarrow> thread_step S (shared c) (threads c ! t) ch \<noteq> Some (Inl f)"
    and "thread_step S (shared c) (threads c ! t) (Go sp) = Some (Inr (q', p, Ev_Sliced s)) \<Longrightarrow>
      view s \<noteq> [] \<and> (\<exists>later. map img (aq_front A @ aq_back A @ produced content inserted tr) =
        consumed img view tr @ view s @ later)"
proof -
  have init: "conc_inv B rep img view honest content good inserted
      \<lparr>shared = q, threads = replicate n Idle\<rparr> A"
    by (rule initial_inv [OF assms(1,2)]) simp
  from steps_inv [OF steps init] obtain A' lo xs h where inv: "inv (shared c) (threads c) A' lo xs h"
    and eq: "map img (aq_front A @ aq_back A @ produced content inserted tr) =
      consumed img view tr @ map img (aq_front A' @ aq_back A')"
    and len: "length (threads c) = n"
    by (auto simp: conc_inv_def)
  show "thread_step S (shared c) (threads c ! t) ch \<noteq> Some (Inl f)" if "choice_ok honest content good ch"
    using never_faults [OF steps init _ that] t len by simp
  show "view s \<noteq> [] \<and> (\<exists>later. map img (aq_front A @ aq_back A @ produced content inserted tr) =
        consumed img view tr @ view s @ later)"
    if "thread_step S (shared c) (threads c ! t) (Go sp) = Some (Inr (q', p, Ev_Sliced s))"
    using go_slice_front [OF inv, of t sp q' p s] that t len eq by (simp add: thread_step_def)
qed

end

section \<open>Schedules are interleavings\<close>

lemma sys_steps_first:
  assumes "sys_steps S allowed \<lparr>shared = q, threads = (threads c)[t := p]\<rparr> tr c'"
    and t: "t < length (threads c)" "allowed ch"
      "thread_step S (shared c) (threads c ! t) ch = Some (Inr (q, p, ev))"
  shows "sys_steps S allowed c (ev # tr) c'"
  using assms(1)
proof (induction rule: sys_steps.induct)
  case start
  show ?case
    using sys_steps.step [of S allowed c "[]" c t ch q p ev] t by (simp add: sys_steps.start)
next
  case (step tr c' u ch' q' p' ev')
  show ?case
    using sys_steps.step [OF step.IH step.hyps(2-4)] by simp
qed

lemma run_schedule_steps:
  "run_schedule S sched c = Inr (tr, c') \<Longrightarrow> \<forall>(t, ch) \<in> set sched. allowed ch \<Longrightarrow>
   sys_steps S allowed c tr c'"
proof (induction sched arbitrary: c tr)
  case Nil
  then show ?case
    by (simp add: sys_steps.start)
next
  case (Cons tc sched)
  obtain t ch where tc: "tc = (t, ch)"
    by (cases tc)
  show ?case
  proof (cases "length (threads c) \<le> t \<or> thread_step S (shared c) (threads c ! t) ch = None")
    case True
    with Cons tc show ?thesis
      by (cases "length (threads c) \<le> t") auto
  next
    case False
    then obtain r where t: "t < length (threads c)"
      and r: "thread_step S (shared c) (threads c ! t) ch = Some r"
      by auto
    with Cons.prems(1) tc obtain q p ev where step: "r = Inr (q, p, ev)"
      by (cases r) auto
    then obtain tr' where "run_schedule S sched \<lparr>shared = q, threads = (threads c)[t := p]\<rparr> = Inr (tr', c')"
      and "tr = ev # tr'"
      using Cons.prems(1) tc t r
      by (cases "run_schedule S sched \<lparr>shared = q, threads = (threads c)[t := p]\<rparr>") auto
    with Cons.IH Cons.prems(2) t r step tc show ?thesis
      by (auto intro: sys_steps_first)
  qed
qed

end
