(* ===== verification/Concurrent_Resize.thy ===== *)
theory Concurrent_Resize
  imports Concurrent_Safety
begin

text \<open>
  Interleavings over any buffer that can be resized: the requests of \<open>try_dequeue_and_resize\<close> are
  pairs of an optional capacity and optional values to insert, and every \<open>resizable_queue\<close> gives a
  system that meets \<open>conc_system\<close>, provided its removal does.
\<close>

type_synonym 'v resize_request = "usize option \<times> 'v list option"

definition resize_prep ::
    "('b, 's) buffer_trait \<Rightarrow> 'b resize_fn \<Rightarrow> ('b, 'v) insert_trait \<Rightarrow> 'v resize_request \<Rightarrow>
     'b resize_closure" where
  "resize_prep B resize I r = resize_and_insert B resize I (fst r) (snd r)"

definition prep_inserted :: "('v \<Rightarrow> 'c list) \<Rightarrow> 'v resize_request \<Rightarrow> 'c list" where
  "prep_inserted content r = (case snd r of None \<Rightarrow> [] | Some vs \<Rightarrow> concat (map content vs))"

text \<open>The inserted values fit in the capacity asked for; without one, nothing is inserted.\<close>

definition prep_good :: "('v \<Rightarrow> bool) \<Rightarrow> ('v \<Rightarrow> 'c list) \<Rightarrow> 'v resize_request \<Rightarrow> bool" where
  "prep_good honest content r \<longleftrightarrow>
     (case fst r of None \<Rightarrow> prep_inserted content r = []
      | Some c \<Rightarrow> unat c < 4611686018427387903 \<and> length (prep_inserted content r) \<le> unat c) \<and>
     list_all honest (case snd r of None \<Rightarrow> [] | Some vs \<Rightarrow> vs)"

definition ResizableSystem ::
    "('b, 's) buffer_trait \<Rightarrow> 'n notify_trait \<Rightarrow> ('b, 'v) insert_trait \<Rightarrow> 'b resize_fn \<Rightarrow>
     ('b, 'c) drain_remove option \<Rightarrow> ('b, 's, 'n, 'v, 'c, 'v resize_request) sys" where
  "ResizableSystem B N I resize remove =
     \<lparr>sys_buffer = B, sys_notify = N, sys_insert = I, sys_prep = resize_prep B resize I,
      sys_remove = remove\<rparr>"

context resizable_queue
begin

lemma resize_prep_ok:
  assumes "prep_good honest content r" and "rep b Map.empty"
    and "unat (buf_capacity B b) < 4611686018427387903"
  shows "\<exists>nb rs ins. resize_prep B resize I r b = Inr (nb, rs, ins) \<and>
    rep nb (seg 0 (prep_inserted content r)) \<and> unat ins = length (prep_inserted content r) \<and>
    unat (buf_capacity B nb) < 4611686018427387903 \<and>
    (\<not> rs \<longrightarrow> buf_capacity B nb = buf_capacity B b)"
proof -
  let ?old = "unat (buf_capacity B b)"
  obtain c vals where r: "r = (c, vals)"
    by (cases r)
  define vs where "vs = (case vals of None \<Rightarrow> [] | Some vs \<Rightarrow> vs)"
  have ins: "prep_inserted content r = concat (map content vs)"
    by (simp add: prep_inserted_def r vs_def split: option.split)
  have run: "resize_prep B resize I r b = resize_and_insert B resize I c (Some vs) b"
    by (simp add: resize_prep_def r vs_def resize_and_insert_def split: option.split)
  have c: "case_option ?old unat c < 4611686018427387903"
    and fits: "length (concat (map content vs)) \<le> case_option ?old unat c"
    and honest: "\<forall>v \<in> set vs. honest v"
    using assms(1,3) unfolding prep_good_def ins
    by (auto simp: r vs_def list_all_iff simp del: concat_eq_Nil_conv split: option.splits)
  obtain nb n where nb: "resize_and_insert B resize I c (Some vs) b =
      Inr (nb, case_option ?old unat c \<noteq> ?old, n)"
    "rep nb (seg 0 (concat (map content vs)))" "unat n = length (concat (map content vs))"
    "unat (buf_capacity B nb) = case_option ?old unat c"
    using resize_and_insert_ok [OF assms(2) refl assms(3) c honest fits] by auto
  then have "buf_capacity B nb = buf_capacity B b" if "case_option ?old unat c = ?old"
    using that by (simp add: usize_eq_iff)
  with nb c show ?thesis
    unfolding run ins by auto
qed

lemma resizable_conc:
  "conc_system B rep img view I honest content (ResizableSystem B N I resize None)
     (prep_good honest content) (prep_inserted content)"
  by unfold_locales (simp_all add: ResizableSystem_def resize_prep_ok)

lemma resizable_drain_conc:
  assumes "drain_contract B rep img view remove"
  shows "conc_system B rep img view I honest content (ResizableSystem B N I resize (Some remove))
     (prep_good honest content) (prep_inserted content)"
proof -
  from assms show ?thesis
    by unfold_locales
      (auto simp: ResizableSystem_def resize_prep_ok dest: drain_contract.remove_ok drain_contract.empty_slice_ok)
qed

end

text \<open>The slice that the next step of a thread hands out, for the examples.\<close>

definition next_slice ::
    "('b, 's, 'n, 'v, 'c, 'r) sys \<Rightarrow> ('b, 'n, 'v, 's, 'r) state \<Rightarrow> nat \<Rightarrow> 's option" where
  "next_slice S c t =
     (case thread_step S (shared c) (threads c ! t) (Go False) of
        Some (Inr (_, _, Ev_Sliced s)) \<Rightarrow> Some s | _ \<Rightarrow> None)"

lemma next_slice_step:
  "next_slice S c t = Some s \<Longrightarrow>
   \<exists>q' p. thread_step S (shared c) (threads c ! t) (Go False) = Some (Inr (q', p, Ev_Sliced s))"
  by (auto simp: next_slice_def split: option.splits sum.splits event.splits)

end
