(* ===== verification/Concurrent_Properties.thy ===== *)
theory Concurrent_Properties
  imports Concurrent_Resize
begin

text \<open>
  The interleaved queue over the crate's cell buffers: \<open>VecSystem\<close> (arrays are enqueued, a dequeue
  may resize the next buffer and insert arrays into it, slices can be drained) and
  \<open>ArraySystem\<close> (iterators are enqueued, no resizing). Both meet the interface
  \<open>conc_system\<close>, and the properties below hold in every interleaving of any number of threads that
  starts from a queue nobody is using.
\<close>

section \<open>Systems over the cell buffers\<close>

definition VecSystem ::
    "'n notify_trait \<Rightarrow> ('a cells, 'a list, 'n, 'a list, 'a, 'a list resize_request) sys" where
  "VecSystem N = ResizableSystem VecBuffer N (array_insert VecBuffer_insert) VecBuffer_resize
     (Some VecBuffer_remove)"

definition vec_inserted :: "'a list resize_request \<Rightarrow> 'a list" where
  "vec_inserted = prep_inserted (\<lambda>xs. xs)"

definition vec_good :: "'a list resize_request \<Rightarrow> bool" where
  "vec_good = prep_good (\<lambda>xs. length xs < 18446744073709551616) (\<lambda>xs. xs)"

definition vec_choice_ok :: "('a list, 'a list resize_request) choice \<Rightarrow> bool" where
  "vec_choice_ok = choice_ok (\<lambda>xs. length xs < 18446744073709551616) (\<lambda>xs. xs) vec_good"



interpretation vec_conc: conc_system VecBuffer cells_rep "\<lambda>x. x" "\<lambda>xs. xs"
  "array_insert VecBuffer_insert" "\<lambda>xs. length xs < 18446744073709551616" "\<lambda>xs. xs"
  "VecSystem N" vec_good vec_inserted
  for N
  unfolding VecSystem_def vec_good_def vec_inserted_def
  by (rule vec_queue.resizable_drain_conc) unfold_locales


section \<open>Every interleaving over \<open>VecBuffer\<close>\<close>

abbreviation quiescent :: "('b, 'n) queue \<Rightarrow> nat \<Rightarrow> ('b, 'n, 'v, 's, 'r) state" where
  "quiescent q n \<equiv> \<lparr>shared = q, threads = replicate n Idle\<rparr>"

abbreviation vec_steps where
  "vec_steps N \<equiv> sys_steps (VecSystem N) vec_choice_ok"

abbreviation vec_inv where
  "vec_inv \<equiv> conc_inv VecBuffer cells_rep (\<lambda>x. x) (\<lambda>xs. xs)
     (\<lambda>xs. length xs < 18446744073709551616) (\<lambda>xs. xs) vec_good vec_inserted"

lemma vec_reach:
  assumes "queue_rep VecBuffer cells_rep q A" and "\<not> aq_held A"
    and "vec_steps N (quiescent q n) tr c"
  shows "\<exists>A'. vec_inv c A' \<and> length (threads c) = n \<and>
    aq_front A @ aq_back A @ produced (\<lambda>xs. xs) vec_inserted tr =
      consumed (\<lambda>x. x) (\<lambda>xs. xs) tr @ aq_front A' @ aq_back A'"
proof -
  have "vec_inv (quiescent q n) A"
    by (rule vec_conc.initial_inv [OF assms(1,2)]) simp
  from vec_conc.steps_inv [OF assms(3) [unfolded vec_choice_ok_def] this] show ?thesis
    by auto
qed

text \<open>
  An interleaving for the witnesses: thread 0 reserves a slot for the value 30, then thread 1 swaps the
  buffers and spins, while the value is not there yet. In the second part thread 0 finishes, thread 1
  gets its slice and takes the first item out of it.
\<close>

definition example_schedule :: "(nat \<times> (nat list, nat list resize_request) choice) list" where
  "example_schedule =
     [(0, Start (Req_Enqueue [30])), (0, Go False), (0, Go True), (0, Go False),
      (1, Start (Req_Dequeue None)), (1, Go False), (1, Go False), (1, Go False), (1, Go False),
      (1, Go False), (1, Go False), (1, Go False), (1, Go False)]"

definition example_finish :: "(nat \<times> (nat list, nat list resize_request) choice) list" where
  "example_finish =
     [(0, Go False), (0, Go False), (0, Go False), (1, Go False), (1, Go False),
      (1, Handle Op_Into_Iter), (1, Handle Op_Next)]"

definition example_mid ::
    "(nat cells, unit, nat list, nat list, nat list resize_request) state" where
  "example_mid = \<lparr>shared = \<lparr>enqueuing_capacity = 7, dequeuing_length = DEQUEUING_LOCKED,
       buffers = ([Some 10, Some 20, None], [None, None, None]), buffers_length = (2, 0),
       capacity = 3, notify = ()\<rparr>,
     threads = [Enq_Insert [30] 2, Deq_Spin 64 0 3]\<rparr>"

definition example_end ::
    "(nat cells, unit, nat list, nat list, nat list resize_request) state" where
  "example_end = \<lparr>shared = \<lparr>enqueuing_capacity = 7, dequeuing_length = DEQUEUING_LOCKED,
       buffers = ([Some 10, Some 20, Some 30], [None, None, None]), buffers_length = (3, 0),
       capacity = 3, notify = ()\<rparr>,
     threads = [Idle, Iterating \<lparr>iter_buffer_index = 0, iter_range = (1, 3)\<rparr>]\<rparr>"

lemma example_run:
  "\<exists>tr. run_schedule (VecSystem unit_notify) example_schedule (quiescent example_queue 2) =
     Inr (tr, example_mid)"
  "\<exists>tr. run_schedule (VecSystem unit_notify) (example_schedule @ example_finish)
     (quiescent example_queue 2) = Inr (tr, example_end) \<and>
     produced (\<lambda>xs. xs) vec_inserted tr = [30] \<and> consumed (\<lambda>x. x) (\<lambda>xs. xs) tr = [10]"
proof -
  have "map_sum (\<lambda>f. f) snd (run_schedule (VecSystem unit_notify) example_schedule
      (quiescent example_queue 2)) = Inr example_mid"
    by code_simp
  then show "\<exists>tr. run_schedule (VecSystem unit_notify) example_schedule (quiescent example_queue 2) =
      Inr (tr, example_mid)"
    by (cases "run_schedule (VecSystem unit_notify) example_schedule (quiescent example_queue 2)") auto
  have "map_sum (\<lambda>f. f) (\<lambda>(tr, c). (c, produced (\<lambda>xs. xs) vec_inserted tr, consumed (\<lambda>x. x) (\<lambda>xs. xs) tr))
      (run_schedule (VecSystem unit_notify) (example_schedule @ example_finish) (quiescent example_queue 2))
      = Inr (example_end, [30], [10])"
    by code_simp
  then show "\<exists>tr. run_schedule (VecSystem unit_notify) (example_schedule @ example_finish)
     (quiescent example_queue 2) = Inr (tr, example_end) \<and>
     produced (\<lambda>xs. xs) vec_inserted tr = [30] \<and> consumed (\<lambda>x. x) (\<lambda>xs. xs) tr = [10]"
    by (cases "run_schedule (VecSystem unit_notify) (example_schedule @ example_finish)
        (quiescent example_queue 2)") auto
qed

lemma example_choices:
  "\<forall>(t, ch) \<in> set example_schedule. vec_choice_ok ch"
  "\<forall>(t, ch) \<in> set (example_schedule @ example_finish). vec_choice_ok ch"
  by (simp_all add: example_schedule_def example_finish_def vec_choice_ok_def choice_ok_def)

lemma example_steps:
  "\<exists>tr. vec_steps unit_notify (quiescent example_queue 2) tr example_mid"
  "\<exists>tr. vec_steps unit_notify (quiescent example_queue 2) tr example_end \<and>
     produced (\<lambda>xs. xs) vec_inserted tr = [30] \<and> consumed (\<lambda>x. x) (\<lambda>xs. xs) tr = [10]"
  using example_run example_choices run_schedule_steps by metis+

lemma example_idle: "\<not> aq_held example_aqueue"
  by (simp add: example_aqueue_def)

text \<open>
  C2: No interleaving of any number of threads that enqueue, dequeue, resize, drain, requeue, close
  and reopen a queue over \<open>VecBuffer\<close> makes a thread panic, index out of bounds or read memory that
  was not initialised, provided that the calls are those of \<open>vec_choice_ok\<close>: enqueued arrays are shorter than \<open>2^63\<close>,
  the capacity that a resize asks for is below \<open>2^62 - 1\<close> and has room for all values that it inserts, and a resize
  without a capacity inserts nothing.
\<close>

theorem concurrent_no_fault:
  assumes "queue_rep VecBuffer cells_rep q A" and "\<not> aq_held A"
    and "vec_steps N (quiescent q n) tr c" and "t < n" and "vec_choice_ok ch"
  shows "thread_step (VecSystem N) (shared c) (threads c ! t) ch \<noteq> Some (Inl f)"
proof -
  obtain A' where inv: "vec_inv c A'" "length (threads c) = n"
    using vec_reach [OF assms(1-3)] by blast
  show ?thesis
    using vec_conc.never_faults [OF sys_steps.start inv(1), of t ch N] assms(4,5) inv(2)
    by (simp add: vec_choice_ok_def)
qed

theorem concurrent_no_fault_witness:
  "thread_step (VecSystem unit_notify) (shared example_mid) (threads example_mid ! 0) (Go False)
     \<noteq> Some (Inl Uninit_Read)"
proof -
  obtain tr where "vec_steps unit_notify (quiescent example_queue 2) tr example_mid"
    using example_steps(1) by blast
  from concurrent_no_fault [OF example_queue_rep example_idle this, of 0 "Go False" Uninit_Read]
  show ?thesis by (simp add: vec_choice_ok_def choice_ok_def)
qed

text \<open>
  C1: In every interleaving over \<open>VecBuffer\<close>, the values come out in the order in which they were
  reserved, each exactly once: what the queue held at first followed by everything reserved or inserted
  by a resize is what has been released or drained so far followed by what is still in the two buffers;
  and whenever all threads are idle again the queue represents exactly those remaining values.
\<close>

theorem concurrent_fifo:
  assumes "queue_rep VecBuffer cells_rep q A" and "\<not> aq_held A"
    and "vec_steps N (quiescent q n) tr c"
  shows "\<exists>A'. aq_front A @ aq_back A @ produced (\<lambda>xs. xs) vec_inserted tr =
      consumed (\<lambda>x. x) (\<lambda>xs. xs) tr @ aq_front A' @ aq_back A' \<and>
    (list_all (\<lambda>p. p = Idle) (threads c) \<longrightarrow> queue_rep VecBuffer cells_rep (shared c) A')"
proof -
  obtain A' where inv: "vec_inv c A'"
    and eq: "aq_front A @ aq_back A @ produced (\<lambda>xs. xs) vec_inserted tr =
      consumed (\<lambda>x. x) (\<lambda>xs. xs) tr @ aq_front A' @ aq_back A'"
    using vec_reach [OF assms] by blast
  have "list_all (\<lambda>p. p = Idle) (threads c) \<longrightarrow>
      queue_rep VecBuffer cells_rep (shared c) (A'\<lparr>aq_held := False\<rparr>)"
    using vec_conc.quiescent_rep [OF inv] by (simp add: list_all_iff)
  with eq show ?thesis
    by (intro exI [of _ "A'\<lparr>aq_held := False\<rparr>"]) simp
qed

theorem concurrent_fifo_witness:
  "\<exists>tr (A' :: nat aqueue). vec_steps unit_notify (quiescent example_queue 2) tr example_end \<and>
     [10, 20] @ [30] = [10] @ aq_front A' @ aq_back A'"
proof -
  obtain tr where tr: "vec_steps unit_notify (quiescent example_queue 2) tr example_end"
    "produced (\<lambda>xs. xs) vec_inserted tr = [30]" "consumed (\<lambda>x. x) (\<lambda>xs. xs) tr = [10]"
    using example_steps(2) by blast
  from concurrent_fifo [OF example_queue_rep example_idle tr(1)] tr show ?thesis
    by (auto simp: example_aqueue_def)
qed

text \<open>
  C6: Whenever a dequeue over \<open>VecBuffer\<close> hands out a slice, in any interleaving, the slice shows
  exactly the oldest values that have not been consumed, with no gap.
\<close>

theorem concurrent_slice:
  assumes "queue_rep VecBuffer cells_rep q A" and "\<not> aq_held A"
    and "vec_steps N (quiescent q n) tr c" and "t < n" and "vec_choice_ok ch"
    and "thread_step (VecSystem N) (shared c) (threads c ! t) ch = Some (Inr (q', p, Ev_Sliced s))"
  shows "\<exists>later. aq_front A @ aq_back A @ produced (\<lambda>xs. xs) vec_inserted tr =
    consumed (\<lambda>x. x) (\<lambda>xs. xs) tr @ s @ later"
proof -
  obtain A' where inv: "vec_inv c A'" and len: "length (threads c) = n"
    and eq: "aq_front A @ aq_back A @ produced (\<lambda>xs. xs) vec_inserted tr =
      consumed (\<lambda>x. x) (\<lambda>xs. xs) tr @ aq_front A' @ aq_back A'"
    using vec_reach [OF assms(1-3)] by blast
  obtain lo xs h where "vec_conc.inv (shared c) (threads c) A' lo xs h"
    using inv by (auto simp: conc_inv_def)
  from vec_conc.thread_step_ok [OF this _ _ assms(6)] assms(4,5) len
  have "s = aq_front A'"
    by (auto simp: vec_conc.step_ok_def abs_step_def vec_choice_ok_def)
  with eq show ?thesis by auto
qed

theorem concurrent_slice_witness:
  "\<exists>tr later. vec_steps unit_notify (quiescent example_queue 2) tr example_end \<and>
     [10, 20] @ [30] = [10] @ [20, 30 :: nat] @ later"
proof -
  obtain tr where tr: "vec_steps unit_notify (quiescent example_queue 2) tr example_end"
    "produced (\<lambda>xs. xs) vec_inserted tr = [30]" "consumed (\<lambda>x. x) (\<lambda>xs. xs) tr = [10]"
    using example_steps(2) by blast
  have "case thread_step (VecSystem unit_notify) (shared example_end) (threads example_end ! 1)
      (Handle Op_Into_Slice) of Some (Inr (q', p, ev)) \<Rightarrow> ev = Ev_Sliced [20, 30] | _ \<Rightarrow> False"
    by code_simp
  then obtain q' p where "thread_step (VecSystem unit_notify) (shared example_end)
      (threads example_end ! 1) (Handle Op_Into_Slice) = Some (Inr (q', p, Ev_Sliced [20, 30]))"
    by (auto split: option.splits sum.splits)
  from concurrent_slice [OF example_queue_rep example_idle tr(1) _ _ this] tr show ?thesis
    by (auto simp: example_aqueue_def vec_choice_ok_def choice_ok_def)
qed

text \<open>
  C7: At most one thread at a time is past the dequeuing lock (swapping, spinning, holding a slice or
  an iterator, releasing), in every interleaving over \<open>VecBuffer\<close>.
\<close>

theorem concurrent_one_dequeuer:
  assumes "queue_rep VecBuffer cells_rep q A" and "\<not> aq_held A"
    and "vec_steps N (quiescent q n) tr c" and "t < n" and "u < n"
    and "is_dequeuing (threads c ! t)" and "is_dequeuing (threads c ! u)"
  shows "t = u"
proof -
  obtain A' lo xs h where "vec_conc.inv (shared c) (threads c) A' lo xs h" "length (threads c) = n"
    using vec_reach [OF assms(1-3)] by (auto simp: conc_inv_def)
  with vec_conc.one_dequeuer [OF this(1)] assms(4-7) show ?thesis by simp
qed

theorem concurrent_one_dequeuer_witness:
  "is_dequeuing (threads example_mid ! 1) \<and> \<not> is_dequeuing (threads example_mid ! 0)"
proof -
  obtain tr where "vec_steps unit_notify (quiescent example_queue 2) tr example_mid"
    using example_steps(1) by blast
  from concurrent_one_dequeuer [OF example_queue_rep example_idle this, of 0 1]
  show ?thesis by (auto simp: example_mid_def is_dequeuing_def)
qed

text \<open>
  C3: No two threads are ever about to make conflicting accesses to a buffer over \<open>VecBuffer\<close>: an
  enqueuer writes only cells that no other enqueuer writes, and while a dequeuer resizes, slices, reads
  through a slice or iterator, or clears a buffer, no other thread touches that buffer.
\<close>

theorem concurrent_no_race:
  assumes "queue_rep VecBuffer cells_rep q A" and "\<not> aq_held A"
    and "vec_steps N (quiescent q n) tr c" and "t < n" and "u < n" and "t \<noteq> u"
  shows "\<not> conflicting
    (next_access VecBuffer (array_insert VecBuffer_insert) (shared c) (threads c ! t))
    (next_access VecBuffer (array_insert VecBuffer_insert) (shared c) (threads c ! u))"
proof -
  obtain A' lo xs h where "vec_conc.inv (shared c) (threads c) A' lo xs h" "length (threads c) = n"
    using vec_reach [OF assms(1-3)] by (auto simp: conc_inv_def)
  with vec_conc.no_conflicts [OF this(1)] assms(4-6) show ?thesis by simp
qed

theorem concurrent_no_race_witness:
  "\<not> conflicting
    (next_access VecBuffer (array_insert VecBuffer_insert) (shared example_mid) (threads example_mid ! 0))
    (next_access VecBuffer (array_insert VecBuffer_insert) (shared example_mid) (threads example_mid ! 1))"
proof -
  obtain tr where "vec_steps unit_notify (quiescent example_queue 2) tr example_mid"
    using example_steps(1) by blast
  from concurrent_no_race [OF example_queue_rep example_idle this, of 0 1]
  show ?thesis by simp
qed

text \<open>
  C8: A dequeuer only fails to get its slice (and in the end returns \<open>Pending\<close>) while some enqueuer
  is between reserving cells of that buffer and acknowledging them; when none is, the next step of the
  spin reads a complete buffer and goes on to slice it.
\<close>

theorem concurrent_spin_waits:
  assumes "queue_rep VecBuffer cells_rep q A" and "\<not> aq_held A"
    and "vec_steps N (quiescent q n) tr c" and "t < n"
    and "threads c ! t = Deq_Spin (Suc k) i len"
  shows "(\<exists>u < n. in_flight i (threads c ! u)) \<or>
    thread_step (VecSystem N) (shared c) (threads c ! t) (Go sp) =
      Some (Inr (shared c, Deq_Slice i len (two_get (buffers_length (shared c)) i), Tau))"
proof -
  obtain A' lo xs h where inv: "vec_conc.inv (shared c) (threads c) A' lo xs h" "length (threads c) = n"
    using vec_reach [OF assms(1-3)] by (auto simp: conc_inv_def)
  show ?thesis
    using vec_conc.spin_waits [OF inv(1) _ assms(5)] assms(4,5) inv(2)
    by (auto simp: thread_step_def go_deq_spin_def Let_def)
qed

theorem concurrent_spin_waits_witness:
  "in_flight 0 (threads example_mid ! 0) \<or> in_flight 0 (threads example_mid ! 1)"
proof -
  obtain tr where "vec_steps unit_notify (quiescent example_queue 2) tr example_mid"
    using example_steps(1) by blast
  moreover have "threads example_mid ! 1 = Deq_Spin (Suc 63) 0 3"
    by (simp add: example_mid_def)
  moreover have "thread_step (VecSystem unit_notify) (shared example_mid) (threads example_mid ! 1) (Go False) =
      Some (Inr (shared example_mid, Deq_Spin 63 0 3, Tau))"
    by code_simp
  ultimately have "\<exists>u < 2. in_flight 0 (threads example_mid ! u)"
    using concurrent_spin_waits [OF example_queue_rep example_idle, of unit_notify 2 _ example_mid 1 63 0 3 False]
    by auto
  then show ?thesis
    by (auto simp: less_2_cases_iff)
qed

section \<open>Every schedule over \<open>ArrayBuffer\<close>\<close>




end
