(* ===== verification/Write_Buffers.thy ===== *)
theory Write_Buffers
  imports Queue_Buffers
begin

text \<open>
  The byte buffers of \<open>src/src/write.rs\<close>, \<open>src/src/write/array.rs\<close> and
  \<open>src/src/write/vec.rs\<close>, and \<open>ArrayWithHeaderAndTrailer\<close> of \<open>src/src/utils.rs\<close>. The
  const parameters \<open>N\<close>, \<open>HEADER_SIZE\<close> and \<open>TRAILER_SIZE\<close> are arguments \<open>N\<close>,
  \<open>H\<close> and \<open>T\<close>. A \<open>[Cell<u8>]\<close> is a list of bytes; a \<open>BytesSlice\<close> is the bytes it
  borrows, and writing through it is a function that returns the bytes after the write.

  A \<open>WriteBytesSlice\<close> is its announced size and the function that its \<open>write\<close> is on the
  slice it is given; the slice's length is fixed, so a writer that \<open>writes_all\<close> returns as many
  bytes. The contracts of \<open>Buffer_Traits\<close> are proved for every header and trailer that leave room
  for the largest capacity of a queue.
\<close>

section \<open>\<open>ArrayWithHeaderAndTrailer\<close>\<close>

record 'a framed_array =
  fr_header :: "'a list"
  fr_array :: "'a list"
  fr_trailer :: "'a list"

definition AHT_new :: "usize \<Rightarrow> usize \<Rightarrow> usize \<Rightarrow> 'a \<Rightarrow> 'a framed_array" where
  "AHT_new H N T x = \<lparr>fr_header = init_array x H, fr_array = init_array x N, fr_trailer = init_array x T\<rparr>"

definition AHT_deref :: "'a framed_array \<Rightarrow> 'a list" where
  "AHT_deref a = fr_header a @ fr_array a @ fr_trailer a"

text \<open>Writing through the slice of a \<open>#[repr(C)]\<close> struct writes its three arrays.\<close>

definition AHT_deref_mut :: "'a framed_array \<Rightarrow> 'a list \<Rightarrow> 'a framed_array" where
  "AHT_deref_mut a xs =
     (let h = length (fr_header a); n = length (fr_array a) in
      \<lparr>fr_header = take h xs, fr_array = take n (drop h xs), fr_trailer = drop (h + n) xs\<rparr>)"

lemma take_take_drop: "take h xs @ take n (drop h xs) @ drop (h + n) xs = xs"
  by (metis append_take_drop_id drop_drop add.commute)

lemma AHT_put_get: "AHT_deref (AHT_deref_mut a xs) = xs"
  by (simp add: AHT_deref_def AHT_deref_mut_def Let_def take_take_drop)

section \<open>\<open>BytesSlice\<close>\<close>

type_synonym bytes = "u8 list"

definition bytes_len :: "'a list \<Rightarrow> usize" where
  "bytes_len xs = of_nat (length xs)"

definition put_range :: "'a list \<Rightarrow> usize \<Rightarrow> usize \<Rightarrow> ('a list \<Rightarrow> 'a list exec) \<Rightarrow> 'a list exec" where
  "put_range xs lo hi f =
     and_then (cells_range xs lo hi) (\<lambda>s. and_then (f s) (\<lambda>s'.
     Inr (take (unat lo) xs @ s' @ drop (unat hi) xs)))"

definition copy_from_slice :: "'a list \<Rightarrow> 'a list \<Rightarrow> 'a list exec" where
  "copy_from_slice src dst = (if length src = length dst then Inr src else Inl Assertion_Failed)"

definition BytesSlice_header :: "usize \<Rightarrow> bytes \<Rightarrow> bytes exec" where
  "BytesSlice_header H s = cells_range s 0 H"

definition BytesSlice_trailer :: "usize \<Rightarrow> bytes \<Rightarrow> bytes exec" where
  "BytesSlice_trailer T s = and_then (sub_usize (bytes_len s) T) (\<lambda>k. cells_range s k (bytes_len s))"

definition BytesSlice_frame :: "bytes \<Rightarrow> bytes" where
  "BytesSlice_frame s = s"

definition BytesSlice_deref :: "usize \<Rightarrow> usize \<Rightarrow> bytes \<Rightarrow> bytes exec" where
  "BytesSlice_deref H T s = and_then (sub_usize (bytes_len s) T) (\<lambda>k. cells_range s H k)"

text \<open>What a client writes through \<open>header\<close>, \<open>trailer\<close> and \<open>deref_mut\<close>.\<close>

definition BytesSlice_set_header :: "usize \<Rightarrow> bytes \<Rightarrow> bytes \<Rightarrow> bytes exec" where
  "BytesSlice_set_header H xs s = put_range s 0 H (copy_from_slice xs)"

definition BytesSlice_set_trailer :: "usize \<Rightarrow> bytes \<Rightarrow> bytes \<Rightarrow> bytes exec" where
  "BytesSlice_set_trailer T xs s =
     and_then (sub_usize (bytes_len s) T) (\<lambda>k. put_range s k (bytes_len s) (copy_from_slice xs))"

text \<open>
  A mutable borrow of the payload, or of the whole frame, is used by a function \<open>f\<close> that maps the borrowed bytes to
  those that it leaves there.
\<close>

definition BytesSlice_deref_mut :: "usize \<Rightarrow> usize \<Rightarrow> (bytes \<Rightarrow> bytes exec) \<Rightarrow> bytes \<Rightarrow> bytes exec" where
  "BytesSlice_deref_mut H T f s = and_then (sub_usize (bytes_len s) T) (\<lambda>k. put_range s H k f)"

definition BytesSlice_frame_mut :: "(bytes \<Rightarrow> bytes exec) \<Rightarrow> bytes \<Rightarrow> bytes exec" where
  "BytesSlice_frame_mut f s = f s"

section \<open>\<open>WriteBytesSlice\<close>\<close>

record bytes_writer =
  wr_size :: usize
  wr_write :: "bytes \<Rightarrow> bytes exec"

definition slice_writer :: "bytes \<Rightarrow> bytes_writer" where
  "slice_writer xs = \<lparr>wr_size = bytes_len xs, wr_write = copy_from_slice xs\<rparr>"

definition closure_writer :: "usize \<times> (bytes \<Rightarrow> bytes) \<Rightarrow> bytes_writer" where
  "closure_writer c = \<lparr>wr_size = fst c, wr_write = (\<lambda>s. Inr (snd c s))\<rparr>"

text \<open>What a writer writes, and that it writes all of it whatever was there before.\<close>

definition written :: "bytes_writer \<Rightarrow> bytes" where
  "written w = (case wr_write w (replicate (unat (wr_size w)) 0) of Inr xs \<Rightarrow> xs | Inl _ \<Rightarrow> [])"

definition writes_all :: "bytes_writer \<Rightarrow> bool" where
  "writes_all w \<longleftrightarrow> length (written w) = unat (wr_size w) \<and>
     (\<forall>s. length s = unat (wr_size w) \<longrightarrow> wr_write w s = Inr (written w))"

section \<open>\<open>WriteVecBuffer\<close>\<close>

definition WriteVecBuffer_capacity :: "usize \<Rightarrow> usize \<Rightarrow> bytes \<Rightarrow> usize" where
  "WriteVecBuffer_capacity H T b = saturating_sub (bytes_len b) (H + T)"

definition WriteVecBuffer_slice :: "usize \<Rightarrow> usize \<Rightarrow> bytes \<Rightarrow> range \<Rightarrow> bytes exec" where
  "WriteVecBuffer_slice H T b r =
     and_then (add_usize H (snd r)) (\<lambda>k. and_then (add_usize k T) (\<lambda>stop. cells_range b (fst r) stop))"

definition WriteVecBuffer_clear :: "bytes \<Rightarrow> range \<Rightarrow> bytes exec" where
  "WriteVecBuffer_clear b r = Inr b"

definition WriteVecBuffer_insert_into :: "usize \<Rightarrow> bytes_writer \<Rightarrow> bytes \<Rightarrow> usize \<Rightarrow> bytes exec" where
  "WriteVecBuffer_insert_into H w b index =
     and_then (add_usize H index) (\<lambda>start.
     and_then (add_usize start (wr_size w)) (\<lambda>stop.
     put_range b start stop (wr_write w)))"

definition WriteVecBuffer_resize :: "usize \<Rightarrow> usize \<Rightarrow> bytes \<Rightarrow> usize \<Rightarrow> bytes exec" where
  "WriteVecBuffer_resize H T b c =
     and_then (add_usize H c) (\<lambda>k. and_then (add_usize k T) (\<lambda>n. Inr (replicate (unat n) 0)))"

definition WriteVecBuffer :: "usize \<Rightarrow> usize \<Rightarrow> (bytes, bytes) buffer_trait" where
  "WriteVecBuffer H T = \<lparr>buf_default = [], buf_capacity = WriteVecBuffer_capacity H T,
     buf_slice = WriteVecBuffer_slice H T, buf_clear = WriteVecBuffer_clear\<rparr>"

definition WriteVecBuffer_insert :: "usize \<Rightarrow> (bytes, bytes_writer) insert_trait" where
  "WriteVecBuffer_insert H = \<lparr>ins_size = wr_size, ins_into = WriteVecBuffer_insert_into H\<rparr>"

section \<open>\<open>WriteArrayBuffer\<close>\<close>

definition WriteArrayBuffer_capacity :: "usize \<Rightarrow> u8 framed_array \<Rightarrow> usize" where
  "WriteArrayBuffer_capacity N b = N"

definition WriteArrayBuffer_slice :: "usize \<Rightarrow> usize \<Rightarrow> u8 framed_array \<Rightarrow> range \<Rightarrow> bytes exec" where
  "WriteArrayBuffer_slice H T b r =
     and_then (add_usize H (snd r)) (\<lambda>k.
     and_then (add_usize k T) (\<lambda>stop. cells_range (AHT_deref b) (fst r) stop))"

definition WriteArrayBuffer_clear :: "u8 framed_array \<Rightarrow> range \<Rightarrow> u8 framed_array exec" where
  "WriteArrayBuffer_clear b r = Inr b"

definition WriteArrayBuffer_insert_into ::
    "usize \<Rightarrow> bytes_writer \<Rightarrow> u8 framed_array \<Rightarrow> usize \<Rightarrow> u8 framed_array exec" where
  "WriteArrayBuffer_insert_into H w b index =
     and_then (add_usize H index) (\<lambda>start.
     and_then (add_usize start (wr_size w)) (\<lambda>stop.
     and_then (put_range (AHT_deref b) start stop (wr_write w)) (\<lambda>xs.
     Inr (AHT_deref_mut b xs))))"

definition WriteArrayBuffer :: "usize \<Rightarrow> usize \<Rightarrow> usize \<Rightarrow> (u8 framed_array, bytes) buffer_trait" where
  "WriteArrayBuffer N H T = \<lparr>buf_default = AHT_new H N T 0, buf_capacity = WriteArrayBuffer_capacity N,
     buf_slice = WriteArrayBuffer_slice H T, buf_clear = WriteArrayBuffer_clear\<rparr>"

definition WriteArrayBuffer_insert :: "usize \<Rightarrow> (u8 framed_array, bytes_writer) insert_trait" where
  "WriteArrayBuffer_insert H = \<lparr>ins_size = wr_size, ins_into = WriteArrayBuffer_insert_into H\<rparr>"

section \<open>Frames\<close>

text \<open>
  What a reader sees in a slice (whose length is a \<open>usize\<close>): the bytes without the header and the
  trailer. \<open>bytes_rep\<close> places cell \<open>k\<close> of the queue behind the header.
\<close>

definition bytes_view :: "usize \<Rightarrow> usize \<Rightarrow> bytes \<Rightarrow> bytes" where
  "bytes_view H T s =
     (if length s < 18446744073709551616
      then case BytesSlice_deref H T s of Inr xs \<Rightarrow> xs | Inl _ \<Rightarrow> [] else [])"

definition bytes_rep :: "usize \<Rightarrow> usize \<Rightarrow> bytes \<Rightarrow> (nat \<rightharpoonup> u8) \<Rightarrow> bool" where
  "bytes_rep H T b m \<longleftrightarrow> length b < 18446744073709551616 \<and>
     (\<forall>k x. m k = Some x \<longrightarrow> unat H + k + unat T < length b \<and> b ! (unat H + k) = x)"

lemma cells_range_ok_le:
  "unat lo \<le> unat hi \<Longrightarrow> unat hi \<le> length xs \<Longrightarrow>
   cells_range xs lo hi = Inr (take (unat hi - unat lo) (drop (unat lo) xs))"
  by (simp add: cells_range_def word_le_nat_alt)

lemma BytesSlice_deref_ok:
  assumes "length s < 18446744073709551616" and "unat H + unat T \<le> length s"
  shows "BytesSlice_deref H T s = Inr (take (length s - unat T - unat H) (drop (unat H) s))"
proof -
  have "unat (bytes_len s) = length s"
    using assms(1) by (simp add: bytes_len_def usize_simps)
  moreover from this have "T \<le> bytes_len s" "unat (bytes_len s - T) = length s - unat T"
    using assms(2) by (simp_all add: word_le_nat_alt unat_sub)
  ultimately show ?thesis
    using assms(2) by (simp add: BytesSlice_deref_def cells_range_ok_le)
qed

text \<open>A slice that shows bytes is a header, these bytes and a trailer.\<close>

lemma bytes_view_frame:
  assumes "bytes_view H T s = xs" and "xs \<noteq> []"
  shows "\<exists>h t. s = h @ xs @ t \<and> length h = unat H \<and> length t = unat T \<and>
    length s < 18446744073709551616"
proof -
  have len: "length s < 18446744073709551616" and d: "BytesSlice_deref H T s = Inr xs"
    using assms by (auto simp: bytes_view_def split: if_splits sum.splits)
  have bl: "unat (bytes_len s) = length s"
    using len by (simp add: bytes_len_def usize_simps)
  have T: "T \<le> bytes_len s" and r: "cells_range s H (bytes_len s - T) = Inr xs"
    using d by (auto simp: BytesSlice_deref_def sub_usize_def split: if_splits)
  then have k: "unat (bytes_len s - T) = length s - unat T" "unat T \<le> length s"
    by (simp_all add: unat_sub bl word_le_nat_alt)
  then have xs: "xs = take (length s - unat T - unat H) (drop (unat H) s)" "unat H \<le> length s - unat T"
    using r by (auto simp: cells_range_def word_le_nat_alt split: if_splits)
  have "s = take (unat H) s @ xs @ drop (unat H + (length s - unat T - unat H)) s"
    unfolding xs(1) by (rule take_take_drop [symmetric])
  with xs(2) k(2) len show ?thesis
    by (intro exI [of _ "take (unat H) s"] exI [of _ "drop (length s - unat T) s"]) simp
qed

lemma bytes_slice_ok:
  assumes "bytes_rep H T b m" and "lo < hi" and "unat H + unat hi + unat T \<le> length b"
    and "{unat lo..<unat hi} \<subseteq> dom m"
  shows "\<exists>s. WriteVecBuffer_slice H T b (lo, hi) = Inr s \<and>
    bytes_view H T s = map (\<lambda>k. the (m k)) [unat lo..<unat hi]"
proof -
  have lohi: "unat lo < unat hi" and len: "length b < 18446744073709551616"
    using assms(1,2) by (simp_all add: word_less_nat_alt bytes_rep_def)
  have add: "add_usize H hi = Inr (H + hi)" "unat (H + hi) = unat H + unat hi"
    "add_usize (H + hi) T = Inr (H + hi + T)" "unat (H + hi + T) = unat H + unat hi + unat T"
    using assms(3) len by (simp_all add: add_usize_ok unat_add_usize)
  define s where "s = take (unat H + unat hi + unat T - unat lo) (drop (unat lo) b)"
  have s: "length s = unat H + unat hi + unat T - unat lo"
    using assms(3) by (simp add: s_def)
  have run: "WriteVecBuffer_slice H T b (lo, hi) = Inr s"
    using add assms(3) lohi by (simp add: WriteVecBuffer_slice_def cells_range_ok_le s_def)
  have "bytes_view H T s = take (length s - unat T - unat H) (drop (unat H) s)"
    using s assms(3) len lohi by (simp add: bytes_view_def BytesSlice_deref_ok)
  also have "\<dots> = map (\<lambda>k. the (m k)) [unat lo..<unat hi]"
  proof (rule nth_equalityI)
    show "length (take (length s - unat T - unat H) (drop (unat H) s)) =
        length (map (\<lambda>k. the (m k)) [unat lo..<unat hi])"
      using s lohi by simp
  next
    fix j assume "j < length (take (length s - unat T - unat H) (drop (unat H) s))"
    then have j: "j < unat hi - unat lo"
      using s lohi by simp
    then have "unat lo + j \<in> dom m"
      using assms(4) by (intro subsetD [OF assms(4)]) simp
    then have "b ! (unat H + (unat lo + j)) = the (m (unat lo + j))"
      using assms(1) by (auto simp: bytes_rep_def)
    then show "take (length s - unat T - unat H) (drop (unat H) s) ! j =
        map (\<lambda>k. the (m k)) [unat lo..<unat hi] ! j"
      using j s lohi assms(3) by (simp add: s_def add.left_commute)
  qed
  finally show ?thesis
    using run by blast
qed


text \<open>The sizes of a frame: header and trailer leave room for every capacity of a queue.\<close>

definition frame_sizes_ok :: "usize \<Rightarrow> usize \<Rightarrow> bool" where
  "frame_sizes_ok H T \<longleftrightarrow> unat H + unat T < 9223372036854775808"

lemma WriteVecBuffer_capacity_unat:
  assumes "frame_sizes_ok H T" and "length b < 18446744073709551616"
  shows "unat (WriteVecBuffer_capacity H T b) = length b - (unat H + unat T)"
  using assms
  by (simp add: WriteVecBuffer_capacity_def saturating_sub_unat frame_sizes_ok_def unat_add_usize
      bytes_len_def usize_simps)

lemma bytes_rep_dom:
  "bytes_rep H T b m \<Longrightarrow> dom m \<subseteq> {..<length b - (unat H + unat T)}"
  by (force simp: bytes_rep_def)

lemma bytes_rep_mono: "bytes_rep H T b m \<Longrightarrow> m' \<subseteq>\<^sub>m m \<Longrightarrow> bytes_rep H T b m'"
  by (force simp: bytes_rep_def map_le_def dom_def)

text \<open>Replacing a range of bytes by as many bytes adds them to the inserted cells.\<close>

lemma bytes_rep_put:
  assumes "bytes_rep H T b m" and "unat H + k + length xs + unat T \<le> length b"
  shows "bytes_rep H T (take (unat H + k) b @ xs @ drop (unat H + k + length xs) b) (m ++ seg k xs)"
  using assms by (auto simp: bytes_rep_def nth_append seg_def map_add_def split: if_splits)

lemma bytes_put_range_ok:
  assumes "bytes_rep H T b m" and "writes_all w"
    and "unat H + unat i + length (written w) + unat T \<le> length b"
  shows "\<exists>b'. and_then (add_usize H i) (\<lambda>start. and_then (add_usize start (wr_size w)) (\<lambda>stop.
      put_range b start stop (wr_write w))) = Inr b' \<and>
    bytes_rep H T b' (m ++ seg (unat i) (written w)) \<and> length b' = length b"
proof -
  let ?n = "length (written w)"
  have n: "unat (wr_size w) = ?n" and len: "length b < 18446744073709551616"
    using assms(1,2) by (simp_all add: writes_all_def bytes_rep_def)
  have add: "add_usize H i = Inr (H + i)" "unat (H + i) = unat H + unat i"
    "add_usize (H + i) (wr_size w) = Inr (H + i + wr_size w)"
    "unat (H + i + wr_size w) = unat H + unat i + ?n"
    using assms(3) len n by (simp_all add: add_usize_ok unat_add_usize)
  have "wr_write w (take ?n (drop (unat H + unat i) b)) = Inr (written w)"
    using assms(2,3) n by (simp add: writes_all_def)
  then have "put_range b (H + i) (H + i + wr_size w) (wr_write w) =
      Inr (take (unat H + unat i) b @ written w @ drop (unat H + unat i + ?n) b)"
    using assms(3) add by (simp add: put_range_def cells_range_ok_le)
  moreover have "length (take (unat H + unat i) b @ written w @ drop (unat H + unat i + ?n) b) = length b"
    using assms(3) by simp
  ultimately show ?thesis
    using bytes_rep_put [OF assms(1), of "unat i" "written w"] assms(3) add by simp
qed

section \<open>The contracts hold\<close>

lemma WriteVecBuffer_contract:
  assumes "frame_sizes_ok H T"
  shows "buffer_contract (WriteVecBuffer H T) (bytes_rep H T) (\<lambda>x. x) (bytes_view H T)"
proof
  show "bytes_rep H T (buf_default (WriteVecBuffer H T)) Map.empty"
    by (simp add: WriteVecBuffer_def bytes_rep_def)
next
  fix b m assume "bytes_rep H T b m"
  then show "dom m \<subseteq> {..<unat (buf_capacity (WriteVecBuffer H T) b)}"
    using bytes_rep_dom [of H T b m] WriteVecBuffer_capacity_unat [OF assms, of b]
    by (simp add: WriteVecBuffer_def bytes_rep_def)
next
  fix b m and lo hi :: usize
  assume a: "bytes_rep H T b m" "lo < hi" "hi \<le> buf_capacity (WriteVecBuffer H T) b"
    "{unat lo..<unat hi} \<subseteq> dom m"
  then have "unat hi \<le> length b - (unat H + unat T)" "0 < unat hi"
    using WriteVecBuffer_capacity_unat [OF assms, of b]
    by (auto simp: WriteVecBuffer_def bytes_rep_def word_le_nat_alt word_less_nat_alt)
  then have "unat H + unat hi + unat T \<le> length b"
    by simp
  with bytes_slice_ok [OF a(1,2) this a(4)]
  show "\<exists>s. buf_slice (WriteVecBuffer H T) b (lo, hi) = Inr s \<and>
      bytes_view H T s = map (\<lambda>k. the (m k)) [unat lo..<unat hi]"
    by (simp add: WriteVecBuffer_def)
next
  fix b m and lo hi :: usize
  assume "bytes_rep H T b m"
  then show "\<exists>b'. buf_clear (WriteVecBuffer H T) b (lo, hi) = Inr b' \<and>
      bytes_rep H T b' (m |` (- {unat lo..<unat hi})) \<and>
      buf_capacity (WriteVecBuffer H T) b' = buf_capacity (WriteVecBuffer H T) b"
    using bytes_rep_mono [of H T b m]
    by (simp add: WriteVecBuffer_def WriteVecBuffer_clear_def map_le_def)
qed

lemma WriteVecBuffer_resizable:
  assumes "frame_sizes_ok H T"
  shows "resizable_queue (WriteVecBuffer H T) (bytes_rep H T) (\<lambda>x. x) (bytes_view H T)
    (WriteVecBuffer_insert H) writes_all written (WriteVecBuffer_resize H T)"
proof (intro resizable_queue.intro insert_contract.intro resize_contract.intro
    WriteVecBuffer_contract [OF assms] insert_contract_axioms.intro resize_contract_axioms.intro)
  fix w assume "writes_all w"
  then show "unat (ins_size (WriteVecBuffer_insert H) w) = length (written w)"
    by (simp add: WriteVecBuffer_insert_def writes_all_def)
next
  fix b m w and i :: usize
  assume a: "bytes_rep H T b m" "writes_all w" "written w \<noteq> []"
    "unat i + length (written w) \<le> unat (buf_capacity (WriteVecBuffer H T) b)"
  have cap: "buf_capacity (WriteVecBuffer H T) c = WriteVecBuffer_capacity H T c" for c
    by (simp add: WriteVecBuffer_def)
  have "unat i + length (written w) \<le> length b - (unat H + unat T)" "0 < length (written w)"
    using a(1,3,4) WriteVecBuffer_capacity_unat [OF assms, of b] by (simp_all add: cap bytes_rep_def)
  then have "unat H + unat i + length (written w) + unat T \<le> length b"
    by linarith
  from bytes_put_range_ok [OF a(1,2) this]
  show "\<exists>b'. ins_into (WriteVecBuffer_insert H) w b i = Inr b' \<and>
      bytes_rep H T b' (m ++ seg (unat i) (written w)) \<and>
      buf_capacity (WriteVecBuffer H T) b' = buf_capacity (WriteVecBuffer H T) b"
    by (auto simp: WriteVecBuffer_insert_def WriteVecBuffer_insert_into_def cap
        WriteVecBuffer_capacity_def bytes_len_def)
next
  fix c :: usize and b
  assume c: "unat c < 4611686018427387904"
  then have add: "add_usize H c = Inr (H + c)" "add_usize (H + c) T = Inr (H + c + T)"
    "unat (H + c + T) = unat H + unat c + unat T"
    using assms by (simp_all add: frame_sizes_ok_def add_usize_ok unat_add_usize)
  let ?b = "replicate (unat (H + c + T)) 0 :: bytes"
  have len: "length ?b < 18446744073709551616"
    using unat_usize_less by simp
  then have "unat (WriteVecBuffer_capacity H T ?b) = unat c"
    using WriteVecBuffer_capacity_unat [OF assms, of ?b] add by simp
  then show "\<exists>b'. WriteVecBuffer_resize H T b c = Inr b' \<and> bytes_rep H T b' Map.empty \<and>
      buf_capacity (WriteVecBuffer H T) b' = c"
    using add len by (simp add: WriteVecBuffer_resize_def WriteVecBuffer_def bytes_rep_def usize_eq_iff)
qed


interpretation framed_vec: resizable_queue "WriteVecBuffer 2 4" "bytes_rep 2 4" "\<lambda>x. x" "bytes_view 2 4"
  "WriteVecBuffer_insert 2" writes_all written "WriteVecBuffer_resize 2 4"
  by (rule WriteVecBuffer_resizable) (simp add: frame_sizes_ok_def)

subsection \<open>\<open>WriteArrayBuffer\<close>\<close>

text \<open>The three arrays have the lengths of the type's parameters.\<close>

definition framed_rep :: "usize \<Rightarrow> usize \<Rightarrow> usize \<Rightarrow> u8 framed_array \<Rightarrow> (nat \<rightharpoonup> u8) \<Rightarrow> bool" where
  "framed_rep N H T b m \<longleftrightarrow> length (fr_header b) = unat H \<and> length (fr_array b) = unat N \<and>
     length (fr_trailer b) = unat T \<and> bytes_rep H T (AHT_deref b) m"

definition framed_sizes_ok :: "usize \<Rightarrow> usize \<Rightarrow> usize \<Rightarrow> bool" where
  "framed_sizes_ok N H T \<longleftrightarrow> unat H + unat N + unat T < 18446744073709551616"

lemma framed_rep_length:
  "framed_rep N H T b m \<Longrightarrow> length (AHT_deref b) = unat H + unat N + unat T"
  by (simp add: framed_rep_def AHT_deref_def)

lemma AHT_deref_mut_lengths:
  assumes "length xs = length (AHT_deref a)"
  shows "length (fr_header (AHT_deref_mut a xs)) = length (fr_header a)"
    "length (fr_array (AHT_deref_mut a xs)) = length (fr_array a)"
    "length (fr_trailer (AHT_deref_mut a xs)) = length (fr_trailer a)"
  using assms by (simp_all add: AHT_deref_mut_def AHT_deref_def Let_def)

lemma WriteArrayBuffer_slice_bytes:
  "WriteArrayBuffer_slice H T b r = WriteVecBuffer_slice H T (AHT_deref b) r"
  by (simp add: WriteArrayBuffer_slice_def WriteVecBuffer_slice_def)

lemma WriteArrayBuffer_contract:
  assumes "framed_sizes_ok N H T"
  shows "insert_contract (WriteArrayBuffer N H T) (framed_rep N H T) (\<lambda>x. x) (bytes_view H T)
    (WriteArrayBuffer_insert H) writes_all written"
proof (intro insert_contract.intro buffer_contract.intro insert_contract_axioms.intro)
  show "framed_rep N H T (buf_default (WriteArrayBuffer N H T)) Map.empty"
    using assms by (simp add: WriteArrayBuffer_def framed_rep_def AHT_new_def AHT_deref_def
        init_array_def bytes_rep_def framed_sizes_ok_def)
next
  fix b m assume "framed_rep N H T b m"
  then show "dom m \<subseteq> {..<unat (buf_capacity (WriteArrayBuffer N H T) b)}"
    using bytes_rep_dom [of H T "AHT_deref b" m] framed_rep_length [of N H T b m]
    by (simp add: WriteArrayBuffer_def WriteArrayBuffer_capacity_def framed_rep_def)
next
  fix b m and lo hi :: usize
  assume a: "framed_rep N H T b m" "lo < hi" "hi \<le> buf_capacity (WriteArrayBuffer N H T) b"
    "{unat lo..<unat hi} \<subseteq> dom m"
  then have "unat H + unat hi + unat T \<le> length (AHT_deref b)"
    using framed_rep_length [OF a(1)]
    by (simp add: WriteArrayBuffer_def WriteArrayBuffer_capacity_def word_le_nat_alt)
  with a bytes_slice_ok [of H T "AHT_deref b" m lo hi]
  show "\<exists>s. buf_slice (WriteArrayBuffer N H T) b (lo, hi) = Inr s \<and>
      bytes_view H T s = map (\<lambda>k. the (m k)) [unat lo..<unat hi]"
    by (simp add: WriteArrayBuffer_def WriteArrayBuffer_slice_bytes framed_rep_def)
next
  fix b m and lo hi :: usize
  assume "framed_rep N H T b m"
  then show "\<exists>b'. buf_clear (WriteArrayBuffer N H T) b (lo, hi) = Inr b' \<and>
      framed_rep N H T b' (m |` (- {unat lo..<unat hi})) \<and>
      buf_capacity (WriteArrayBuffer N H T) b' = buf_capacity (WriteArrayBuffer N H T) b"
    using bytes_rep_mono [of H T "AHT_deref b" m]
    by (simp add: WriteArrayBuffer_def WriteArrayBuffer_clear_def framed_rep_def map_le_def)
next
  fix w assume "writes_all w"
  then show "unat (ins_size (WriteArrayBuffer_insert H) w) = length (written w)"
    by (simp add: WriteArrayBuffer_insert_def writes_all_def)
next
  fix b m w and i :: usize
  assume a: "framed_rep N H T b m" "writes_all w"
    "unat i + length (written w) \<le> unat (buf_capacity (WriteArrayBuffer N H T) b)"
  then have "unat H + unat i + length (written w) + unat T \<le> length (AHT_deref b)"
    using framed_rep_length [OF a(1)] by (simp add: WriteArrayBuffer_def WriteArrayBuffer_capacity_def)
  with a(1,2) bytes_put_range_ok [of H T "AHT_deref b" m w i] obtain xs where
    xs: "and_then (add_usize H i) (\<lambda>start. and_then (add_usize start (wr_size w)) (\<lambda>stop.
      put_range (AHT_deref b) start stop (wr_write w))) = Inr xs"
    "bytes_rep H T xs (m ++ seg (unat i) (written w))" "length xs = length (AHT_deref b)"
    by (auto simp: framed_rep_def)
  have "ins_into (WriteArrayBuffer_insert H) w b i = Inr (AHT_deref_mut b xs)"
    using xs(1) by (auto simp: WriteArrayBuffer_insert_def WriteArrayBuffer_insert_into_def and_then_eq_Inr)
  moreover have "framed_rep N H T (AHT_deref_mut b xs) (m ++ seg (unat i) (written w))"
    using a(1) xs(2,3) by (simp add: framed_rep_def AHT_deref_mut_lengths AHT_put_get)
  ultimately show "\<exists>b'. ins_into (WriteArrayBuffer_insert H) w b i = Inr b' \<and>
      framed_rep N H T b' (m ++ seg (unat i) (written w)) \<and>
      buf_capacity (WriteArrayBuffer N H T) b' = buf_capacity (WriteArrayBuffer N H T) b"
    by (simp add: WriteArrayBuffer_def WriteArrayBuffer_capacity_def)
qed

interpretation framed_array: insert_contract "WriteArrayBuffer 16 2 4" "framed_rep 16 2 4" "\<lambda>x. x"
  "bytes_view 2 4" "WriteArrayBuffer_insert 2" writes_all written
  by (rule WriteArrayBuffer_contract) (simp add: framed_sizes_ok_def)

section \<open>Writers\<close>

lemma slice_writer_ok:
  assumes "length xs < 18446744073709551616"
  shows "writes_all (slice_writer xs)" "written (slice_writer xs) = xs"
  using assms by (simp_all add: writes_all_def written_def slice_writer_def copy_from_slice_def
      bytes_len_def usize_simps)

lemma closure_writer_ok:
  assumes "\<And>s. length s = unat n \<Longrightarrow> f s = xs" and "length xs = unat n"
  shows "writes_all (closure_writer (n, f))" "written (closure_writer (n, f)) = xs"
  using assms by (simp_all add: writes_all_def written_def closure_writer_def)

end
