(* ===== verification/Write_Properties.thy ===== *)
theory Write_Properties
  imports Write_Buffers Concurrent_Resize
begin

text \<open>
  The properties of the byte buffers: what a \<open>BytesSlice\<close> shows and how a frame is completed, that
  bytes written to a queue come out as one frame, one caller after the other or in any interleaving, and
  that the array variant implements the specification of the queue. They hold for every header and trailer
  size that leaves room for the largest capacity.
\<close>

section \<open>Frames\<close>

text \<open>
  C31: In a slice long enough for a header and a trailer, \<open>header\<close>, \<open>deref\<close> and \<open>trailer\<close>
  split the frame into three parts, and after writing the header and the trailer the frame is the new
  header, the bytes that \<open>deref\<close> showed before, and the new trailer. Copying as many bytes into \<open>deref_mut\<close>
  then replaces the payload and nothing else, like copying the new frame into \<open>frame_mut\<close>.
\<close>

theorem bytes_slice_frame:
  assumes "unat H + unat T \<le> length s" and "length s < 18446744073709551616"
    and "length hs = unat H" and "length ts = unat T"
  shows "\<exists>h payload t s1 s2. BytesSlice_header H s = Inr h \<and> BytesSlice_deref H T s = Inr payload \<and>
    BytesSlice_trailer T s = Inr t \<and> BytesSlice_frame s = h @ payload @ t \<and>
    BytesSlice_set_header H hs s = Inr s1 \<and> BytesSlice_set_trailer T ts s1 = Inr s2 \<and>
    BytesSlice_frame s2 = hs @ payload @ ts \<and> BytesSlice_deref H T s2 = Inr payload \<and>
    (\<forall>ps. length ps = length payload \<longrightarrow>
      BytesSlice_deref_mut H T (copy_from_slice ps) s2 = Inr (hs @ ps @ ts) \<and>
      BytesSlice_frame_mut (copy_from_slice (hs @ ps @ ts)) s2 = Inr (hs @ ps @ ts))"
proof -
  define payload where "payload = take (length s - unat T - unat H) (drop (unat H) s)"
  define h where "h = take (unat H) s"
  define t where "t = drop (length s - unat T) s"
  have s: "s = h @ payload @ t"
    using take_take_drop [of "unat H" s "length s - unat T - unat H"] assms(1)
    by (simp add: h_def payload_def t_def)
  have len: "length h = unat H" "length t = unat T"
    using assms(1) by (simp_all add: h_def t_def)
  have sizes: "length (h' @ payload @ t') = length s" if "length h' = unat H" "length t' = unat T" for h' t'
    using that len by (simp add: s)
  have bl: "unat (bytes_len u) = length s" "T \<le> bytes_len u" "unat (bytes_len u - T) = unat H + length payload"
    if "length u = length s" for u :: bytes
  proof -
    show "unat (bytes_len u) = length s"
      using that assms(2) by (simp add: bytes_len_def usize_simps)
    then show "T \<le> bytes_len u" "unat (bytes_len u - T) = unat H + length payload"
      using assms(1) len by (simp_all add: word_le_nat_alt unat_sub s)
  qed
  have parts: "BytesSlice_header H u = Inr h'" "BytesSlice_deref H T u = Inr payload"
    "BytesSlice_trailer T u = Inr t'" "BytesSlice_set_header H hs u = Inr (hs @ payload @ t')"
    "BytesSlice_set_trailer T ts u = Inr (h' @ payload @ ts)"
    if "u = h' @ payload @ t'" "length h' = unat H" "length t' = unat T" for u h' t'
    using that bl [of u] sizes [OF that(2,3)] assms(3,4)
    by (simp_all add: BytesSlice_header_def BytesSlice_deref_def BytesSlice_trailer_def
        BytesSlice_set_header_def BytesSlice_set_trailer_def put_range_def copy_from_slice_def
        cells_range_ok_le)
  have "BytesSlice_deref_mut H T (copy_from_slice ps) (hs @ payload @ ts) = Inr (hs @ ps @ ts)"
    "BytesSlice_frame_mut (copy_from_slice (hs @ ps @ ts)) (hs @ payload @ ts) = Inr (hs @ ps @ ts)"
    if "length ps = length payload" for ps
    using that bl [of "hs @ payload @ ts"] sizes [OF assms(3,4)] assms(3,4)
    by (simp_all add: BytesSlice_deref_mut_def BytesSlice_frame_mut_def put_range_def copy_from_slice_def cells_range_ok_le)
  then show ?thesis
    using parts [OF s len] parts [OF refl assms(3) len(2)] parts(2) [OF refl assms(3,4)] s
    by (simp add: BytesSlice_frame_def)
qed

theorem bytes_slice_frame_witness:
  "\<exists>s1 s2 :: bytes. BytesSlice_set_header 2 [0, 1] [9, 9, 2, 3, 4, 5, 9, 9, 9, 9] = Inr s1 \<and>
    BytesSlice_set_trailer 4 [6, 7, 8, 9] s1 = Inr s2 \<and>
    BytesSlice_frame s2 = [0, 1, 2, 3, 4, 5, 6, 7, 8, 9] \<and>
    BytesSlice_deref_mut 2 4 (copy_from_slice [9, 8, 7, 6]) s2 = Inr [0, 1, 9, 8, 7, 6, 6, 7, 8, 9]"
proof -
  have "BytesSlice_deref 2 4 [9, 9, 2, 3, 4, 5, 9, 9, 9, 9] = Inr [2, 3, 4, 5]"
    by code_simp
  with bytes_slice_frame [of 2 4 "[9, 9, 2, 3, 4, 5, 9, 9, 9, 9]" "[0, 1]" "[6, 7, 8, 9]"]
  show ?thesis by auto
qed

section \<open>Queues of bytes\<close>

text \<open>
  On a new queue over \<open>WriteVecBuffer\<close>, writing byte strings that fit together in its capacity
  one after the other and dequeuing gives one frame: room for the header, all the bytes in order, and room
  for the trailer, whatever compare-and-swaps fail spuriously.
\<close>

theorem write_vec_roundtrip:
  assumes "frame_sizes_ok H T" and "unat c < 4611686018427387903"
    and "concat xss \<noteq> []" and "length (concat xss) \<le> unat c" and "length sps = length xss"
  shows "\<exists>q q1 s q2 h t. Queue_with_capacity (WriteVecBuffer H T) (WriteVecBuffer_resize H T) n c = Inr q \<and>
    enqueue_all (WriteVecBuffer H T) N (WriteVecBuffer_insert H) (zip sps (map slice_writer xss)) q =
      Inr (Inr (), q1) \<and>
    Queue_try_dequeue (WriteVecBuffer H T) N sp q1 = Inr (Inr s, q2) \<and>
    BytesSlice_frame (slice_slice s) = h @ concat xss @ t \<and> length h = unat H \<and> length t = unat T"
proof -
  note R = WriteVecBuffer_resizable [OF assms(1)]
  note I = resizable_queue.axioms(1) [OF R] and Z = resizable_queue.axioms(2) [OF R]
  let ?vs = "zip sps (map slice_writer xss)"
  have small: "length xs < 18446744073709551616" if "xs \<in> set xss" for xs
    using member_le_sum_list [of "length xs" "map length xss"] that assms(2,4) by (simp add: length_concat)
  have "map (written \<circ> snd) ?vs = map (written \<circ> slice_writer) xss"
    using assms(5) by (simp flip: map_map)
  also have "\<dots> = xss"
    using small by (intro map_idI) (simp add: slice_writer_ok)
  finally have vs: "map (written \<circ> snd) ?vs = xss" .
  have all: "\<forall>v \<in> set ?vs. writes_all (snd v)"
    using small by (auto simp: slice_writer_ok dest!: set_zip_rightD)
  obtain q where q: "Queue_with_capacity (WriteVecBuffer H T) (WriteVecBuffer_resize H T) n c = Inr q"
    "queue_rep (WriteVecBuffer H T) (bytes_rep H T) q (spec_new (unat c))"
    using resize_contract.with_capacity_refines [OF Z assms(2), of n] by blast
  from insert_contract.enqueue_all_dequeue [OF I q(2) all, of N sp] assms(3,4)
  obtain q1 s q2 where r: "enqueue_all (WriteVecBuffer H T) N (WriteVecBuffer_insert H) ?vs q = Inr (Inr (), q1)"
    "Queue_try_dequeue (WriteVecBuffer H T) N sp q1 = Inr (Inr s, q2)"
    "bytes_view H T (slice_slice s) = concat xss"
    unfolding vs by auto
  with bytes_view_frame [OF r(3) assms(3)] q(1) show ?thesis
    by (auto simp: BytesSlice_frame_def)
qed


theorem write_vec_roundtrip_witness:
  "\<exists>q q1 s q2 h t. Queue_with_capacity (WriteVecBuffer 2 4) (WriteVecBuffer_resize 2 4) () 42 = Inr q \<and>
    enqueue_all (WriteVecBuffer 2 4) unit_notify (WriteVecBuffer_insert 2)
      [([True], slice_writer [2, 3]), ([], slice_writer [4, 5])] q = Inr (Inr (), q1) \<and>
    Queue_try_dequeue (WriteVecBuffer 2 4) unit_notify [] q1 = Inr (Inr s, q2) \<and>
    BytesSlice_frame (slice_slice s) = h @ [2, 3, 4, 5] @ t \<and> length h = 2 \<and> length t = 4"
  using write_vec_roundtrip [of 2 4 42 "[[2, 3], [4, 5]]" "[[True], []]" "()" unit_notify "[]"]
  by (simp add: frame_sizes_ok_def)

definition write_choice_ok :: "(bytes_writer, bytes_writer resize_request) choice \<Rightarrow> bool" where
  "write_choice_ok = choice_ok writes_all written (prep_good writes_all written)"

definition WriteVecSystem ::
    "usize \<Rightarrow> usize \<Rightarrow> 'n notify_trait \<Rightarrow>
     (bytes, bytes, 'n, bytes_writer, u8, bytes_writer resize_request) sys" where
  "WriteVecSystem H T N =
     ResizableSystem (WriteVecBuffer H T) N (WriteVecBuffer_insert H) (WriteVecBuffer_resize H T) None"

text \<open>
  C30: Any number of threads share a new queue over \<open>WriteVecBuffer\<close>, with writers that fill what they
  announce, fewer than \<open>2^63\<close> bytes, and resizes that ask for a legal capacity with room for all bytes that they insert,
  or insert nothing (\<open>write_choice_ok\<close>). In no interleaving does a step fault, and the bytes of every frame handed out are, between its
  header and its trailer, the oldest bytes that have been reserved and not consumed, in the order of the
  reservations and with no gap: no frame shows a write that is not complete.
\<close>

theorem write_vec_concurrent:
  assumes "frame_sizes_ok H T" and "unat c < 4611686018427387903"
    and "Queue_with_capacity (WriteVecBuffer H T) (WriteVecBuffer_resize H T) n0 c = Inr q"
    and "sys_steps (WriteVecSystem H T N) write_choice_ok \<lparr>shared = q, threads = replicate n Idle\<rparr> tr st"
    and "t < n"
  shows "(write_choice_ok ch \<longrightarrow>
      thread_step (WriteVecSystem H T N) (shared st) (threads st ! t) ch \<noteq> Some (Inl f)) \<and>
    (thread_step (WriteVecSystem H T N) (shared st) (threads st ! t) (Go spurious) =
       Some (Inr (q', p, Ev_Sliced s)) \<longrightarrow>
     (\<exists>h payload tl later. BytesSlice_frame s = h @ payload @ tl \<and> length h = unat H \<and>
        length tl = unat T \<and> payload \<noteq> [] \<and>
        produced written (prep_inserted written) tr = consumed (\<lambda>x. x) (bytes_view H T) tr @ payload @ later))"
proof -
  note R = WriteVecBuffer_resizable [OF assms(1)]
  note S = resizable_queue.resizable_conc [OF R, of N]
  have rep: "queue_rep (WriteVecBuffer H T) (bytes_rep H T) q (spec_new (unat c))"
    using resize_contract.with_capacity_refines [OF resizable_queue.axioms(2) [OF R] assms(2), of n0]
      assms(3) by simp
  note ok = conc_system.interleaving_ok [OF S rep _
      assms(4) [unfolded WriteVecSystem_def write_choice_ok_def] assms(5)]
  have "\<exists>h payload tl later. BytesSlice_frame s = h @ payload @ tl \<and> length h = unat H \<and>
        length tl = unat T \<and> payload \<noteq> [] \<and>
        produced written (prep_inserted written) tr = consumed (\<lambda>x. x) (bytes_view H T) tr @ payload @ later"
    if step: "thread_step (WriteVecSystem H T N) (shared st) (threads st ! t) (Go spurious) =
       Some (Inr (q', p, Ev_Sliced s))"
  proof -
    obtain later where r: "bytes_view H T s \<noteq> []"
      "produced written (prep_inserted written) tr =
        consumed (\<lambda>x. x) (bytes_view H T) tr @ bytes_view H T s @ later"
      using ok(2) [OF _ step [unfolded WriteVecSystem_def]] by (auto simp: spec_new_def)
    from bytes_view_frame [OF refl r(1)] r show ?thesis
      by (auto simp: BytesSlice_frame_def)
  qed
  with ok(1) show ?thesis
    by (simp add: spec_new_def WriteVecSystem_def write_choice_ok_def)
qed


text \<open>An interleaving for the witness: thread 1 dequeues what thread 0 has written.\<close>

definition write_schedule :: "(nat \<times> (bytes_writer, bytes_writer resize_request) choice) list" where
  "write_schedule =
     [(0, Start (Req_Enqueue (slice_writer [7, 8]))), (0, Go False), (0, Go False), (1, Start (Req_Dequeue None)),
      (1, Go False), (0, Go False), (0, Go False), (1, Go False), (1, Go False), (1, Go False),
      (1, Go False), (1, Go False), (1, Go False), (1, Go False), (1, Go False)]"

definition write_queue :: "(bytes, unit) queue" where
  "write_queue = \<lparr>enqueuing_capacity = 6, dequeuing_length = 1,
     buffers = (replicate 9 0, replicate 9 0), buffers_length = (0, 0), capacity = 3, notify = ()\<rparr>"

lemma write_queue_new:
  "Queue_with_capacity (WriteVecBuffer 2 4) (WriteVecBuffer_resize 2 4) () 3 = Inr write_queue"
  by code_simp

lemma write_run:
  "case run_schedule (WriteVecSystem 2 4 unit_notify) write_schedule
      \<lparr>shared = write_queue, threads = replicate 2 Idle\<rparr> of
    Inl _ \<Rightarrow> False
  | Inr (tr, st) \<Rightarrow>
      next_slice (WriteVecSystem 2 4 unit_notify) st 1 = Some [0, 0, 7, 8, 0, 0, 0, 0] \<and>
      consumed (\<lambda>x. x) (bytes_view 2 4) tr = []"
  by code_simp

theorem write_vec_concurrent_witness:
  "\<exists>tr st (later :: bytes). sys_steps (WriteVecSystem 2 4 unit_notify) write_choice_ok
      \<lparr>shared = write_queue, threads = replicate 2 Idle\<rparr> tr st \<and>
    next_slice (WriteVecSystem 2 4 unit_notify) st 1 = Some [0, 0, 7, 8, 0, 0, 0, 0] \<and>
    produced written (prep_inserted written) tr = [7, 8] @ later"
proof -
  let ?S = "WriteVecSystem 2 4 unit_notify" and ?c = "\<lparr>shared = write_queue, threads = replicate 2 Idle\<rparr>"
  obtain tr st where run: "run_schedule ?S write_schedule ?c = Inr (tr, st)"
    and last: "next_slice ?S st 1 = Some [0, 0, 7, 8, 0, 0, 0, 0]"
    and none: "consumed (\<lambda>x. x) (bytes_view 2 4) tr = []"
    using write_run by (cases "run_schedule ?S write_schedule ?c") auto
  from next_slice_step [OF last] obtain q' p where
    step: "thread_step ?S (shared st) (threads st ! 1) (Go False) =
      Some (Inr (q', p, Ev_Sliced [0, 0, 7, 8, 0, 0, 0, 0]))"
    by blast
  have "\<forall>(t, ch) \<in> set write_schedule. write_choice_ok ch"
    by (simp add: write_schedule_def write_choice_ok_def choice_ok_def slice_writer_ok)
  from run_schedule_steps [OF run this] have steps: "sys_steps ?S write_choice_ok ?c tr st" .
  have "frame_sizes_ok 2 4" "unat (3 :: usize) < 4611686018427387903" "1 < (2 :: nat)"
    by (simp_all add: frame_sizes_ok_def)
  from write_vec_concurrent [OF this(1,2) write_queue_new steps this(3), THEN conjunct2, THEN mp, OF step]
  obtain h payload tl later where f: "BytesSlice_frame [0, 0, 7, 8, 0, 0, 0, 0] = h @ payload @ tl"
    "length h = 2" "length tl = 4"
    "produced written (prep_inserted written) tr = consumed (\<lambda>x. x) (bytes_view 2 4) tr @ payload @ later"
    by auto
  then have "payload = [7, 8]"
    by (auto simp: BytesSlice_frame_def length_Suc_conv numeral_eq_Suc Cons_eq_append_conv)
  with f(4) none steps last show ?thesis
    by (intro exI [of _ tr] exI [of _ st] exI [of _ later]) simp
qed



end
