(* ===== verification/Vectored_Buffers.thy ===== *)
theory Vectored_Buffers
  imports Write_Buffers
begin

text \<open>
  The vectored buffers of \<open>src/src/write_vectored.rs\<close>, \<open>src/src/write_vectored/vec.rs\<close> and
  \<open>src/src/write_vectored/array.rs\<close>: buffers of values with the bytes they reference. An
  \<open>IoSlice\<close> is the bytes it references; that they stay in place while the value sits in the buffer
  is what the code assumes of the type. The value's \<open>AsRef<[u8]>\<close> is a parameter \<open>as_ref\<close> of
  the buffers, and it is the image through which the contracts of \<open>Buffer_Traits\<close> see an inserted
  value: a slice shows the bytes of the values.

  The contracts say nothing of \<open>total_size\<close>, which the lemmas on the buffer operations follow
  separately: after a \<open>clear\<close> it is not what the buffer holds.
\<close>

section \<open>\<open>VectoredSlice\<close> and \<open>VectoredFrame\<close>\<close>

type_synonym io_slice = bytes

definition EMPTY_SLICE :: io_slice where
  "EMPTY_SLICE = []"

record vectored_slice =
  vs_slices :: "io_slice list"
  vs_total_size :: usize

definition VectoredSlice_new :: "io_slice list \<Rightarrow> usize \<Rightarrow> vectored_slice" where
  "VectoredSlice_new slices total_size = \<lparr>vs_slices = slices, vs_total_size = total_size\<rparr>"

definition VectoredSlice_deref :: "vectored_slice \<Rightarrow> io_slice list exec" where
  "VectoredSlice_deref s =
     and_then (sub_usize (bytes_len (vs_slices s)) 1) (\<lambda>stop. cells_range (vs_slices s) 1 stop)"

text \<open>A mutable borrow of the io-slices is used by a function \<open>f\<close> that maps them to those that it leaves there.\<close>

definition VectoredSlice_deref_mut ::
    "(io_slice list \<Rightarrow> io_slice list exec) \<Rightarrow> vectored_slice \<Rightarrow> vectored_slice exec" where
  "VectoredSlice_deref_mut f s =
     and_then (sub_usize (bytes_len (vs_slices s)) 1) (\<lambda>stop.
     and_then (put_range (vs_slices s) 1 stop f) (\<lambda>xs. Inr (s\<lparr>vs_slices := xs\<rparr>)))"

definition VectoredSlice_total_size :: "vectored_slice \<Rightarrow> usize" where
  "VectoredSlice_total_size s = vs_total_size s"

datatype bound = Included usize | Excluded usize | Unbounded

text \<open>
  A frame borrows a window of the slice it was made from: it is the window's range and the io-slices that
  were replaced by the header and the trailer. \<open>frame\<close> therefore returns it with the slice after the
  replacement, and \<open>drop\<close> takes that slice and returns it restored.
\<close>

record vectored_frame =
  vf_range :: range
  vf_header :: "io_slice option"
  vf_trailer :: "io_slice option"

definition frame_start :: "bound \<Rightarrow> usize exec" where
  "frame_start b =
     (case b of Included n \<Rightarrow> Inr n | Excluded n \<Rightarrow> add_usize n 1 | Unbounded \<Rightarrow> Inr 0)"

definition frame_end :: "bound \<Rightarrow> usize \<Rightarrow> usize exec" where
  "frame_end b len =
     (case b of Included n \<Rightarrow> add_usize n 2 | Excluded n \<Rightarrow> add_usize n 1 | Unbounded \<Rightarrow> Inr len)"

text \<open>\<open>mem::replace\<close> of an element.\<close>

definition replace_at :: "'a list \<Rightarrow> usize \<Rightarrow> 'a \<Rightarrow> ('a \<times> 'a list) exec" where
  "replace_at xs i x = and_then (cells_index xs i) (\<lambda>old. Inr (old, xs[unat i := x]))"

definition VectoredSlice_frame ::
    "vectored_slice \<Rightarrow> bound \<times> bound \<Rightarrow> bytes option \<Rightarrow> bytes option \<Rightarrow>
     (vectored_frame \<times> vectored_slice) exec" where
  "VectoredSlice_frame s r header trailer =
     and_then (frame_start (fst r)) (\<lambda>start.
     and_then (frame_end (snd r) (bytes_len (vs_slices s))) (\<lambda>stop.
     and_then
       (case header of
          Some h \<Rightarrow> and_then (replace_at (vs_slices s) start h) (\<lambda>(old, xs). Inr (start, Some old, xs))
        | None \<Rightarrow> and_then (add_usize start 1) (\<lambda>start'. Inr (start', None, vs_slices s)))
       (\<lambda>(start, old_header, xs).
     and_then
       (case trailer of
          Some t \<Rightarrow>
            and_then (sub_usize stop 1) (\<lambda>k.
            and_then (replace_at xs k t) (\<lambda>(old, ys). Inr (stop, Some old, ys)))
        | None \<Rightarrow> and_then (sub_usize stop 1) (\<lambda>stop'. Inr (stop', None, xs)))
       (\<lambda>(stop, old_trailer, ys).
     and_then (cells_range ys start stop) (\<lambda>_.
     Inr (\<lparr>vf_range = (start, stop), vf_header = old_header, vf_trailer = old_trailer\<rparr>,
          s\<lparr>vs_slices := ys\<rparr>))))))"

definition VectoredFrame_deref :: "vectored_slice \<Rightarrow> vectored_frame \<Rightarrow> io_slice list exec" where
  "VectoredFrame_deref s f = cells_range (vs_slices s) (fst (vf_range f)) (snd (vf_range f))"

definition VectoredFrame_deref_mut ::
    "(io_slice list \<Rightarrow> io_slice list exec) \<Rightarrow> vectored_slice \<Rightarrow> vectored_frame \<Rightarrow> vectored_slice exec" where
  "VectoredFrame_deref_mut g s f =
     and_then (put_range (vs_slices s) (fst (vf_range f)) (snd (vf_range f)) g) (\<lambda>xs. Inr (s\<lparr>vs_slices := xs\<rparr>))"

definition VectoredFrame_drop :: "vectored_slice \<Rightarrow> vectored_frame \<Rightarrow> vectored_slice exec" where
  "VectoredFrame_drop s f =
     and_then (VectoredFrame_deref s f) (\<lambda>w.
     and_then
       (case vf_header f of
          Some h \<Rightarrow> and_then (replace_at w 0 h) (\<lambda>(_, w'). Inr w') | None \<Rightarrow> Inr w) (\<lambda>w'.
     and_then
       (case vf_trailer f of
          Some t \<Rightarrow>
            and_then (sub_usize (bytes_len w') 1) (\<lambda>k. and_then (replace_at w' k t) (\<lambda>(_, w''). Inr w''))
        | None \<Rightarrow> Inr w') (\<lambda>w''.
     Inr (s\<lparr>vs_slices := take (unat (fst (vf_range f))) (vs_slices s) @ w'' @
        drop (unat (snd (vf_range f))) (vs_slices s)\<rparr>))))"

section \<open>The buffers\<close>

text \<open>
  \<open>as_ref\<close> is the value's \<open>AsRef<[u8]>\<close>; the io-slice stored for a value is the bytes it gave at
  the insertion. The two buffers differ in the type of \<open>slices\<close>.
\<close>

record ('a, 's) vectored =
  vb_owned :: "'a cells"
  vb_slices :: 's
  vb_total_size :: usize

type_synonym 'a vectored_vec = "('a, io_slice list) vectored"
type_synonym 'a vectored_array = "('a, io_slice framed_array) vectored"

subsection \<open>\<open>WriteVectoredVecBuffer\<close>\<close>

definition VectoredVec_default :: "'a vectored_vec" where
  "VectoredVec_default = \<lparr>vb_owned = [], vb_slices = [], vb_total_size = 0\<rparr>"

definition VectoredVec_capacity :: "'a vectored_vec \<Rightarrow> usize" where
  "VectoredVec_capacity b = of_nat (length (vb_owned b))"

definition VectoredVec_slice :: "'a vectored_vec \<Rightarrow> range \<Rightarrow> vectored_slice exec" where
  "VectoredVec_slice b r =
     and_then (add_usize (snd r) 2) (\<lambda>stop.
     and_then (cells_range (vb_slices b) (fst r) stop) (\<lambda>xs.
     Inr (VectoredSlice_new xs (vb_total_size b))))"

definition VectoredVec_insert :: "('a \<Rightarrow> bytes) \<Rightarrow> 'a vectored_vec \<Rightarrow> usize \<Rightarrow> 'a \<Rightarrow> 'a vectored_vec exec" where
  "VectoredVec_insert as_ref b index v =
     (let slice = as_ref v in
      and_then (add_usize index 1) (\<lambda>k.
      and_then (replace_at (vb_slices b) k slice) (\<lambda>(_, slices).
      and_then (replace_at (vb_owned b) index (Some v)) (\<lambda>(_, owned).
      Inr \<lparr>vb_owned = owned, vb_slices = slices, vb_total_size = vb_total_size b + bytes_len slice\<rparr>))))"

definition VectoredVec_remove :: "('a \<Rightarrow> bytes) \<Rightarrow> 'a vectored_vec \<Rightarrow> usize \<Rightarrow> ('a \<times> 'a vectored_vec) exec" where
  "VectoredVec_remove as_ref b index =
     and_then (replace_at (vb_owned b) index None) (\<lambda>(cell, owned).
     and_then (assume_init cell) (\<lambda>v.
     Inr (v, b\<lparr>vb_owned := owned, vb_total_size := vb_total_size b - bytes_len (as_ref v)\<rparr>)))"

definition VectoredVec_clear :: "('a \<Rightarrow> bytes) \<Rightarrow> 'a vectored_vec \<Rightarrow> range \<Rightarrow> 'a vectored_vec exec" where
  "VectoredVec_clear as_ref b r = clear_range (VectoredVec_remove as_ref) (b\<lparr>vb_total_size := 0\<rparr>) r"

definition VectoredVec_resize :: "'a vectored_vec \<Rightarrow> usize \<Rightarrow> 'a vectored_vec exec" where
  "VectoredVec_resize b c =
     and_then (add_usize c 2) (\<lambda>n.
     Inr (b\<lparr>vb_owned := map (\<lambda>_. None) [0..<unat c], vb_slices := map (\<lambda>_. EMPTY_SLICE) [0..<unat n]\<rparr>))"

definition WriteVectoredVecBuffer :: "('a \<Rightarrow> bytes) \<Rightarrow> ('a vectored_vec, vectored_slice) buffer_trait" where
  "WriteVectoredVecBuffer as_ref = \<lparr>buf_default = VectoredVec_default, buf_capacity = VectoredVec_capacity,
     buf_slice = VectoredVec_slice, buf_clear = VectoredVec_clear as_ref\<rparr>"

subsection \<open>\<open>WriteVectoredArrayBuffer\<close>\<close>

definition VectoredArray_default :: "usize \<Rightarrow> 'a vectored_array" where
  "VectoredArray_default n = \<lparr>vb_owned = init_array None n, vb_slices = AHT_new 1 n 1 EMPTY_SLICE,
     vb_total_size = 0\<rparr>"

definition VectoredArray_capacity :: "usize \<Rightarrow> 'a vectored_array \<Rightarrow> usize" where
  "VectoredArray_capacity n b = n"

definition VectoredArray_slice :: "'a vectored_array \<Rightarrow> range \<Rightarrow> vectored_slice exec" where
  "VectoredArray_slice b r =
     and_then (add_usize (snd r) 2) (\<lambda>stop.
     and_then (cells_range (AHT_deref (vb_slices b)) (fst r) stop) (\<lambda>xs.
     Inr (VectoredSlice_new xs (vb_total_size b))))"

definition VectoredArray_insert ::
    "('a \<Rightarrow> bytes) \<Rightarrow> 'a vectored_array \<Rightarrow> usize \<Rightarrow> 'a \<Rightarrow> 'a vectored_array exec" where
  "VectoredArray_insert as_ref b index v =
     (let slice = as_ref v in
      and_then (add_usize index 1) (\<lambda>k.
      and_then (replace_at (AHT_deref (vb_slices b)) k slice) (\<lambda>(_, slices).
      and_then (replace_at (vb_owned b) index (Some v)) (\<lambda>(_, owned).
      Inr \<lparr>vb_owned = owned, vb_slices = AHT_deref_mut (vb_slices b) slices,
           vb_total_size = vb_total_size b + bytes_len slice\<rparr>))))"

definition VectoredArray_remove ::
    "('a \<Rightarrow> bytes) \<Rightarrow> 'a vectored_array \<Rightarrow> usize \<Rightarrow> ('a \<times> 'a vectored_array) exec" where
  "VectoredArray_remove as_ref b index =
     and_then (replace_at (vb_owned b) index None) (\<lambda>(cell, owned).
     and_then (assume_init cell) (\<lambda>v.
     Inr (v, b\<lparr>vb_owned := owned, vb_total_size := vb_total_size b - bytes_len (as_ref v)\<rparr>)))"

definition VectoredArray_clear :: "('a \<Rightarrow> bytes) \<Rightarrow> 'a vectored_array \<Rightarrow> range \<Rightarrow> 'a vectored_array exec" where
  "VectoredArray_clear as_ref b r = clear_range (VectoredArray_remove as_ref) (b\<lparr>vb_total_size := 0\<rparr>) r"

definition WriteVectoredArrayBuffer ::
    "('a \<Rightarrow> bytes) \<Rightarrow> usize \<Rightarrow> ('a vectored_array, vectored_slice) buffer_trait" where
  "WriteVectoredArrayBuffer as_ref n = \<lparr>buf_default = VectoredArray_default n,
     buf_capacity = VectoredArray_capacity n, buf_slice = VectoredArray_slice,
     buf_clear = VectoredArray_clear as_ref\<rparr>"

section \<open>What the buffers hold\<close>

definition vectored_view :: "vectored_slice \<Rightarrow> io_slice list" where
  "vectored_view s =
     (if length (vs_slices s) < 18446744073709551616
      then case VectoredSlice_deref s of Inr xs \<Rightarrow> xs | Inl _ \<Rightarrow> [] else [])"

definition vectored_rep :: "('a \<Rightarrow> bytes) \<Rightarrow> 'a vectored_vec \<Rightarrow> (nat \<rightharpoonup> 'a) \<Rightarrow> bool" where
  "vectored_rep as_ref b m \<longleftrightarrow>
     length (vb_owned b) + 2 < 18446744073709551616 \<and>
     (vb_owned b \<noteq> [] \<longrightarrow> length (vb_slices b) = length (vb_owned b) + 2) \<and>
     (\<forall>k x. m k = Some x \<longrightarrow> k < length (vb_owned b) \<and> vb_owned b ! k = Some x \<and>
        vb_slices b ! Suc k = as_ref x)"

lemma VectoredSlice_deref_ok:
  assumes "2 \<le> length (vs_slices s)" and "length (vs_slices s) < 18446744073709551616"
  shows "VectoredSlice_deref s = Inr (take (length (vs_slices s) - 2) (tl (vs_slices s)))"
proof -
  have bl: "unat (bytes_len (vs_slices s)) = length (vs_slices s)"
    using assms(2) by (simp add: bytes_len_def usize_simps)
  then have "1 \<le> bytes_len (vs_slices s)" "unat (bytes_len (vs_slices s) - 1) = length (vs_slices s) - 1"
    using assms(1) by (simp_all add: word_le_nat_alt unat_sub)
  then show ?thesis
    using assms(1) by (simp add: VectoredSlice_deref_def cells_range_ok_le drop_Suc numeral_2_eq_2)
qed

lemma vectored_slice_ok:
  assumes "vectored_rep as_ref b m" and "lo \<le> hi" and "hi \<noteq> 0" and "unat hi \<le> length (vb_owned b)"
    and "{unat lo..<unat hi} \<subseteq> dom m"
  shows "\<exists>s. VectoredVec_slice b (lo, hi) = Inr s \<and>
    vectored_view s = map (\<lambda>k. as_ref (the (m k))) [unat lo..<unat hi] \<and>
    vs_total_size s = vb_total_size b \<and> length (vs_slices s) = unat hi - unat lo + 2"
proof -
  have lohi: "unat lo \<le> unat hi" and small: "unat hi + 2 < 18446744073709551616"
    and ne: "vb_owned b \<noteq> []" and len: "length (vb_slices b) = length (vb_owned b) + 2"
    using assms(1-4) by (auto simp: word_le_nat_alt vectored_rep_def unat_eq_zero)
  have add: "add_usize hi 2 = Inr (hi + 2)" "unat (hi + 2) = unat hi + 2"
    using small by (simp_all add: add_usize_ok unat_add_usize)
  define xs where "xs = take (unat hi + 2 - unat lo) (drop (unat lo) (vb_slices b))"
  have xs: "length xs = unat hi - unat lo + 2"
    using assms(4) len lohi by (simp add: xs_def)
  have run: "VectoredVec_slice b (lo, hi) = Inr (VectoredSlice_new xs (vb_total_size b))"
    using add assms(4) len lohi by (simp add: VectoredVec_slice_def cells_range_ok_le xs_def)
  have "take (length xs - 2) (tl xs) = map (\<lambda>k. as_ref (the (m k))) [unat lo..<unat hi]"
  proof (rule nth_equalityI)
    fix j assume "j < length (take (length xs - 2) (tl xs))"
    then have j: "j < unat hi - unat lo"
      using xs by simp
    then have "unat lo + j \<in> dom m"
      by (intro subsetD [OF assms(5)]) simp
    then have "vb_slices b ! Suc (unat lo + j) = as_ref (the (m (unat lo + j)))"
      using assms(1) by (auto simp: vectored_rep_def)
    then show "take (length xs - 2) (tl xs) ! j = map (\<lambda>k. as_ref (the (m k))) [unat lo..<unat hi] ! j"
      using j xs lohi assms(4) len by (simp add: nth_tl) (simp add: xs_def)
  qed (use xs in simp)
  then show ?thesis
    using run xs small by (simp add: vectored_view_def VectoredSlice_new_def VectoredSlice_deref_ok)
qed

lemma vectored_rep_mono: "vectored_rep as_ref b m \<Longrightarrow> m' \<subseteq>\<^sub>m m \<Longrightarrow> vectored_rep as_ref b m'"
  by (force simp: vectored_rep_def map_le_def dom_def)

lemma vectored_rep_total [simp]: "vectored_rep as_ref (b\<lparr>vb_total_size := n\<rparr>) m = vectored_rep as_ref b m"
  by (simp add: vectored_rep_def)

lemma vectored_capacity:
  assumes "vectored_rep as_ref b m"
  shows "unat (VectoredVec_capacity b) = length (vb_owned b)"
  using assms by (simp add: VectoredVec_capacity_def vectored_rep_def usize_simps)

lemma vectored_insert_ok:
  assumes "vectored_rep as_ref b m" and "unat i < length (vb_owned b)"
  shows "\<exists>b'. VectoredVec_insert as_ref b i x = Inr b' \<and> vectored_rep as_ref b' (m(unat i \<mapsto> x)) \<and>
    length (vb_owned b') = length (vb_owned b) \<and>
    vb_total_size b' = vb_total_size b + bytes_len (as_ref x)"
proof -
  have ne: "vb_owned b \<noteq> []"
    using assms(2) by auto
  with assms have len: "length (vb_slices b) = length (vb_owned b) + 2"
    and add: "add_usize i 1 = Inr (i + 1)" "unat (i + 1) = Suc (unat i)"
    by (auto simp: vectored_rep_def add_usize_ok unat_add_usize)
  with assms show ?thesis
    by (auto simp: VectoredVec_insert_def Let_def replace_at_def cells_index_def vectored_rep_def nth_list_update)
qed

lemma vectored_remove_ok:
  assumes "vectored_rep as_ref b m" and "m (unat i) = Some x"
  shows "\<exists>b'. VectoredVec_remove as_ref b i = Inr (x, b') \<and> vectored_rep as_ref b' (m(unat i := None)) \<and>
    length (vb_owned b') = length (vb_owned b) \<and>
    vb_total_size b' = vb_total_size b - bytes_len (as_ref x)"
  using assms
  by (auto simp: VectoredVec_remove_def replace_at_def cells_index_def assume_init_def vectored_rep_def
      nth_list_update)

text \<open>The bytes of the inserted values, counted as the code counts them.\<close>

definition vectored_bytes :: "('a \<Rightarrow> bytes) \<Rightarrow> (nat \<rightharpoonup> 'a) \<Rightarrow> usize" where
  "vectored_bytes as_ref m = (\<Sum>k \<in> dom m. bytes_len (as_ref (the (m k))))"

lemma vectored_bytes_remove:
  assumes "finite (dom m)" and "m k = Some x"
  shows "vectored_bytes as_ref (m(k := None)) = vectored_bytes as_ref m - bytes_len (as_ref x)"
proof -
  have "(\<Sum>j \<in> dom m - {k}. bytes_len (as_ref (the ((m(k := None)) j)))) =
      (\<Sum>j \<in> dom m - {k}. bytes_len (as_ref (the (m j))))"
    by (intro sum.cong) auto
  moreover have "k \<in> dom m"
    using assms(2) by auto
  ultimately show ?thesis
    using assms by (simp add: vectored_bytes_def sum.remove [OF assms(1), of k])
qed

lemma vectored_rep_finite: "vectored_rep as_ref b m \<Longrightarrow> finite (dom m)"
  by (rule finite_subset [of _ "{..<length (vb_owned b)}"]) (auto simp: vectored_rep_def)

lemma vectored_clear_ok:
  assumes "vectored_rep as_ref b m" and "lo \<le> hi" and "{unat lo..<unat hi} \<subseteq> dom m"
  shows "\<exists>b'. VectoredVec_clear as_ref b (lo, hi) = Inr b' \<and>
    vectored_rep as_ref b' (m |` (- {unat lo..<unat hi})) \<and> length (vb_owned b') = length (vb_owned b) \<and>
    vb_total_size b' = vectored_bytes as_ref (m |` (- {unat lo..<unat hi})) - vectored_bytes as_ref m"
proof -
  let ?R = "\<lambda>b' m'. vectored_rep as_ref b' m' \<and> length (vb_owned b') = length (vb_owned b) \<and>
    vb_total_size b' = vectored_bytes as_ref m' - vectored_bytes as_ref m"
  have lohi: "unat lo + (unat hi - unat lo) = unat hi"
    using assms(2) by (simp add: word_le_nat_alt)
  have step: "\<exists>b''. VectoredVec_remove as_ref b' i = Inr (x, b'') \<and> ?R b'' (m'(unat i := None))"
    if "?R b' m'" "m' (unat i) = Some x" for b' m' x and i :: usize
    using that vectored_remove_ok [of as_ref b' m' i x] vectored_bytes_remove [of m' "unat i" x as_ref]
      vectored_rep_finite [of as_ref b' m'] by auto
  have "?R (b\<lparr>vb_total_size := 0\<rparr>) m"
    using assms(1) by simp
  from clear_loop_ok [where R = ?R and remove = "VectoredVec_remove as_ref", OF step this, of lo
      "unat hi - unat lo"] assms(3) lohi unat_usize_less [of hi]
  show ?thesis
    by (simp add: VectoredVec_clear_def clear_range_def)
qed

section \<open>The contracts hold\<close>

lemma WriteVectoredVec_contract:
  "buffer_contract (WriteVectoredVecBuffer as_ref) (vectored_rep as_ref) as_ref vectored_view"
proof
  show "vectored_rep as_ref (buf_default (WriteVectoredVecBuffer as_ref)) Map.empty"
    by (simp add: WriteVectoredVecBuffer_def VectoredVec_default_def vectored_rep_def)
next
  fix b m assume "vectored_rep as_ref b m"
  then show "dom m \<subseteq> {..<unat (buf_capacity (WriteVectoredVecBuffer as_ref) b)}"
    using vectored_capacity [of as_ref b m] by (auto simp: WriteVectoredVecBuffer_def vectored_rep_def)
next
  fix b m and lo hi :: usize
  assume a: "vectored_rep as_ref b m" "lo < hi" "hi \<le> buf_capacity (WriteVectoredVecBuffer as_ref) b"
    "{unat lo..<unat hi} \<subseteq> dom m"
  then have "hi \<noteq> 0" "unat hi \<le> length (vb_owned b)"
    using vectored_capacity [OF a(1)]
    by (auto simp: WriteVectoredVecBuffer_def word_le_nat_alt word_less_nat_alt)
  with vectored_slice_ok [OF a(1) less_imp_le [OF a(2)] this a(4)]
  show "\<exists>s. buf_slice (WriteVectoredVecBuffer as_ref) b (lo, hi) = Inr s \<and>
      vectored_view s = map (\<lambda>k. as_ref (the (m k))) [unat lo..<unat hi]"
    by (auto simp: WriteVectoredVecBuffer_def)
next
  fix b m and lo hi :: usize
  assume "vectored_rep as_ref b m" "lo \<le> hi" "{unat lo..<unat hi} \<subseteq> dom m"
  from vectored_clear_ok [OF this]
  show "\<exists>b'. buf_clear (WriteVectoredVecBuffer as_ref) b (lo, hi) = Inr b' \<and>
      vectored_rep as_ref b' (m |` (- {unat lo..<unat hi})) \<and>
      buf_capacity (WriteVectoredVecBuffer as_ref) b' = buf_capacity (WriteVectoredVecBuffer as_ref) b"
    by (auto simp: WriteVectoredVecBuffer_def VectoredVec_capacity_def)
qed

interpretation vectored_vec: cell_contract "WriteVectoredVecBuffer as_ref" "vectored_rep as_ref" as_ref
  vectored_view "VectoredVec_insert as_ref"
  for as_ref
proof (intro cell_contract.intro WriteVectoredVec_contract cell_contract_axioms.intro)
  fix b m x and i :: usize
  assume a: "vectored_rep as_ref b m" "i < buf_capacity (WriteVectoredVecBuffer as_ref) b"
  then have "unat i < length (vb_owned b)"
    using vectored_capacity [OF a(1)] by (simp add: WriteVectoredVecBuffer_def word_less_nat_alt)
  from vectored_insert_ok [OF a(1) this, of x]
  show "\<exists>b'. VectoredVec_insert as_ref b i x = Inr b' \<and> vectored_rep as_ref b' (m(unat i \<mapsto> x)) \<and>
      buf_capacity (WriteVectoredVecBuffer as_ref) b' = buf_capacity (WriteVectoredVecBuffer as_ref) b"
    by (auto simp: WriteVectoredVecBuffer_def VectoredVec_capacity_def)
qed

interpretation vectored_vec: drain_contract "WriteVectoredVecBuffer as_ref" "vectored_rep as_ref" as_ref
  vectored_view "VectoredVec_remove as_ref"
  for as_ref
proof
  fix b m x and i :: usize
  assume "vectored_rep as_ref b m" "m (unat i) = Some x"
  from vectored_remove_ok [OF this]
  show "\<exists>b'. VectoredVec_remove as_ref b i = Inr (x, b') \<and> vectored_rep as_ref b' (m(unat i := None)) \<and>
      buf_capacity (WriteVectoredVecBuffer as_ref) b' = buf_capacity (WriteVectoredVecBuffer as_ref) b"
    by (auto simp: WriteVectoredVecBuffer_def VectoredVec_capacity_def)
next
  fix b m and hi :: usize
  assume a: "vectored_rep as_ref b m" "hi \<noteq> 0" "hi \<le> buf_capacity (WriteVectoredVecBuffer as_ref) b"
  then have "unat hi \<le> length (vb_owned b)"
    using vectored_capacity [OF a(1)] by (simp add: WriteVectoredVecBuffer_def word_le_nat_alt)
  with vectored_slice_ok [OF a(1) _ a(2) this, of hi]
  show "\<exists>s. buf_slice (WriteVectoredVecBuffer as_ref) b (hi, hi) = Inr s \<and> vectored_view s = []"
    by (auto simp: WriteVectoredVecBuffer_def)
qed

interpretation vectored_vec: resize_contract "WriteVectoredVecBuffer as_ref" "vectored_rep as_ref" as_ref
  vectored_view VectoredVec_resize
  for as_ref
proof
  fix c :: usize and b :: "'a vectored_vec"
  assume "unat c < 4611686018427387904"
  then have "add_usize c 2 = Inr (c + 2)" "unat (c + 2) = unat c + 2" "unat c + 2 < 18446744073709551616"
    by (simp_all add: add_usize_ok unat_add_usize)
  then show "\<exists>b'. VectoredVec_resize b c = Inr b' \<and> vectored_rep as_ref b' Map.empty \<and>
      buf_capacity (WriteVectoredVecBuffer as_ref) b' = c"
    by (simp add: VectoredVec_resize_def vectored_rep_def WriteVectoredVecBuffer_def VectoredVec_capacity_def)
qed

interpretation vectored_queue: resizable_queue "WriteVectoredVecBuffer as_ref" "vectored_rep as_ref" as_ref
  vectored_view "array_insert (VectoredVec_insert as_ref)" "\<lambda>xs. length xs < 18446744073709551616"
  "\<lambda>xs. xs" VectoredVec_resize
  for as_ref
  ..

subsection \<open>\<open>WriteVectoredArrayBuffer\<close>\<close>

text \<open>
  The array buffer does what the vector buffer does on its flattened slices, so its contracts follow from
  those above.
\<close>

definition flat :: "'a vectored_array \<Rightarrow> 'a vectored_vec" where
  "flat b = \<lparr>vb_owned = vb_owned b, vb_slices = AHT_deref (vb_slices b), vb_total_size = vb_total_size b\<rparr>"

definition vectored_array_rep :: "('a \<Rightarrow> bytes) \<Rightarrow> usize \<Rightarrow> 'a vectored_array \<Rightarrow> (nat \<rightharpoonup> 'a) \<Rightarrow> bool" where
  "vectored_array_rep as_ref n b m \<longleftrightarrow> length (vb_owned b) = unat n \<and> vectored_rep as_ref (flat b) m"

lemma flat_owned [simp]: "vb_owned (flat b) = vb_owned b"
  by (simp add: flat_def)

lemma flat_total: "flat (b\<lparr>vb_total_size := n\<rparr>) = (flat b)\<lparr>vb_total_size := n\<rparr>"
  by (simp add: flat_def)

lemma flat_slice: "VectoredArray_slice b r = VectoredVec_slice (flat b) r"
  by (simp add: VectoredArray_slice_def VectoredVec_slice_def flat_def)

lemma flat_insert:
  "map_sum (\<lambda>f. f) flat (VectoredArray_insert as_ref b i x) = VectoredVec_insert as_ref (flat b) i x"
  by (auto simp: VectoredArray_insert_def VectoredVec_insert_def flat_def Let_def and_then_def AHT_put_get
      split: sum.split)

lemma flat_remove:
  "map_sum (\<lambda>f. f) (map_prod id flat) (VectoredArray_remove as_ref b i) = VectoredVec_remove as_ref (flat b) i"
  by (auto simp: VectoredArray_remove_def VectoredVec_remove_def flat_def and_then_def split: sum.split)

lemma flat_clear_loop:
  "map_sum (\<lambda>f. f) flat (clear_loop (VectoredArray_remove as_ref) k i b) =
   clear_loop (VectoredVec_remove as_ref) k i (flat b)"
proof (induction k arbitrary: i b)
  case 0
  then show ?case by simp
next
  case (Suc k)
  then show ?case
    using flat_remove [of as_ref b i, symmetric]
    by (cases "VectoredArray_remove as_ref b i") auto
qed

lemma flat_clear: "map_sum (\<lambda>f. f) flat (VectoredArray_clear as_ref b r) = VectoredVec_clear as_ref (flat b) r"
  by (simp add: VectoredArray_clear_def VectoredVec_clear_def clear_range_def flat_clear_loop flat_total)

lemma map_sum_eq_Inr: "map_sum (\<lambda>f. f) g r = Inr y \<longleftrightarrow> (\<exists>x. r = Inr x \<and> g x = y)"
  by (cases r) auto

lemma WriteVectoredArray_contract:
  assumes "unat n + 2 < 18446744073709551616"
  shows "cell_contract (WriteVectoredArrayBuffer as_ref n) (vectored_array_rep as_ref n) as_ref vectored_view
    (VectoredArray_insert as_ref)"
proof (intro cell_contract.intro buffer_contract.intro cell_contract_axioms.intro)
  show "vectored_array_rep as_ref n (buf_default (WriteVectoredArrayBuffer as_ref n)) Map.empty"
    using assms by (simp add: vectored_array_rep_def WriteVectoredArrayBuffer_def VectoredArray_default_def
        init_array_def flat_def vectored_rep_def AHT_new_def AHT_deref_def)
next
  fix b m assume "vectored_array_rep as_ref n b m"
  then show "dom m \<subseteq> {..<unat (buf_capacity (WriteVectoredArrayBuffer as_ref n) b)}"
    by (auto simp: vectored_array_rep_def WriteVectoredArrayBuffer_def VectoredArray_capacity_def
        vectored_rep_def flat_def)
next
  fix b m and lo hi :: usize
  assume a: "vectored_array_rep as_ref n b m" "lo < hi"
    "hi \<le> buf_capacity (WriteVectoredArrayBuffer as_ref n) b" "{unat lo..<unat hi} \<subseteq> dom m"
  then have "vectored_rep as_ref (flat b) m" "hi \<noteq> 0" "unat hi \<le> length (vb_owned (flat b))"
    by (auto simp: vectored_array_rep_def WriteVectoredArrayBuffer_def VectoredArray_capacity_def flat_def
        word_le_nat_alt word_less_nat_alt)
  with vectored_slice_ok [OF this(1) less_imp_le [OF a(2)] this(2,3) a(4)]
  show "\<exists>s. buf_slice (WriteVectoredArrayBuffer as_ref n) b (lo, hi) = Inr s \<and>
      vectored_view s = map (\<lambda>k. as_ref (the (m k))) [unat lo..<unat hi]"
    by (auto simp: WriteVectoredArrayBuffer_def flat_slice)
next
  fix b m and lo hi :: usize
  assume "vectored_array_rep as_ref n b m" "lo \<le> hi" "{unat lo..<unat hi} \<subseteq> dom m"
  then show "\<exists>b'. buf_clear (WriteVectoredArrayBuffer as_ref n) b (lo, hi) = Inr b' \<and>
      vectored_array_rep as_ref n b' (m |` (- {unat lo..<unat hi})) \<and>
      buf_capacity (WriteVectoredArrayBuffer as_ref n) b' = buf_capacity (WriteVectoredArrayBuffer as_ref n) b"
    using vectored_clear_ok [of as_ref "flat b" m lo hi]
    by (auto simp: vectored_array_rep_def WriteVectoredArrayBuffer_def VectoredArray_capacity_def
        map_sum_eq_Inr simp flip: flat_clear)
next
  fix b m x and i :: usize
  assume "vectored_array_rep as_ref n b m" "i < buf_capacity (WriteVectoredArrayBuffer as_ref n) b"
  then show "\<exists>b'. VectoredArray_insert as_ref b i x = Inr b' \<and>
      vectored_array_rep as_ref n b' (m(unat i \<mapsto> x)) \<and>
      buf_capacity (WriteVectoredArrayBuffer as_ref n) b' = buf_capacity (WriteVectoredArrayBuffer as_ref n) b"
    using vectored_insert_ok [of as_ref "flat b" m i x]
    by (auto simp: vectored_array_rep_def WriteVectoredArrayBuffer_def VectoredArray_capacity_def
        word_less_nat_alt map_sum_eq_Inr simp flip: flat_insert)
qed

lemma WriteVectoredArray_drain:
  assumes "unat n + 2 < 18446744073709551616"
  shows "drain_contract (WriteVectoredArrayBuffer as_ref n) (vectored_array_rep as_ref n) as_ref vectored_view
    (VectoredArray_remove as_ref)"
proof (intro drain_contract.intro drain_contract_axioms.intro
    cell_contract.axioms(1) [OF WriteVectoredArray_contract [OF assms]])
  fix b m x and i :: usize
  assume "vectored_array_rep as_ref n b m" "m (unat i) = Some x"
  then show "\<exists>b'. VectoredArray_remove as_ref b i = Inr (x, b') \<and>
      vectored_array_rep as_ref n b' (m(unat i := None)) \<and>
      buf_capacity (WriteVectoredArrayBuffer as_ref n) b' = buf_capacity (WriteVectoredArrayBuffer as_ref n) b"
    using vectored_remove_ok [of as_ref "flat b" m i x]
    by (auto simp: vectored_array_rep_def WriteVectoredArrayBuffer_def VectoredArray_capacity_def
        map_sum_eq_Inr simp flip: flat_remove)
next
  fix b m and hi :: usize
  assume "vectored_array_rep as_ref n b m" "hi \<noteq> 0" "hi \<le> buf_capacity (WriteVectoredArrayBuffer as_ref n) b"
  then show "\<exists>s. buf_slice (WriteVectoredArrayBuffer as_ref n) b (hi, hi) = Inr s \<and> vectored_view s = []"
    using vectored_slice_ok [of as_ref "flat b" m hi hi]
    by (auto simp: WriteVectoredArrayBuffer_def VectoredArray_capacity_def flat_slice vectored_array_rep_def
        word_le_nat_alt)
qed

interpretation vectored_array: cell_contract "WriteVectoredArrayBuffer as_ref 16" "vectored_array_rep as_ref 16"
  as_ref vectored_view "VectoredArray_insert as_ref"
  for as_ref
  by (rule WriteVectoredArray_contract) simp

interpretation vectored_array: drain_contract "WriteVectoredArrayBuffer as_ref 16" "vectored_array_rep as_ref 16"
  as_ref vectored_view "VectoredArray_remove as_ref"
  for as_ref
  by (rule WriteVectoredArray_drain) simp

end
