(* ===== verification/Vectored_Properties.thy ===== *)
theory Vectored_Properties
  imports Vectored_Buffers Write_Properties
begin

text \<open>
  The properties of the vectored buffers: frames of a vectored slice, what \<open>total_size\<close> reports, and
  that the queues over the two buffers show the bytes of the values that were enqueued, one caller after
  the other or in any interleaving, for every \<open>as_ref\<close>.
\<close>

section \<open>Frames\<close>

abbreviation frame_view :: "(vectored_frame \<times> vectored_slice) exec \<Rightarrow> io_slice list exec" where
  "frame_view r \<equiv> and_then r (\<lambda>(f, s). VectoredFrame_deref s f)"

abbreviation frame_dropped :: "(vectored_frame \<times> vectored_slice) exec \<Rightarrow> vectored_slice exec" where
  "frame_dropped r \<equiv> and_then r (\<lambda>(f, s). VectoredFrame_drop s f)"

abbreviation frame_written ::
    "io_slice list \<Rightarrow> (vectored_frame \<times> vectored_slice) exec \<Rightarrow> vectored_slice exec" where
  "frame_written ws r \<equiv> and_then r (\<lambda>(f, s).
     and_then (VectoredFrame_deref_mut (copy_from_slice ws) s f) (\<lambda>s'. VectoredFrame_drop s' f))"

text \<open>
  A frame whose window has room for both ends: \<open>pre\<close> and \<open>post\<close> are outside, \<open>x\<close> and
  \<open>y\<close> are the places of the header and the trailer.
\<close>

lemma frame_window:
  assumes xs: "vs_slices s = pre @ x # mid @ y # post" and small: "length (vs_slices s) < 18446744073709551616"
    and start: "frame_start (fst r) = Inr i" "unat i = length pre"
    and stop: "frame_end (snd r) (bytes_len (vs_slices s)) = Inr j" "unat j = length pre + length mid + 2"
  shows "frame_view (VectoredSlice_frame s r header trailer) =
      Inr ((case header of Some h \<Rightarrow> [h] | None \<Rightarrow> []) @ mid @ (case trailer of Some t \<Rightarrow> [t] | None \<Rightarrow> []))"
    and "frame_dropped (VectoredSlice_frame s r header trailer) = Inr s"
    and "length hs = (if header = None then 0 else 1) \<Longrightarrow> length ts = (if trailer = None then 0 else 1) \<Longrightarrow>
      length ws = length mid \<Longrightarrow>
      frame_written (hs @ ws @ ts) (VectoredSlice_frame s r header trailer) =
        Inr (s\<lparr>vs_slices := pre @ x # ws @ y # post\<rparr>)"
proof -
  have i: "add_usize i 1 = Inr (i + 1)" "unat (i + 1) = Suc (length pre)"
    using small by (simp_all add: add_usize_ok unat_add_usize start xs)
  have j: "1 \<le> j" "unat (j - 1) = Suc (length pre + length mid)"
    using stop(2) by (simp_all add: word_le_nat_alt unat_sub)
  have one: "1 \<le> bytes_len w" "unat (bytes_len w - 1) = length w - 1"
    if "w \<noteq> []" "length w < 18446744073709551616" for w :: "io_slice list"
  proof -
    have "unat (bytes_len w) = length w"
      using that(2) by (simp add: bytes_len_def usize_simps)
    then show "1 \<le> bytes_len w" "unat (bytes_len w - 1) = length w - 1"
      using that(1) by (auto simp: word_le_nat_alt unat_sub Suc_le_eq)
  qed
  have s: "s\<lparr>vs_slices := pre @ x # mid @ y # post\<rparr> = s"
    using xs by (cases s) simp
  note defs = VectoredSlice_frame_def VectoredFrame_deref_def VectoredFrame_drop_def replace_at_def
    cells_index_def cells_range_ok_le xs start stop [unfolded xs] i j nth_append list_update_append
  show "frame_view (VectoredSlice_frame s r header trailer) =
      Inr ((case header of Some h \<Rightarrow> [h] | None \<Rightarrow> []) @ mid @ (case trailer of Some t \<Rightarrow> [t] | None \<Rightarrow> []))"
    by (cases header; cases trailer; simp add: defs)
  show "frame_dropped (VectoredSlice_frame s r header trailer) = Inr s"
    using small s one by (cases header; cases trailer; simp add: defs)
  show "frame_written (hs @ ws @ ts) (VectoredSlice_frame s r header trailer) = Inr (s\<lparr>vs_slices := pre @ x # ws @ y # post\<rparr>)"
    if "length hs = (if header = None then 0 else 1)" "length ts = (if trailer = None then 0 else 1)" "length ws = length mid"
    using that small one
    by (cases header; cases trailer; cases hs; cases ts;
        simp add: defs VectoredFrame_deref_mut_def put_range_def copy_from_slice_def)
qed

text \<open>
  C35: \<open>deref_mut\<close> on a vectored slice replaces the io-slices that \<open>deref\<close> shows and keeps the places for a
  header and a trailer. A frame with an open end shows the header if there is one, the io-slices of the vectored slice from
  the start of the range on, and the trailer if there is one; dropping it gives back the vectored slice
  exactly as it was. After other io-slices \<open>ws\<close> were written over those of the frame, and anything over its header and
  trailer, dropping it leaves \<open>ws\<close> and puts back what the header and the trailer had replaced.
\<close>

theorem vectored_frame_open_end:
  assumes "unat n \<le> length payload" and "length payload + 2 < 18446744073709551616"
    and "s = VectoredSlice_new (a # payload @ [z]) total_size"
  shows "VectoredSlice_deref s = Inr payload \<and>
    (\<forall>ps. length ps = length payload \<longrightarrow>
      VectoredSlice_deref_mut (copy_from_slice ps) s = Inr (VectoredSlice_new (a # ps @ [z]) total_size)) \<and>
    frame_view (VectoredSlice_frame s (Included n, Unbounded) header trailer) =
      Inr ((case header of Some h \<Rightarrow> [h] | None \<Rightarrow> []) @ drop (unat n) payload @
           (case trailer of Some t \<Rightarrow> [t] | None \<Rightarrow> [])) \<and>
    frame_dropped (VectoredSlice_frame s (Included n, Unbounded) header trailer) = Inr s \<and>
    (\<forall>hs ws ts. length hs = (if header = None then 0 else 1) \<and> length ts = (if trailer = None then 0 else 1) \<and>
        length ws = length payload - unat n \<longrightarrow>
      frame_written (hs @ ws @ ts) (VectoredSlice_frame s (Included n, Unbounded) header trailer) =
        Inr (VectoredSlice_new (a # (take (unat n) payload @ ws) @ [z]) total_size))"
proof -
  let ?xs = "a # payload @ [z]" and ?k = "unat n"
  have s: "vs_slices s = ?xs" "length ?xs < 18446744073709551616"
    using assms(2,3) by (simp_all add: VectoredSlice_new_def)
  have len: "unat (bytes_len ?xs) = length payload + 2"
    using assms(2) by (simp add: bytes_len_def usize_simps)
  have "?xs = take ?k ?xs @ ?xs ! ?k # drop (Suc ?k) ?xs"
    using assms(1) by (intro id_take_nth_drop) simp
  also have "drop (Suc ?k) ?xs = drop ?k payload @ z # []"
    using assms(1) by simp
  finally have "vs_slices s = take ?k ?xs @ ?xs ! ?k # drop ?k payload @ z # []"
    using s(1) by simp
  note w = frame_window [OF this, where r = "(Included n, Unbounded)" and i = n and j = "bytes_len ?xs"]
  have "VectoredSlice_deref s = Inr payload"
    using VectoredSlice_deref_ok [of s] s by simp
  moreover have "VectoredSlice_deref_mut (copy_from_slice ps) s = Inr (VectoredSlice_new (a # ps @ [z]) total_size)"
    if "length ps = length payload" for ps
  proof -
    have "1 \<le> bytes_len ?xs" "unat (bytes_len ?xs - 1) = Suc (length payload)"
      using len by (simp_all add: word_le_nat_alt unat_sub)
    then show ?thesis
      using that assms(3) by (simp add: VectoredSlice_deref_mut_def VectoredSlice_new_def put_range_def copy_from_slice_def
          cells_range_ok_le)
  qed
  moreover have "take ?k ?xs @ ?xs ! ?k # ys = a # take ?k payload @ ys" for ys
    using take_Suc_conv_app_nth [of ?k ?xs] assms(1) by simp
  then have "s\<lparr>vs_slices := take ?k ?xs @ ?xs ! ?k # ys\<rparr> = VectoredSlice_new (a # take ?k payload @ ys) total_size" for ys
    by (simp add: assms(3) VectoredSlice_new_def)
  ultimately show ?thesis
    using w s len assms(1) by (simp add: frame_start_def frame_end_def)
qed

theorem vectored_frame_open_end_witness:
  "frame_view (VectoredSlice_frame (VectoredSlice_new [[], [2, 3], [4, 5], []] 4) (Included 0, Unbounded)
      (Some [0, 1]) (Some [6, 7])) = Inr [[0, 1], [2, 3], [4, 5], [6, 7]]"
  using vectored_frame_open_end [of 0 "[[2, 3], [4, 5]]" "VectoredSlice_new [[], [2, 3], [4, 5], []] 4" "[]" "[]"
      4 "Some [0, 1]" "Some [6, 7]"] by simp

text \<open>
  C36: A frame with a bounded end leaves out the last io-slice of its range: \<open>frame(n..m, ..)\<close> shows
  the io-slices \<open>n..m - 1\<close> between the header and the trailer, because the end is counted without the
  place of the header. The range \<open>n..\<close> up to the same end shows all of them.
\<close>

theorem vectored_frame_bounded_end:
  assumes "unat n < unat m" and "unat m \<le> length payload" and "length payload + 2 < 18446744073709551616"
    and "s = VectoredSlice_new (a # payload @ [z]) total_size"
  shows "frame_view (VectoredSlice_frame s (Included n, Excluded m) header trailer) =
      Inr ((case header of Some h \<Rightarrow> [h] | None \<Rightarrow> []) @ take (unat m - 1 - unat n) (drop (unat n) payload) @
           (case trailer of Some t \<Rightarrow> [t] | None \<Rightarrow> []))"
proof -
  let ?xs = "a # payload @ [z]" and ?k = "unat n" and ?j = "unat m"
  have s: "vs_slices s = ?xs" "length ?xs < 18446744073709551616"
    using assms(3,4) by (simp_all add: VectoredSlice_new_def)
  have add: "add_usize m 1 = Inr (m + 1)" "unat (m + 1) = ?j + 1"
    using assms(2,3) by (simp_all add: add_usize_ok unat_add_usize)
  have "?xs = take ?k ?xs @ ?xs ! ?k # drop (Suc ?k) ?xs"
    using assms(1,2) by (intro id_take_nth_drop) simp
  also have "drop (Suc ?k) ?xs = take (?j - 1 - ?k) (drop (Suc ?k) ?xs) @ drop (Suc ?k) ?xs ! (?j - 1 - ?k) #
      drop (Suc (?j - 1 - ?k)) (drop (Suc ?k) ?xs)"
    using assms(1,2) by (intro id_take_nth_drop) simp
  also have "take (?j - 1 - ?k) (drop (Suc ?k) ?xs) = take (?j - 1 - ?k) (drop ?k payload)"
    using assms(1,2) by simp
  finally have "vs_slices s = take ?k ?xs @ ?xs ! ?k # take (?j - 1 - ?k) (drop ?k payload) @
      drop (Suc ?k) ?xs ! (?j - 1 - ?k) # drop (Suc (?j - 1 - ?k)) (drop (Suc ?k) ?xs)"
    using s(1) by simp
  note w = frame_window(1) [OF this, where r = "(Included n, Excluded m)" and i = n and j = "m + 1"]
  have "length (take (?j - 1 - ?k) (drop ?k payload)) = ?j - 1 - ?k" "length (take ?k ?xs) = ?k"
    using assms(1,2) by simp_all
  with w show ?thesis
    using s add assms(1) by (simp add: frame_start_def frame_end_def)
qed

theorem vectored_frame_bounded_end_witness:
  "frame_view (VectoredSlice_frame (VectoredSlice_new [[], [2, 3], [4, 5], []] 4) (Included 0, Excluded 2)
      (Some [0, 1]) (Some [6, 7])) = Inr [[0, 1], [2, 3], [6, 7]]"
  using vectored_frame_bounded_end [of 0 2 "[[2, 3], [4, 5]]" "VectoredSlice_new [[], [2, 3], [4, 5], []] 4"
      "[]" "[]" 4 "Some [0, 1]" "Some [6, 7]"] by simp

section \<open>The total size\<close>

lemma vectored_bytes_seg: "vectored_bytes as_ref (seg lo xs) = (\<Sum>x\<leftarrow>xs. bytes_len (as_ref x))"
proof -
  have "vectored_bytes as_ref (seg lo xs) = (\<Sum>k \<in> {lo..<lo + length xs}. bytes_len (as_ref (xs ! (k - lo))))"
    unfolding vectored_bytes_def dom_seg by (intro sum.cong) (auto simp: seg_def)
  also have "\<dots> = (\<Sum>k = 0..<length xs. bytes_len (as_ref (xs ! k)))"
    using sum.shift_bounds_nat_ivl [of "\<lambda>k. bytes_len (as_ref (xs ! (k - lo)))" 0 lo "length xs"]
    by (simp add: add.commute)
  finally show ?thesis
    by (simp add: sum_list_sum_nth)
qed

text \<open>
  C37: Clearing a vectored buffer leaves its \<open>total_size\<close> at minus the number of bytes it held, modulo
  \<open>2 ^ 64\<close>: it is set to zero first and then every removed value takes its size off once more. The next
  value inserted in that buffer reports its size less those bytes.
\<close>

theorem vectored_total_after_clear:
  assumes "vectored_rep as_ref b (seg (unat lo) xs)" and "unat hi = unat lo + length xs"
    and "0 < length (vb_owned b)"
  shows "\<exists>b' b''. VectoredVec_clear as_ref b (lo, hi) = Inr b' \<and>
    vb_total_size b' = - (\<Sum>x\<leftarrow>xs. bytes_len (as_ref x)) \<and>
    VectoredVec_insert as_ref b' 0 y = Inr b'' \<and>
    vb_total_size b'' = bytes_len (as_ref y) - (\<Sum>x\<leftarrow>xs. bytes_len (as_ref x))"
proof -
  have "lo \<le> hi" "{unat lo..<unat hi} \<subseteq> dom (seg (unat lo) xs)"
    using assms(2) by (simp_all add: word_le_nat_alt)
  from vectored_clear_ok [OF assms(1) this] obtain b' where b':
    "VectoredVec_clear as_ref b (lo, hi) = Inr b'" "vectored_rep as_ref b' Map.empty"
    "length (vb_owned b') = length (vb_owned b)" "vb_total_size b' = - (\<Sum>x\<leftarrow>xs. bytes_len (as_ref x))"
    by (auto simp: assms(2) seg_restrict_compl vectored_bytes_seg) (simp add: vectored_bytes_def)
  with vectored_insert_ok [OF b'(2), of 0 y] assms(3) show ?thesis
    by auto
qed

theorem vectored_total_after_clear_witness:
  "\<exists>b' b''. VectoredVec_clear (\<lambda>x. x) \<lparr>vb_owned = [Some [1, 2]], vb_slices = [[], [1, 2], []], vb_total_size = 2\<rparr>
      (0, 1) = Inr b' \<and> vb_total_size b' = - 2 \<and>
    VectoredVec_insert (\<lambda>x. x) b' 0 [7] = Inr b'' \<and> vb_total_size b'' = - 1"
proof -
  let ?b = "\<lparr>vb_owned = [Some [1, 2]], vb_slices = [[], [1, 2], []], vb_total_size = 2\<rparr> :: bytes vectored_vec"
  have "vectored_rep (\<lambda>x. x) ?b (seg (unat (0 :: usize)) [[1, 2]])"
    by (simp add: vectored_rep_def seg_def)
  from vectored_total_after_clear [OF this, of 1 "[7]"] show ?thesis
    by (simp add: bytes_len_def)
qed

section \<open>Queues of vectored values\<close>

text \<open>
  On a new queue over \<open>WriteVectoredVecBuffer\<close>, enqueuing arrays of values that fit together in
  its capacity and dequeuing gives a vectored slice of their bytes, one io-slice for each value, in order.
\<close>

theorem vectored_vec_roundtrip:
  assumes "unat c < 4611686018427387903" and "concat xss \<noteq> []" and "length (concat xss) \<le> unat c"
    and "length sps = length xss"
  shows "\<exists>q q1 s q2. Queue_with_capacity (WriteVectoredVecBuffer as_ref) VectoredVec_resize n c = Inr q \<and>
    enqueue_all (WriteVectoredVecBuffer as_ref) N (array_insert (VectoredVec_insert as_ref)) (zip sps xss) q =
      Inr (Inr (), q1) \<and>
    Queue_try_dequeue (WriteVectoredVecBuffer as_ref) N sp q1 = Inr (Inr s, q2) \<and>
    VectoredSlice_deref (slice_slice s) = Inr (map as_ref (concat xss))"
proof -
  obtain q where q: "Queue_with_capacity (WriteVectoredVecBuffer as_ref) VectoredVec_resize n c = Inr q"
    "queue_rep (WriteVectoredVecBuffer as_ref) (vectored_rep as_ref) q (spec_new (unat c))"
    using vectored_vec.with_capacity_refines [OF assms(1), of as_ref n] by blast
  have vs: "map ((\<lambda>xs. xs) \<circ> snd) (zip sps xss) = xss"
    using assms(4) by (simp flip: map_map)
  have small: "length xs < 18446744073709551616" if "xs \<in> set xss" for xs
    using member_le_sum_list [of "length xs" "map length xss"] that assms(1,3) by (simp add: length_concat)
  then have "\<forall>v \<in> set (zip sps xss). length (snd v) < 18446744073709551616"
    by (auto dest!: set_zip_rightD)
  from vectored_vec.arr.enqueue_all_dequeue [OF q(2) this, of N sp, unfolded vs, OF assms(2,3)]
  obtain q1 s q2 where "enqueue_all (WriteVectoredVecBuffer as_ref) N (array_insert (VectoredVec_insert as_ref))
      (zip sps xss) q = Inr (Inr (), q1)"
    "Queue_try_dequeue (WriteVectoredVecBuffer as_ref) N sp q1 = Inr (Inr s, q2)"
    and v: "vectored_view (slice_slice s) = map as_ref (concat xss)"
    by blast
  moreover have "VectoredSlice_deref (slice_slice s) = Inr (map as_ref (concat xss))"
    using v assms(2) by (auto simp: vectored_view_def split: if_splits sum.splits)
  ultimately show ?thesis
    using q(1) by blast
qed

theorem vectored_vec_roundtrip_witness:
  "\<exists>q q1 s q2. Queue_with_capacity (WriteVectoredVecBuffer (\<lambda>x. x)) VectoredVec_resize () 3 = Inr q \<and>
    enqueue_all (WriteVectoredVecBuffer (\<lambda>x. x)) unit_notify (array_insert (VectoredVec_insert (\<lambda>x. x)))
      [([], [[2, 3]]), ([True], [[4], [5, 6]])] q = Inr (Inr (), q1) \<and>
    Queue_try_dequeue (WriteVectoredVecBuffer (\<lambda>x. x)) unit_notify [] q1 = Inr (Inr s, q2) \<and>
    VectoredSlice_deref (slice_slice s) = Inr [[2, 3], [4], [5, 6]]"
  using vectored_vec_roundtrip [of 3 "[[[2, 3]], [[4], [5, 6]]]" "[[], [True]]" "\<lambda>x. x" "()" unit_notify "[]"]
  by simp

definition VectoredSystem ::
    "('a \<Rightarrow> bytes) \<Rightarrow> 'n notify_trait \<Rightarrow>
     ('a vectored_vec, vectored_slice, 'n, 'a list, 'a, 'a list resize_request) sys" where
  "VectoredSystem as_ref N = ResizableSystem (WriteVectoredVecBuffer as_ref) N
     (array_insert (VectoredVec_insert as_ref)) VectoredVec_resize (Some (VectoredVec_remove as_ref))"

definition vectored_choice_ok :: "('a list, 'a list resize_request) choice \<Rightarrow> bool" where
  "vectored_choice_ok = choice_ok (\<lambda>xs. length xs < 18446744073709551616) (\<lambda>xs. xs)
     (prep_good (\<lambda>xs. length xs < 18446744073709551616) (\<lambda>xs. xs))"

interpretation vectored_conc: conc_system "WriteVectoredVecBuffer as_ref" "vectored_rep as_ref" as_ref
  vectored_view "array_insert (VectoredVec_insert as_ref)" "\<lambda>xs. length xs < 18446744073709551616" "\<lambda>xs. xs"
  "VectoredSystem as_ref N" "prep_good (\<lambda>xs. length xs < 18446744073709551616) (\<lambda>xs. xs)"
  "prep_inserted (\<lambda>xs. xs)"
  for as_ref N
  unfolding VectoredSystem_def by (rule resizable_queue.resizable_drain_conc [OF vectored_queue.resizable_queue_axioms]) unfold_locales

text \<open>
  C33: Any number of threads share a queue over \<open>WriteVectoredVecBuffer\<close> that nobody is using at first, with
  arrays of fewer than \<open>2^63\<close> values and resizes that ask for a legal capacity with room for all values that they
  insert, or insert nothing (\<open>vectored_choice_ok\<close>): in no interleaving does a step fault, and the io-slices that a dequeue hands out are the bytes of the
  oldest values that have been reserved and not consumed, in order and with no gap.
\<close>

theorem vectored_concurrent:
  assumes "queue_rep (WriteVectoredVecBuffer as_ref) (vectored_rep as_ref) q A" and "\<not> aq_held A"
    and "sys_steps (VectoredSystem as_ref N) vectored_choice_ok \<lparr>shared = q, threads = replicate n Idle\<rparr> tr st"
    and "t < n"
  shows "(vectored_choice_ok ch \<longrightarrow>
      thread_step (VectoredSystem as_ref N) (shared st) (threads st ! t) ch \<noteq> Some (Inl f)) \<and>
    (thread_step (VectoredSystem as_ref N) (shared st) (threads st ! t) (Go spurious) =
       Some (Inr (q', p, Ev_Sliced s)) \<longrightarrow>
     (\<exists>xs later. VectoredSlice_deref s = Inr xs \<and> xs \<noteq> [] \<and>
        map as_ref (aq_front A @ aq_back A @ produced (\<lambda>xs. xs) (prep_inserted (\<lambda>xs. xs)) tr) =
          consumed as_ref vectored_view tr @ xs @ later))"
proof -
  note ok = vectored_conc.interleaving_ok [OF assms(1,2) assms(3) [unfolded vectored_choice_ok_def] assms(4)]
  have "VectoredSlice_deref s = Inr (vectored_view s)" if "vectored_view s \<noteq> []"
    using that by (auto simp: vectored_view_def split: if_splits sum.splits)
  with ok show ?thesis
    unfolding vectored_choice_ok_def by metis
qed

text \<open>An interleaving for the witness: thread 1 dequeues what thread 0 has enqueued.\<close>

definition vectored_schedule :: "(nat \<times> (bytes list, bytes list resize_request) choice) list" where
  "vectored_schedule =
     [(0, Start (Req_Enqueue [[7, 8]])), (0, Go False), (0, Go False), (0, Go False), (0, Go False),
      (1, Start (Req_Dequeue None)), (1, Go False), (1, Go False), (1, Go False), (1, Go False),
      (1, Go False), (1, Go False), (1, Go False), (1, Go False), (1, Go False)]"

definition vectored_example :: "(bytes vectored_vec, unit) queue" where
  "vectored_example =
     (let b = \<lparr>vb_owned = [None, None], vb_slices = [[], [], [], []], vb_total_size = 0\<rparr> in
      \<lparr>enqueuing_capacity = 4, dequeuing_length = 1, buffers = (b, b), buffers_length = (0, 0),
       capacity = 2, notify = ()\<rparr>)"

lemma vectored_example_rep:
  "queue_rep (WriteVectoredVecBuffer (\<lambda>x. x)) (vectored_rep (\<lambda>x. x)) vectored_example (spec_new 2)"
proof -
  have "Queue_with_capacity (WriteVectoredVecBuffer (\<lambda>x. x)) VectoredVec_resize () 2 = Inr vectored_example"
    by code_simp
  with vectored_vec.with_capacity_refines [of 2 "\<lambda>x. x" "()"] show ?thesis by simp
qed

lemma vectored_run:
  "case run_schedule (VectoredSystem (\<lambda>x. x) unit_notify) vectored_schedule
      \<lparr>shared = vectored_example, threads = replicate 2 Idle\<rparr> of
    Inl _ \<Rightarrow> False
  | Inr (tr, st) \<Rightarrow>
      next_slice (VectoredSystem (\<lambda>x. x) unit_notify) st 1 = Some (VectoredSlice_new [[], [7, 8], []] 2) \<and>
      consumed (\<lambda>x. x) vectored_view tr = []"
  by code_simp

theorem vectored_concurrent_witness:
  "\<exists>tr st later. sys_steps (VectoredSystem (\<lambda>x. x) unit_notify) vectored_choice_ok
      \<lparr>shared = vectored_example, threads = replicate 2 Idle\<rparr> tr st \<and>
    next_slice (VectoredSystem (\<lambda>x. x) unit_notify) st 1 = Some (VectoredSlice_new [[], [7, 8], []] 2) \<and>
    produced (\<lambda>xs. xs) (prep_inserted (\<lambda>xs. xs)) tr = [[7, 8]] @ later"
proof -
  let ?S = "VectoredSystem (\<lambda>x. x) unit_notify"
    and ?c = "\<lparr>shared = vectored_example, threads = replicate 2 Idle\<rparr>"
  obtain tr st where run: "run_schedule ?S vectored_schedule ?c = Inr (tr, st)"
    and last: "next_slice ?S st 1 = Some (VectoredSlice_new [[], [7, 8], []] 2)"
    and none: "consumed (\<lambda>x. x) vectored_view tr = []"
    using vectored_run by (cases "run_schedule ?S vectored_schedule ?c") auto
  from next_slice_step [OF last] obtain q' p where
    step: "thread_step ?S (shared st) (threads st ! 1) (Go False) =
      Some (Inr (q', p, Ev_Sliced (VectoredSlice_new [[], [7, 8], []] 2)))"
    by blast
  have "\<forall>(t, ch) \<in> set vectored_schedule. vectored_choice_ok ch"
    by (simp add: vectored_schedule_def vectored_choice_ok_def choice_ok_def)
  from run_schedule_steps [OF run this] have steps: "sys_steps ?S vectored_choice_ok ?c tr st" .
  have "\<not> aq_held (spec_new 2 :: bytes aqueue)" "1 < (2 :: nat)"
    by (simp_all add: spec_new_def)
  from vectored_concurrent [OF vectored_example_rep this(1) steps this(2), THEN conjunct2, THEN mp, OF step]
  obtain later where "produced (\<lambda>xs. xs) (prep_inserted (\<lambda>xs. xs)) tr = [[7, 8]] @ later"
    using none VectoredSlice_deref_ok [of "VectoredSlice_new [[], [7, 8], []] 2"]
    by (auto simp: spec_new_def VectoredSlice_new_def)
  with steps last show ?thesis by blast
qed

text \<open>
  C34: Enqueuing an array of values into a queue over \<open>WriteVectoredArrayBuffer\<close>, dequeuing from it
  and draining what was dequeued implement the specification of the queue: the slice shows the bytes of the
  values, and the iterator yields the values themselves.
\<close>

theorem vectored_array_refines:
  assumes "unat c + 2 < 18446744073709551616"
    and "queue_rep (WriteVectoredArrayBuffer as_ref c) (vectored_array_rep as_ref c) q A"
    and "length v < 9223372036854775808"
  shows "(\<exists>r q'. Queue_try_enqueue (WriteVectoredArrayBuffer as_ref c) N
        (array_insert (VectoredArray_insert as_ref)) sp q v = Inr (r, q') \<and>
      queue_rep (WriteVectoredArrayBuffer as_ref c) (vectored_array_rep as_ref c) q' (snd (spec_enqueue v A)) \<and>
      enqueue_result_rep v (fst (spec_enqueue v A)) r) \<and>
    (\<exists>r q'. Queue_try_dequeue (WriteVectoredArrayBuffer as_ref c) N sp q = Inr (r, q') \<and>
      queue_rep (WriteVectoredArrayBuffer as_ref c) (vectored_array_rep as_ref c) q' (snd (spec_dequeue A)) \<and>
      dequeue_result_rep as_ref vectored_view q' (snd (spec_dequeue A)) (fst (spec_dequeue A)) r) \<and>
    (\<forall>s. slice_rep as_ref vectored_view q A s \<longrightarrow>
      (\<exists>q' it. take_items (VectoredArray_remove as_ref) k q (BufferSlice_into_iter s) =
        Inr (take k (aq_front A), q', it) \<and>
        queue_rep (WriteVectoredArrayBuffer as_ref c) (vectored_array_rep as_ref c) q'
          (A\<lparr>aq_front := drop k (aq_front A)\<rparr>)))"
proof -
  note C = WriteVectoredArray_contract [OF assms(1), of as_ref]
  note D = WriteVectoredArray_drain [OF assms(1), of as_ref]
  note I = cell_contract.array_contract [OF C]
  have "length v < 18446744073709551616"
    using assms(3) by simp
  from insert_contract.try_enqueue_refines [OF I assms(2) this assms(3), of N sp]
    buffer_contract.try_dequeue_refines [OF cell_contract.axioms(1) [OF C] assms(2), of N sp]
    drain_contract.take_items_refines [OF D assms(2) into_iter_rep, of as_ref vectored_view _ k]
  show ?thesis by blast
qed

theorem vectored_array_refines_witness:
  "\<exists>q r q'. Queue_new (WriteVectoredArrayBuffer (\<lambda>x. x) 16) () = Inr q \<and>
    Queue_try_enqueue (WriteVectoredArrayBuffer (\<lambda>x. x) 16) unit_notify
      (array_insert (VectoredArray_insert (\<lambda>x. x))) [] q [[2, 3]] = Inr (r, q') \<and>
    queue_rep (WriteVectoredArrayBuffer (\<lambda>x. x) 16) (vectored_array_rep (\<lambda>x. x) 16) q'
      (snd (spec_enqueue [[2, 3]] (spec_new 16)))"
proof -
  have "buf_capacity (WriteVectoredArrayBuffer (\<lambda>x :: bytes. x) 16)
      (buf_default (WriteVectoredArrayBuffer (\<lambda>x. x) 16)) = 16"
    by (simp add: WriteVectoredArrayBuffer_def VectoredArray_capacity_def)
  with vectored_array.new_refines [of "\<lambda>x. x" "()"] obtain q where
    q: "Queue_new (WriteVectoredArrayBuffer (\<lambda>x :: bytes. x) 16) () = Inr q"
    "queue_rep (WriteVectoredArrayBuffer (\<lambda>x. x) 16) (vectored_array_rep (\<lambda>x. x) 16) q (spec_new 16)"
    by auto
  have "unat (16 :: usize) + 2 < 18446744073709551616" "length [[2, 3 :: u8]] < 9223372036854775808"
    by simp_all
  from vectored_array_refines [OF this(1) q(2) this(2), of unit_notify "[]", THEN conjunct1] q(1)
  show ?thesis by blast
qed

end
