(* ===== verification/Atomic_Waker.thy ===== *)
theory Atomic_Waker
  imports Prelude
begin

text \<open>
  \<open>Waker\<close> and \<open>AtomicWaker\<close> (\<open>src/src/synchronized/waker.rs\<close>,
  \<open>src/src/synchronized/atomic_waker.rs\<close>). A task waker is the identity of the task it wakes and a
  thread is its number. Waking is recorded in a set of signals: \<open>Sync t\<close> is the token that
  \<open>unpark\<close> leaves for thread \<open>t\<close> (it stays until the thread parks), \<open>Async c\<close> that task
  \<open>c\<close> is to be polled again.

  \<open>register\<close> and \<open>wake\<close> are cut at their atomic actions: a program counter says what comes next, and
  \<open>AtomicWaker_register\<close> and \<open>AtomicWaker_wake\<close> do it. The assertions of the source and the
  \<open>unwrap\<close> are faults. \<open>aw_inv\<close> is what holds when any number of threads are somewhere inside
  these calls: the access to the waker cell is exclusive, and the assertions hold.
\<close>

section \<open>\<open>Waker\<close>\<close>

datatype waker = Async nat | Sync nat

type_synonym task_cx = "nat option"

definition Waker_new :: "task_cx \<Rightarrow> nat \<Rightarrow> waker" where
  "Waker_new cx t = (case cx of Some c \<Rightarrow> Async c | None \<Rightarrow> Sync t)"

definition Waker_will_wake :: "waker \<Rightarrow> task_cx \<Rightarrow> bool" where
  "Waker_will_wake w cx = (case (w, cx) of (Async a, Some c) \<Rightarrow> a = c | _ \<Rightarrow> False)"

definition Waker_wake :: "waker \<Rightarrow> waker set \<Rightarrow> waker set" where
  "Waker_wake w signals = (case w of Async c \<Rightarrow> insert (Async c) signals | Sync t \<Rightarrow> insert (Sync t) signals)"

lemma Waker_wake_eq: "Waker_wake w signals = insert w signals"
  by (simp add: Waker_wake_def split: waker.split)

lemma Waker_will_wake_new: "Waker_will_wake w cx \<Longrightarrow> w = Waker_new cx t"
  by (auto simp: Waker_will_wake_def Waker_new_def split: waker.splits option.splits)

section \<open>\<open>AtomicWaker\<close>\<close>

definition WAITING :: usize where
  "WAITING = 0"

definition REGISTERING :: usize where
  "REGISTERING = 1"

definition WAKING :: usize where
  "WAKING = 2"

record atomic_waker =
  aw_state :: usize
  aw_waker :: "waker option"

definition AtomicWaker_new :: atomic_waker where
  "AtomicWaker_new = \<lparr>aw_state = WAITING, aw_waker = None\<rparr>"

datatype register_pc =
    Reg_Begin | Reg_Store | Reg_Commit | Reg_Take | Reg_Swap waker | Reg_Wake waker | Reg_Self | Reg_Done

datatype wake_pc = Wake_Begin | Wake_Take | Wake_End "waker option" | Wake_Call waker | Wake_Done

primrec AtomicWaker_register ::
    "nat \<Rightarrow> task_cx \<Rightarrow> register_pc \<Rightarrow> atomic_waker \<Rightarrow> waker set \<Rightarrow>
     (register_pc \<times> atomic_waker \<times> waker set) exec" where
  "AtomicWaker_register t cx Reg_Begin w sg =
     (if aw_state w = WAITING then Inr (Reg_Store, w\<lparr>aw_state := REGISTERING\<rparr>, sg)
      else if aw_state w = WAKING then Inr (Reg_Self, w, sg)
      else and_then
        (guard Assertion_Failed (aw_state w = REGISTERING \<or> aw_state w = REGISTERING OR WAKING))
        (\<lambda>_. Inr (Reg_Done, w, sg)))"
| "AtomicWaker_register t cx Reg_Store w sg =
     Inr (Reg_Commit,
          case aw_waker w of
            Some old_waker \<Rightarrow>
              if Waker_will_wake old_waker cx then w else w\<lparr>aw_waker := Some (Waker_new cx t)\<rparr>
          | None \<Rightarrow> w\<lparr>aw_waker := Some (Waker_new cx t)\<rparr>,
          sg)"
| "AtomicWaker_register t cx Reg_Commit w sg =
     (if aw_state w = REGISTERING then Inr (Reg_Done, w\<lparr>aw_state := WAITING\<rparr>, sg)
      else and_then (guard Assertion_Failed (aw_state w = REGISTERING OR WAKING))
        (\<lambda>_. Inr (Reg_Take, w, sg)))"
| "AtomicWaker_register t cx Reg_Take w sg =
     (case aw_waker w of
        None \<Rightarrow> Inl Expect_Failed
      | Some x \<Rightarrow> Inr (Reg_Swap x, w\<lparr>aw_waker := None\<rparr>, sg))"
| "AtomicWaker_register t cx (Reg_Swap x) w sg = Inr (Reg_Wake x, w\<lparr>aw_state := WAITING\<rparr>, sg)"
| "AtomicWaker_register t cx (Reg_Wake x) w sg = Inr (Reg_Done, w, Waker_wake x sg)"
| "AtomicWaker_register t cx Reg_Self w sg =
     Inr (Reg_Done, w, case cx of Some c \<Rightarrow> insert (Async c) sg | None \<Rightarrow> insert (Sync t) sg)"
| "AtomicWaker_register t cx Reg_Done w sg = Inr (Reg_Done, w, sg)"

primrec AtomicWaker_wake ::
    "wake_pc \<Rightarrow> atomic_waker \<Rightarrow> waker set \<Rightarrow> (wake_pc \<times> atomic_waker \<times> waker set) exec" where
  "AtomicWaker_wake Wake_Begin w sg =
     (let old = aw_state w; w' = w\<lparr>aw_state := old OR WAKING\<rparr> in
      if old = WAITING then Inr (Wake_Take, w', sg)
      else and_then
        (guard Assertion_Failed (old = REGISTERING \<or> old = REGISTERING OR WAKING \<or> old = WAKING))
        (\<lambda>_. Inr (Wake_Done, w', sg)))"
| "AtomicWaker_wake Wake_Take w sg = Inr (Wake_End (aw_waker w), w\<lparr>aw_waker := None\<rparr>, sg)"
| "AtomicWaker_wake (Wake_End x) w sg =
     Inr (case x of None \<Rightarrow> Wake_Done | Some y \<Rightarrow> Wake_Call y, w\<lparr>aw_state := aw_state w AND NOT WAKING\<rparr>, sg)"
| "AtomicWaker_wake (Wake_Call y) w sg = Inr (Wake_Done, w, Waker_wake y sg)"
| "AtomicWaker_wake Wake_Done w sg = Inr (Wake_Done, w, sg)"

section \<open>Ownership of the waker\<close>

text \<open>
  What a thread is doing with an \<open>AtomicWaker\<close>. A thread owns it from the step that sets a bit of
  the state it found at \<open>WAITING\<close> to the step that clears it.
\<close>

datatype aw_act = Aw_Idle | Aw_Reg task_cx register_pc | Aw_Wake wake_pc

definition aw_owns :: "aw_act \<Rightarrow> bool" where
  "aw_owns a =
     (case a of
        Aw_Reg cx p \<Rightarrow> (case p of Reg_Store \<Rightarrow> True | Reg_Commit \<Rightarrow> True | Reg_Take \<Rightarrow> True | Reg_Swap x \<Rightarrow> True
          | _ \<Rightarrow> False)
      | Aw_Wake p \<Rightarrow> (case p of Wake_Take \<Rightarrow> True | Wake_End x \<Rightarrow> True | _ \<Rightarrow> False)
      | Aw_Idle \<Rightarrow> False)"

definition aw_owner_ok :: "atomic_waker \<Rightarrow> nat \<Rightarrow> aw_act \<Rightarrow> bool" where
  "aw_owner_ok w t a =
     (case a of
        Aw_Reg cx p \<Rightarrow>
          (case p of
             Reg_Store \<Rightarrow> aw_state w = 1 \<or> aw_state w = 3
           | Reg_Commit \<Rightarrow> (aw_state w = 1 \<or> aw_state w = 3) \<and> aw_waker w = Some (Waker_new cx t)
           | Reg_Take \<Rightarrow> aw_state w = 3 \<and> aw_waker w = Some (Waker_new cx t)
           | Reg_Swap x \<Rightarrow> aw_state w = 3 \<and> x = Waker_new cx t
           | Reg_Wake x \<Rightarrow> x = Waker_new cx t
           | _ \<Rightarrow> True)
      | Aw_Wake p \<Rightarrow>
          (case p of Wake_Take \<Rightarrow> aw_state w = 2 | Wake_End x \<Rightarrow> aw_state w = 2 \<and> aw_waker w = None | _ \<Rightarrow> True)
      | Aw_Idle \<Rightarrow> True)"

definition aw_inv :: "atomic_waker \<Rightarrow> (nat \<Rightarrow> aw_act) \<Rightarrow> bool" where
  "aw_inv w acts \<longleftrightarrow>
     (\<forall>t u. aw_owns (acts t) \<and> aw_owns (acts u) \<longrightarrow> t = u) \<and>
     (\<forall>t. aw_owner_ok w t (acts t)) \<and>
     (aw_state w \<noteq> 0 \<longrightarrow> (\<exists>t. aw_owns (acts t)))"

lemma aw_constants:
  "WAITING = 0" "REGISTERING = 1" "WAKING = 2" "(1 :: usize) OR 2 = 3" "(0 :: usize) OR 2 = 2"
  "(2 :: usize) OR 2 = 2" "(3 :: usize) OR 2 = 3" "(2 :: usize) AND NOT 2 = 0"
  by (simp_all add: WAITING_def REGISTERING_def WAKING_def)

lemmas aw_act_splits = aw_act.splits register_pc.splits wake_pc.splits

lemma aw_invD:
  assumes "aw_inv w acts"
  shows "aw_owns (acts t) \<Longrightarrow> aw_owns (acts u) \<Longrightarrow> t = u" and "aw_owner_ok w t (acts t)"
    and "aw_state w \<noteq> 0 \<Longrightarrow> \<exists>t. aw_owns (acts t)"
  using assms by (auto simp: aw_inv_def)

lemma aw_owner_states:
  "aw_owns a \<Longrightarrow> aw_owner_ok w t a \<Longrightarrow> aw_state w = 1 \<or> aw_state w = 2 \<or> aw_state w = 3"
  by (auto simp: aw_owns_def aw_owner_ok_def split: aw_act_splits)

lemma aw_state_cases:
  assumes "aw_inv w acts"
  shows "aw_state w = 0 \<or> aw_state w = 1 \<or> aw_state w = 2 \<or> aw_state w = 3"
  using aw_owner_states aw_invD(2,3) [OF assms] by blast

lemma aw_owner_ok_other: "\<not> aw_owns a \<Longrightarrow> aw_owner_ok w t a \<Longrightarrow> aw_owner_ok w' t a"
  by (auto simp: aw_owns_def aw_owner_ok_def split: aw_act_splits)

text \<open>The owner moves on; a thread becomes the owner; a thread that is not the owner moves.\<close>

lemma aw_inv_owner:
  assumes "aw_inv w acts" and "aw_owns (acts t)" and "aw_owner_ok w' t a" and "aw_owns a \<or> aw_state w' = 0"
  shows "aw_inv w' (acts(t := a))"
proof -
  have "\<not> aw_owns (acts u)" if "u \<noteq> t" for u
    using aw_invD(1) [OF assms(1)] assms(2) that by blast
  with aw_invD(2) [OF assms(1)] assms(3,4) show ?thesis
    unfolding aw_inv_def by (auto intro: aw_owner_ok_other)
qed

lemma aw_inv_acquire:
  assumes "aw_inv w acts" and "aw_state w = 0" and "aw_owns a" and "aw_owner_ok w' t a"
  shows "aw_inv w' (acts(t := a))"
proof -
  have "\<not> aw_owns (acts u)" for u
    using aw_owner_states aw_invD(2) [OF assms(1)] assms(2) by fastforce
  with aw_invD(2) [OF assms(1)] assms(3,4) show ?thesis
    unfolding aw_inv_def by (auto intro: aw_owner_ok_other)
qed

lemma aw_inv_other:
  assumes "aw_inv w acts" and "\<not> aw_owns (acts t)" and "\<not> aw_owns a" and "aw_owner_ok w' t a"
    and "\<And>u. aw_owns (acts u) \<Longrightarrow> aw_owner_ok w' u (acts u)" and "aw_state w' \<noteq> 0 \<Longrightarrow> aw_state w \<noteq> 0"
  shows "aw_inv w' (acts(t := a))"
proof -
  have "aw_owner_ok w' u (acts u)" for u
    using assms(5) aw_invD(2) [OF assms(1)] aw_owner_ok_other by (cases "aw_owns (acts u)") blast+
  moreover have "\<exists>u. aw_owns ((acts(t := a)) u)" if "aw_state w' \<noteq> 0"
    using aw_invD(3) [OF assms(1) assms(6) [OF that]] assms(2) by auto
  ultimately show ?thesis
    using aw_invD(1) [OF assms(1)] assms(3,4) unfolding aw_inv_def by auto
qed

lemma aw_register_step:
  assumes inv: "aw_inv w acts" and t: "acts t = Aw_Reg cx p"
  shows "\<exists>p' w' sg'. AtomicWaker_register t cx p w sg = Inr (p', w', sg') \<and>
    aw_inv w' (acts(t := Aw_Reg cx p'))"
proof -
  have ok: "aw_owner_ok w t (Aw_Reg cx p)"
    using aw_invD(2) [OF inv, of t] t by simp
  note simps = aw_constants aw_owner_ok_def aw_owns_def
  show ?thesis
  proof (cases p)
    case Reg_Begin
    show ?thesis
    proof (cases "aw_state w = 0")
      case True
      then show ?thesis
        using Reg_Begin aw_inv_acquire [OF inv True, of "Aw_Reg cx Reg_Store" "w\<lparr>aw_state := 1\<rparr>" t]
        by (simp add: simps)
    next
      case False
      then show ?thesis
        using Reg_Begin t aw_state_cases [OF inv] aw_inv_other [OF inv, of t "Aw_Reg cx Reg_Self" w]
          aw_inv_other [OF inv, of t "Aw_Reg cx Reg_Done" w] aw_invD(2) [OF inv]
        by (auto simp: simps(1-8) aw_owns_def [of "Aw_Reg _ _"] aw_owner_ok_def [of _ _ "Aw_Reg _ _"])
    qed
  next
    case Reg_Store
    let ?w = "case aw_waker w of
            Some old_waker \<Rightarrow>
              if Waker_will_wake old_waker cx then w else w\<lparr>aw_waker := Some (Waker_new cx t)\<rparr>
          | None \<Rightarrow> w\<lparr>aw_waker := Some (Waker_new cx t)\<rparr>"
    have "aw_owner_ok ?w t (Aw_Reg cx Reg_Commit)"
      using ok Reg_Store
      by (auto simp: aw_owner_ok_def dest: Waker_will_wake_new split: option.split)
    then show ?thesis
      using Reg_Store t aw_inv_owner [OF inv, of t ?w "Aw_Reg cx Reg_Commit"] by (simp add: aw_owns_def)
  next
    case Reg_Commit
    then show ?thesis
      using ok t aw_inv_owner [OF inv, of t "w\<lparr>aw_state := 0\<rparr>" "Aw_Reg cx Reg_Done"]
        aw_inv_owner [OF inv, of t w "Aw_Reg cx Reg_Take"] by (auto simp: simps)
  next
    case Reg_Take
    then show ?thesis
      using ok t aw_inv_owner [OF inv, of t "w\<lparr>aw_waker := None\<rparr>" "Aw_Reg cx (Reg_Swap (Waker_new cx t))"]
      by (auto simp: simps)
  next
    case (Reg_Swap x)
    then show ?thesis
      using ok t aw_inv_owner [OF inv, of t "w\<lparr>aw_state := 0\<rparr>" "Aw_Reg cx (Reg_Wake x)"] by (auto simp: simps)
  next
    case (Reg_Wake x)
    then show ?thesis
      using t aw_inv_other [OF inv, of t "Aw_Reg cx Reg_Done" w] aw_invD(2) [OF inv]
      by (simp add: aw_owns_def [of "Aw_Reg _ _"] aw_owner_ok_def [of _ _ "Aw_Reg _ _"])
  next
    case Reg_Self
    then show ?thesis
      using t aw_inv_other [OF inv, of t "Aw_Reg cx Reg_Done" w] aw_invD(2) [OF inv]
      by (simp add: aw_owns_def [of "Aw_Reg _ _"] aw_owner_ok_def [of _ _ "Aw_Reg _ _"])
  next
    case Reg_Done
    then show ?thesis
      using t inv by (simp add: fun_upd_idem)
  qed
qed

lemma aw_wake_step:
  assumes inv: "aw_inv w acts" and t: "acts t = Aw_Wake p"
  shows "\<exists>p' w' sg'. AtomicWaker_wake p w sg = Inr (p', w', sg') \<and> aw_inv w' (acts(t := Aw_Wake p'))"
proof -
  have ok: "aw_owner_ok w t (Aw_Wake p)"
    using aw_invD(2) [OF inv, of t] t by simp
  note simps = aw_constants aw_owner_ok_def aw_owns_def
  show ?thesis
  proof (cases p)
    case Wake_Begin
    show ?thesis
    proof (cases "aw_state w = 0")
      case True
      then show ?thesis
        using Wake_Begin aw_inv_acquire [OF inv True, of "Aw_Wake Wake_Take" "w\<lparr>aw_state := 2\<rparr>" t]
        by (simp add: simps)
    next
      case False
      let ?w = "w\<lparr>aw_state := aw_state w OR 2\<rparr>"
      have "aw_owner_ok ?w u (acts u)" if "aw_owns (acts u)" for u
        using that aw_invD(2) [OF inv, of u] by (auto simp: simps split: aw_act_splits)
      then have "aw_inv ?w (acts(t := Aw_Wake Wake_Done))"
        using Wake_Begin t False by (intro aw_inv_other [OF inv]) (auto simp: aw_owns_def aw_owner_ok_def)
      then show ?thesis
        using Wake_Begin False aw_state_cases [OF inv] by (auto simp: aw_constants Let_def)
    qed
  next
    case Wake_Take
    then show ?thesis
      using ok t aw_inv_owner [OF inv, of t "w\<lparr>aw_waker := None\<rparr>" "Aw_Wake (Wake_End (aw_waker w))"]
      by (simp add: simps)
  next
    case (Wake_End x)
    let ?p = "case x of None \<Rightarrow> Wake_Done | Some y \<Rightarrow> Wake_Call y"
    have "aw_inv (w\<lparr>aw_state := 0\<rparr>) (acts(t := Aw_Wake ?p))"
      using Wake_End t by (intro aw_inv_owner [OF inv]) (auto simp: simps split: option.split)
    then show ?thesis
      using Wake_End ok by (auto simp: simps)
  next
    case (Wake_Call y)
    then show ?thesis
      using t aw_inv_other [OF inv, of t "Aw_Wake Wake_Done" w] aw_invD(2) [OF inv]
      by (simp add: aw_owns_def [of "Aw_Wake _"] aw_owner_ok_def [of _ _ "Aw_Wake _"])
  next
    case Wake_Done
    then show ?thesis
      using t inv by (simp add: fun_upd_idem)
  qed
qed

section \<open>Any number of threads on one \<open>AtomicWaker\<close>\<close>

text \<open>
  Threads start and finish calls of \<open>register\<close> and \<open>wake\<close> at any time, and woken threads or
  tasks take their signals.
\<close>

inductive aw_reach :: "atomic_waker \<Rightarrow> waker set \<Rightarrow> (nat \<Rightarrow> aw_act) \<Rightarrow> bool" where
  aw_init: "aw_reach AtomicWaker_new {} (\<lambda>_. Aw_Idle)"
| aw_call_register: "aw_reach w sg acts \<Longrightarrow> acts t = Aw_Idle \<Longrightarrow> aw_reach w sg (acts(t := Aw_Reg cx Reg_Begin))"
| aw_call_wake: "aw_reach w sg acts \<Longrightarrow> acts t = Aw_Idle \<Longrightarrow> aw_reach w sg (acts(t := Aw_Wake Wake_Begin))"
| aw_registers: "aw_reach w sg acts \<Longrightarrow> acts t = Aw_Reg cx p \<Longrightarrow>
    AtomicWaker_register t cx p w sg = Inr (p', w', sg') \<Longrightarrow> aw_reach w' sg' (acts(t := Aw_Reg cx p'))"
| aw_wakes: "aw_reach w sg acts \<Longrightarrow> acts t = Aw_Wake p \<Longrightarrow>
    AtomicWaker_wake p w sg = Inr (p', w', sg') \<Longrightarrow> aw_reach w' sg' (acts(t := Aw_Wake p'))"
| aw_return: "aw_reach w sg acts \<Longrightarrow> acts t = Aw_Reg cx Reg_Done \<or> acts t = Aw_Wake Wake_Done \<Longrightarrow>
    aw_reach w sg (acts(t := Aw_Idle))"
| aw_signal: "aw_reach w sg acts \<Longrightarrow> aw_reach w (sg - {x}) acts"

definition aw_accesses :: "aw_act \<Rightarrow> bool" where
  "aw_accesses a =
     (case a of
        Aw_Reg cx p \<Rightarrow> (case p of Reg_Store \<Rightarrow> True | Reg_Take \<Rightarrow> True | _ \<Rightarrow> False)
      | Aw_Wake p \<Rightarrow> (case p of Wake_Take \<Rightarrow> True | _ \<Rightarrow> False)
      | Aw_Idle \<Rightarrow> False)"

lemma aw_accesses_owns: "aw_accesses a \<Longrightarrow> aw_owns a"
  by (auto simp: aw_accesses_def aw_owns_def split: aw_act_splits)

lemma aw_inv_local:
  assumes "aw_inv w acts" and "\<not> aw_owns (acts t)" and "\<not> aw_owns a" and "aw_owner_ok w t a"
  shows "aw_inv w (acts(t := a))"
  by (rule aw_inv_other [OF assms]) (auto intro: aw_invD(2) [OF assms(1)])

lemma aw_reach_inv: "aw_reach w sg acts \<Longrightarrow> aw_inv w acts"
proof (induction rule: aw_reach.induct)
  case aw_init
  show ?case
    by (simp add: aw_inv_def AtomicWaker_new_def aw_constants aw_owns_def aw_owner_ok_def)
next
  case (aw_call_register w sg acts t cx)
  then show ?case
    by (intro aw_inv_local) (simp_all add: aw_owns_def aw_owner_ok_def)
next
  case (aw_call_wake w sg acts t)
  then show ?case
    by (intro aw_inv_local) (simp_all add: aw_owns_def aw_owner_ok_def)
next
  case (aw_registers w sg acts t cx p p' w' sg')
  then show ?case
    using aw_register_step [OF aw_registers.IH, of t cx p sg] by (auto simp: fun_upd_def)
next
  case (aw_wakes w sg acts t p p' w' sg')
  then show ?case
    using aw_wake_step [OF aw_wakes.IH, of t p sg] by (auto simp: fun_upd_def)
next
  case (aw_return w sg acts t cx)
  then show ?case
    by (intro aw_inv_local) (auto simp: aw_owns_def aw_owner_ok_def)
qed

end
