(* ===== verification/Waker_List.thy ===== *)
theory Waker_List
  imports Atomic_Waker
begin

text \<open>
  \<open>WakerList\<close> (\<open>src/src/synchronized/waker_list.rs\<close>): the wakers under their mutex and the flag that
  lets \<open>wake\<close> skip the lock. The mutex is the number of the thread that holds it; a step that has to
  wait for it is not possible (\<open>None\<close>). \<open>wake_all\<close> wakes the wakers one by one while it holds
  the mutex.
\<close>

section \<open>\<open>WakerList\<close>\<close>

record waker_list =
  wl_wakers :: "waker list"
  wl_non_empty :: bool
  wl_lock :: "nat option"

definition WakerList_default :: waker_list where
  "WakerList_default = \<lparr>wl_wakers = [], wl_non_empty = False, wl_lock = None\<rparr>"

datatype list_register_pc = LReg_Lock | LReg_Flag | LReg_Push | LReg_Done

datatype list_wake_pc = LWake_Load | LWake_Cas | LWake_Lock | LWake_Drain | LWake_Done

primrec WakerList_register ::
    "nat \<Rightarrow> task_cx \<Rightarrow> list_register_pc \<Rightarrow> waker_list \<Rightarrow> (list_register_pc \<times> waker_list) option" where
  "WakerList_register t cx LReg_Lock l =
     (if wl_lock l = None then Some (LReg_Flag, l\<lparr>wl_lock := Some t\<rparr>) else None)"
| "WakerList_register t cx LReg_Flag l =
     Some (LReg_Push, if wl_wakers l = [] then l\<lparr>wl_non_empty := True\<rparr> else l)"
| "WakerList_register t cx LReg_Push l =
     Some (LReg_Done, l\<lparr>wl_wakers := wl_wakers l @ [Waker_new cx t], wl_lock := None\<rparr>)"
| "WakerList_register t cx LReg_Done l = None"

primrec WakerList_wake ::
    "nat \<Rightarrow> list_wake_pc \<Rightarrow> waker_list \<Rightarrow> waker set \<Rightarrow> (list_wake_pc \<times> waker_list \<times> waker set) option" where
  "WakerList_wake t LWake_Load l sg = Some (if wl_non_empty l then LWake_Cas else LWake_Done, l, sg)"
| "WakerList_wake t LWake_Cas l sg =
     Some (if wl_non_empty l then (LWake_Lock, l\<lparr>wl_non_empty := False\<rparr>, sg) else (LWake_Done, l, sg))"
| "WakerList_wake t LWake_Lock l sg =
     (if wl_lock l = None then Some (LWake_Drain, l\<lparr>wl_lock := Some t\<rparr>, sg) else None)"
| "WakerList_wake t LWake_Drain l sg =
     Some (case wl_wakers l of
             [] \<Rightarrow> (LWake_Done, l\<lparr>wl_lock := None\<rparr>, sg)
           | x # xs \<Rightarrow> (LWake_Drain, l\<lparr>wl_wakers := xs\<rparr>, Waker_wake x sg))"
| "WakerList_wake t LWake_Done l sg = None"

datatype wl_act = Wl_Idle | Wl_Reg task_cx list_register_pc | Wl_Wake list_wake_pc

primrec wl_critical :: "wl_act \<Rightarrow> bool" where
  "wl_critical Wl_Idle = False"
| "wl_critical (Wl_Reg cx p) = (p = LReg_Flag \<or> p = LReg_Push)"
| "wl_critical (Wl_Wake p) = (p = LWake_Drain)"

primrec wl_pushing :: "wl_act \<Rightarrow> bool" where
  "wl_pushing Wl_Idle = False"
| "wl_pushing (Wl_Reg cx p) = (p = LReg_Push)"
| "wl_pushing (Wl_Wake p) = False"

primrec wl_draining :: "wl_act \<Rightarrow> bool" where
  "wl_draining Wl_Idle = False"
| "wl_draining (Wl_Reg cx p) = False"
| "wl_draining (Wl_Wake p) = (p = LWake_Lock \<or> p = LWake_Drain)"

text \<open>
  The mutex is held by the thread in a critical section, and a list that is not empty, or is about not
  to be, is announced by the flag unless a thread that has taken the flag down is going to drain it.
\<close>

definition wl_inv :: "waker_list \<Rightarrow> (nat \<Rightarrow> wl_act) \<Rightarrow> bool" where
  "wl_inv l acts \<longleftrightarrow>
     (\<forall>t. wl_critical (acts t) \<longleftrightarrow> wl_lock l = Some t) \<and>
     (wl_wakers l \<noteq> [] \<or> (\<exists>t. wl_pushing (acts t)) \<longrightarrow> wl_non_empty l \<or> (\<exists>t. wl_draining (acts t)))"

lemma wl_invD:
  assumes "wl_inv l acts"
  shows "wl_critical (acts t) \<longleftrightarrow> wl_lock l = Some t"
    and "wl_wakers l \<noteq> [] \<Longrightarrow> wl_non_empty l \<or> (\<exists>t. wl_draining (acts t))"
    and "wl_pushing (acts t) \<Longrightarrow> wl_non_empty l \<or> (\<exists>t. wl_draining (acts t))"
  using assms by (auto simp: wl_inv_def)

lemma wl_pushing_critical: "wl_pushing a \<Longrightarrow> wl_critical a"
  by (cases a) auto

text \<open>
  One thread moves to the activity \<open>a\<close>: what has to be shown of the mutex, and of the flag once
  the list is not empty.
\<close>

lemma wl_inv_move:
  assumes "wl_inv l acts"
    and "wl_lock l' = (if wl_critical a then Some t else if wl_critical (acts t) then None else wl_lock l)"
    and "wl_critical a \<Longrightarrow> \<not> wl_critical (acts t) \<Longrightarrow> wl_lock l = None"
    and "wl_wakers l' \<noteq> [] \<or> wl_pushing a \<or> (\<exists>u. u \<noteq> t \<and> wl_pushing (acts u)) \<Longrightarrow>
      wl_non_empty l' \<or> wl_draining a \<or> (\<exists>u. u \<noteq> t \<and> wl_draining (acts u))"
  shows "wl_inv l' (acts(t := a))"
proof -
  have lock: "wl_critical ((acts(t := a)) u) \<longleftrightarrow> wl_lock l' = Some u" for u
    using wl_invD(1) [OF assms(1), of u] wl_invD(1) [OF assms(1), of t] assms(2,3)
    by (cases "u = t") (auto split: if_splits)
  moreover have "wl_non_empty l' \<or> (\<exists>u. wl_draining ((acts(t := a)) u))"
    if "wl_wakers l' \<noteq> [] \<or> (\<exists>u. wl_pushing ((acts(t := a)) u))"
  proof -
    have "wl_wakers l' \<noteq> [] \<or> wl_pushing a \<or> (\<exists>u. u \<noteq> t \<and> wl_pushing (acts u))"
      using that by (auto split: if_splits)
    from assms(4) [OF this] show ?thesis by auto
  qed
  ultimately show ?thesis
    by (simp add: wl_inv_def)
qed

lemma wl_flag:
  assumes "wl_inv l acts" and "\<not> wl_draining (acts t)"
  shows "wl_wakers l \<noteq> [] \<Longrightarrow> wl_non_empty l \<or> (\<exists>u. u \<noteq> t \<and> wl_draining (acts u))"
    and "wl_pushing (acts u) \<Longrightarrow> wl_non_empty l \<or> (\<exists>u. u \<noteq> t \<and> wl_draining (acts u))"
  using wl_invD(2,3) [OF assms(1)] assms(2) by metis+

lemma wl_register_step:
  assumes inv: "wl_inv l acts" and t: "acts t = Wl_Reg cx p" and step: "WakerList_register t cx p l = Some (p', l')"
  shows "wl_inv l' (acts(t := Wl_Reg cx p'))"
  using step t wl_flag [OF inv, of t] wl_flag(2) [OF inv, of t t] wl_invD(1) [OF inv, of t]
  by (cases p) (auto intro!: wl_inv_move [OF inv] split: if_splits)

lemma wl_wake_step:
  assumes inv: "wl_inv l acts" and t: "acts t = Wl_Wake p" and step: "WakerList_wake t p l sg = Some (p', l', sg')"
  shows "wl_inv l' (acts(t := Wl_Wake p'))"
proof (cases p)
  case LWake_Drain
  have "\<not> wl_pushing (acts u)" if "u \<noteq> t" for u
    using wl_invD(1) [OF inv, of u] wl_invD(1) [OF inv, of t] t LWake_Drain that wl_pushing_critical [of "acts u"]
    by auto
  with LWake_Drain step t wl_invD(1) [OF inv, of t] show ?thesis
    by (auto intro!: wl_inv_move [OF inv] split: list.splits)
qed (use step t wl_flag [OF inv, of t] wl_invD(1) [OF inv, of t] in \<open>auto intro!: wl_inv_move [OF inv] split: if_splits\<close>)

section \<open>Any number of threads on one \<open>WakerList\<close>\<close>

inductive wl_reach :: "waker_list \<Rightarrow> waker set \<Rightarrow> (nat \<Rightarrow> wl_act) \<Rightarrow> bool" where
  wl_init: "wl_reach WakerList_default {} (\<lambda>_. Wl_Idle)"
| wl_call_register: "wl_reach l sg acts \<Longrightarrow> acts t = Wl_Idle \<Longrightarrow> wl_reach l sg (acts(t := Wl_Reg cx LReg_Lock))"
| wl_call_wake: "wl_reach l sg acts \<Longrightarrow> acts t = Wl_Idle \<Longrightarrow> wl_reach l sg (acts(t := Wl_Wake LWake_Load))"
| wl_registers: "wl_reach l sg acts \<Longrightarrow> acts t = Wl_Reg cx p \<Longrightarrow>
    WakerList_register t cx p l = Some (p', l') \<Longrightarrow> wl_reach l' sg (acts(t := Wl_Reg cx p'))"
| wl_wakes: "wl_reach l sg acts \<Longrightarrow> acts t = Wl_Wake p \<Longrightarrow>
    WakerList_wake t p l sg = Some (p', l', sg') \<Longrightarrow> wl_reach l' sg' (acts(t := Wl_Wake p'))"
| wl_return: "wl_reach l sg acts \<Longrightarrow> acts t = Wl_Reg cx LReg_Done \<or> acts t = Wl_Wake LWake_Done \<Longrightarrow>
    wl_reach l sg (acts(t := Wl_Idle))"
| wl_signal: "wl_reach l sg acts \<Longrightarrow> wl_reach l (sg - {x}) acts"

text \<open>A thread may enter a call, or return from it, without touching the list.\<close>

definition wl_entry :: "wl_act \<Rightarrow> bool" where
  "wl_entry a = (case a of Wl_Idle \<Rightarrow> True | Wl_Reg cx p \<Rightarrow> p = LReg_Lock | Wl_Wake p \<Rightarrow> p = LWake_Load)"

lemma wl_entry_move:
  assumes inv: "wl_inv l acts" and "\<not> wl_critical (acts t)" "\<not> wl_draining (acts t)" and "wl_entry a"
  shows "wl_inv l (acts(t := a))"
proof (rule wl_inv_move [OF inv])
  have a: "\<not> wl_critical a" "\<not> wl_pushing a"
    using assms(4) by (auto simp: wl_entry_def split: wl_act.splits)
  then show "wl_lock l = (if wl_critical a then Some t else if wl_critical (acts t) then None else wl_lock l)"
    and "wl_critical a \<Longrightarrow> \<not> wl_critical (acts t) \<Longrightarrow> wl_lock l = None"
    using assms(2) by simp_all
  assume "wl_wakers l \<noteq> [] \<or> wl_pushing a \<or> (\<exists>u. u \<noteq> t \<and> wl_pushing (acts u))"
  with a wl_flag [OF inv assms(3)]
  show "wl_non_empty l \<or> wl_draining a \<or> (\<exists>u. u \<noteq> t \<and> wl_draining (acts u))"
    by blast
qed

lemma wl_reach_inv: "wl_reach l sg acts \<Longrightarrow> wl_inv l acts"
proof (induction rule: wl_reach.induct)
  case wl_init
  show ?case
    by (simp add: wl_inv_def WakerList_default_def)
next
  case (wl_call_register l sg acts t cx)
  then show ?case
    by (intro wl_entry_move) (simp_all add: wl_entry_def)
next
  case (wl_call_wake l sg acts t)
  then show ?case
    by (intro wl_entry_move) (simp_all add: wl_entry_def)
next
  case (wl_return l sg acts t cx)
  then show ?case
    by (intro wl_entry_move) (auto simp: wl_entry_def)
qed (blast intro: wl_register_step wl_wake_step)+

end
