(* ===== verification/Synchronized.thy ===== *)
theory Synchronized
  imports Waker_List Queue_Buffers
begin

text \<open>
  \<open>SynchronizedQueue\<close> (\<open>src/src/synchronized.rs\<close>): the blocking, timed and asynchronous calls,
  which spin on the queue, register a waker, try once more and wait.

  The queue's own operations are single steps here: \<open>queue_ops_of\<close> takes them from \<open>Queue\<close>, and
  its notifier \<open>flag_notify\<close> records which notifications the operation asked for. The thread then
  performs them, action by action, before it goes on. What one thread does next is its \<open>sync_pc\<close>;
  \<open>sync_step\<close> makes one step of thread \<open>t\<close>. A step is \<open>None\<close> when the thread has to wait
  for the mutex or for a signal.

  Async tasks and threads are treated alike: task \<open>t\<close> runs as thread \<open>t\<close>, \<open>Poll::Pending\<close>
  is waiting, and being polled again is going on. A thread may also go on without a signal, since
  \<open>park\<close> may return at any time and an executor may poll at any time.
\<close>

section \<open>The operations of the queue\<close>

record ('q, 'v, 's) queue_ops =
  op_enqueue :: "bool list \<Rightarrow> 'q \<Rightarrow> 'v \<Rightarrow> (('v try_enqueue_error + unit) \<times> bool \<times> 'q) exec"
  op_dequeue :: "bool list \<Rightarrow> 'q \<Rightarrow> ((try_dequeue_error + 's) \<times> bool \<times> 'q) exec"
  op_release :: "'q \<Rightarrow> 's \<Rightarrow> 'q exec"
  op_requeue :: "'q \<Rightarrow> 's \<Rightarrow> 'q exec"
  op_close :: "'q \<Rightarrow> 'q"
  op_reopen :: "'q \<Rightarrow> 'q"
  op_capacity :: "'q \<Rightarrow> usize"
  op_size :: "'v \<Rightarrow> usize"

definition flag_notify :: "(bool \<times> bool) notify_trait" where
  "flag_notify = \<lparr>notify_dequeue = (\<lambda>n. (True, snd n)), notify_enqueue = (\<lambda>n. (fst n, True))\<rparr>"

definition no_flags :: "('b, bool \<times> bool) queue \<Rightarrow> ('b, bool \<times> bool) queue" where
  "no_flags q = q\<lparr>notify := (False, False)\<rparr>"

definition queue_ops_of ::
    "('b, 's) buffer_trait \<Rightarrow> ('b, 'v) insert_trait \<Rightarrow>
     (('b, bool \<times> bool) queue, 'v, 's buffer_slice) queue_ops" where
  "queue_ops_of B I =
     \<lparr>op_enqueue = (\<lambda>sp q v. and_then (Queue_try_enqueue B flag_notify I sp q v)
        (\<lambda>(r, q'). Inr (r, fst (notify q'), no_flags q'))),
      op_dequeue = (\<lambda>sp q. and_then (Queue_try_dequeue B flag_notify sp q)
        (\<lambda>(r, q'). Inr (r, snd (notify q'), no_flags q'))),
      op_release = (\<lambda>q s. BufferSlice_drop B q s),
      op_requeue = (\<lambda>q s. BufferSlice_requeue B q s),
      op_close = (\<lambda>q. no_flags (Queue_close flag_notify q)),
      op_reopen = Queue_reopen,
      op_capacity = Queue_capacity,
      op_size = ins_size I\<rparr>"

section \<open>State\<close>

record synchronized_notifier =
  enqueuers :: waker_list
  dequeuer :: atomic_waker

record 'q sync_shared = synchronized_notifier +
  sync_queue :: 'q
  sync_signals :: "waker set"

text \<open>A call of a thread, with or without a deadline, or a poll of a task.\<close>

datatype call_mode = Sync_Call bool | Async_Task

definition mode_cx :: "call_mode \<Rightarrow> nat \<Rightarrow> task_cx" where
  "mode_cx m t = (case m of Sync_Call _ \<Rightarrow> None | Async_Task \<Rightarrow> Some t)"

definition mode_waker :: "call_mode \<Rightarrow> nat \<Rightarrow> waker" where
  "mode_waker m t = Waker_new (mode_cx m t) t"

datatype ('v, 's) sync_pc =
    Sync_Idle
  | Enq_Try nat 'v call_mode
  | Enq_Register list_register_pc 'v call_mode
  | Enq_Retry 'v call_mode
  | Enq_Until 'v call_mode
  | Enq_Park 'v call_mode
  | Enq_Last 'v
  | Deq_Try nat call_mode
  | Deq_Register register_pc call_mode
  | Deq_Retry call_mode
  | Deq_Until call_mode
  | Deq_Park call_mode
  | Deq_Last
  | Notify_Dequeue wake_pc "('v, 's) sync_pc"
  | Notify_Enqueue list_wake_pc "('v, 's) sync_pc"
  | Sync_Holding 's

datatype 'v sync_call =
    Call_Enqueue 'v call_mode
  | Call_Dequeue call_mode
  | Call_Try_Enqueue 'v
  | Call_Try_Dequeue
  | Call_Close
  | Call_Reopen

text \<open>The methods of \<open>SynchronizedQueue\<close>; what a duration is does not matter, only that it ends.\<close>

definition SynchronizedQueue_enqueue :: "'v \<Rightarrow> 'v sync_call" where
  "SynchronizedQueue_enqueue v = Call_Enqueue v (Sync_Call False)"

definition SynchronizedQueue_enqueue_timeout :: "'v \<Rightarrow> 'v sync_call" where
  "SynchronizedQueue_enqueue_timeout v = Call_Enqueue v (Sync_Call True)"

definition SynchronizedQueue_enqueue_async :: "'v \<Rightarrow> 'v sync_call" where
  "SynchronizedQueue_enqueue_async v = Call_Enqueue v Async_Task"

definition SynchronizedQueue_dequeue :: "'v sync_call" where
  "SynchronizedQueue_dequeue = Call_Dequeue (Sync_Call False)"

definition SynchronizedQueue_dequeue_timeout :: "'v sync_call" where
  "SynchronizedQueue_dequeue_timeout = Call_Dequeue (Sync_Call True)"

definition SynchronizedQueue_dequeue_async :: "'v sync_call" where
  "SynchronizedQueue_dequeue_async = Call_Dequeue Async_Task"

text \<open>
  The choices of a thread: to make a call, to go on (with the compare-and-swaps that fail spuriously, and
  whether a deadline has passed or a wait ends without a signal), and what to do with a slice it holds.
\<close>

datatype 'v sync_choice = Call "'v sync_call" | Run "bool list" bool | Drop_Slice | Requeue_Slice

datatype ('v, 's) sync_event =
    Sync_Tau
  | Enqueue_Returns "'v try_enqueue_error + unit"
  | Dequeue_Returns 's
  | Try_Dequeue_Fails try_dequeue_error
  | Dequeue_Fails dequeue_error

type_synonym ('q, 'v, 's) sync_outcome =
  "('q sync_shared \<times> ('v, 's) sync_pc \<times> ('v, 's) sync_event) exec"

section \<open>Results\<close>

definition enqueue_waits :: "('q, 'v, 's) queue_ops \<Rightarrow> 'q \<Rightarrow> 'v try_enqueue_error + unit \<Rightarrow> bool" where
  "enqueue_waits ops q r =
     (case r of Inl (InsufficientCapacity v) \<Rightarrow> op_size ops v \<le> op_capacity ops q | _ \<Rightarrow> False)"

definition dequeue_waits :: "try_dequeue_error + 's \<Rightarrow> bool" where
  "dequeue_waits r = (r = Inl Empty \<or> r = Inl Pending)"

fun dequeue_err :: "try_dequeue_error \<Rightarrow> dequeue_error exec" where
  "dequeue_err Closed = Inr Dequeue_Closed"
| "dequeue_err Conflict = Inr Dequeue_Conflict"
| "dequeue_err _ = Inl Unreachable"

text \<open>A call with a deadline returns the error as it is, the others map it.\<close>

definition dequeue_failure :: "call_mode \<Rightarrow> try_dequeue_error \<Rightarrow> ('v, 's) sync_event exec" where
  "dequeue_failure m e =
     (case m of
        Sync_Call True \<Rightarrow> Inr (Try_Dequeue_Fails e)
      | _ \<Rightarrow> and_then (dequeue_err e) (\<lambda>d. Inr (Dequeue_Fails d)))"

definition wait_until :: "call_mode \<Rightarrow> bool \<Rightarrow> bool" where
  "wait_until m expired = (case m of Sync_Call deadline \<Rightarrow> deadline \<and> expired | Async_Task \<Rightarrow> False)"

section \<open>Steps\<close>

text \<open>One attempt to enqueue: \<open>again\<close> is where a call that has to wait goes on.\<close>

definition enqueue_attempt ::
    "('q, 'v, 's) queue_ops \<Rightarrow> bool list \<Rightarrow> 'q sync_shared \<Rightarrow> 'v \<Rightarrow> ('v, 's) sync_pc option \<Rightarrow>
     ('q, 'v, 's) sync_outcome" where
  "enqueue_attempt ops sp s v again =
     and_then (op_enqueue ops sp (sync_queue s) v) (\<lambda>(r, notified, q).
     Inr (s\<lparr>sync_queue := q\<rparr>,
          case (enqueue_waits ops q r, again) of
            (True, Some p) \<Rightarrow> (p, Sync_Tau)
          | _ \<Rightarrow> (if notified then Notify_Dequeue Wake_Begin Sync_Idle else Sync_Idle, Enqueue_Returns r)))"

definition dequeue_attempt ::
    "('q, 'v, 's) queue_ops \<Rightarrow> bool list \<Rightarrow> 'q sync_shared \<Rightarrow> call_mode \<Rightarrow> ('v, 's) sync_pc option \<Rightarrow>
     ('q, 'v, 's) sync_outcome" where
  "dequeue_attempt ops sp s m again =
     and_then (op_dequeue ops sp (sync_queue s)) (\<lambda>(r, notified, q).
     let s' = s\<lparr>sync_queue := q\<rparr>; after = (\<lambda>p. if notified then Notify_Enqueue LWake_Load p else p) in
     case (dequeue_waits r, again) of
       (True, Some p) \<Rightarrow> Inr (s', after p, Sync_Tau)
     | _ \<Rightarrow>
         (case r of
            Inr sl \<Rightarrow> Inr (s', after (Sync_Holding sl), Dequeue_Returns sl)
          | Inl e \<Rightarrow> and_then (dequeue_failure m e) (\<lambda>ev. Inr (s', after Sync_Idle, ev))))"

definition after_retry :: "call_mode \<Rightarrow> 'p \<Rightarrow> 'p \<Rightarrow> 'p" where
  "after_retry m until park = (case m of Sync_Call _ \<Rightarrow> until | Async_Task \<Rightarrow> park)"

text \<open>After an attempt in vain, a thread either makes a last one, its deadline being over, or parks.\<close>

definition enqueue_sync :: "call_mode \<Rightarrow> bool \<Rightarrow> 'v \<Rightarrow> ('v, 's) sync_pc" where
  "enqueue_sync m expired v = (if wait_until m expired then Enq_Last v else Enq_Park v m)"

definition dequeue_sync :: "call_mode \<Rightarrow> bool \<Rightarrow> ('v, 's) sync_pc" where
  "dequeue_sync m expired = (if wait_until m expired then Deq_Last else Deq_Park m)"

text \<open>A wait ends with the thread's signal, which it takes, or without one.\<close>

definition wait_step ::
    "nat \<Rightarrow> call_mode \<Rightarrow> bool \<Rightarrow> 'q sync_shared \<Rightarrow> ('v, 's) sync_pc \<Rightarrow> ('q, 'v, 's) sync_outcome option" where
  "wait_step t m spurious s next =
     (if spurious \<or> mode_waker m t \<in> sync_signals s
      then Some (Inr (s\<lparr>sync_signals := sync_signals s - {mode_waker m t}\<rparr>, next, Sync_Tau))
      else None)"

definition notify_dequeue_step ::
    "'q sync_shared \<Rightarrow> wake_pc \<Rightarrow> ('v, 's) sync_pc \<Rightarrow> ('q, 'v, 's) sync_outcome" where
  "notify_dequeue_step s p k =
     and_then (AtomicWaker_wake p (dequeuer s) (sync_signals s)) (\<lambda>(p', w, sg).
     Inr (s\<lparr>dequeuer := w, sync_signals := sg\<rparr>, if p' = Wake_Done then k else Notify_Dequeue p' k, Sync_Tau))"

definition notify_enqueue_step ::
    "nat \<Rightarrow> 'q sync_shared \<Rightarrow> list_wake_pc \<Rightarrow> ('v, 's) sync_pc \<Rightarrow> ('q, 'v, 's) sync_outcome option" where
  "notify_enqueue_step t s p k =
     (case WakerList_wake t p (enqueuers s) (sync_signals s) of
        None \<Rightarrow> None
      | Some (p', l, sg) \<Rightarrow>
          Some (Inr (s\<lparr>enqueuers := l, sync_signals := sg\<rparr>,
                     if p' = LWake_Done then k else Notify_Enqueue p' k, Sync_Tau)))"

definition register_enqueuer_step ::
    "nat \<Rightarrow> 'q sync_shared \<Rightarrow> list_register_pc \<Rightarrow> 'v \<Rightarrow> call_mode \<Rightarrow> ('q, 'v, 's) sync_outcome option" where
  "register_enqueuer_step t s p v m =
     (case WakerList_register t (mode_cx m t) p (enqueuers s) of
        None \<Rightarrow> None
      | Some (p', l) \<Rightarrow>
          Some (Inr (s\<lparr>enqueuers := l\<rparr>,
                     if p' = LReg_Done then Enq_Retry v m else Enq_Register p' v m, Sync_Tau)))"

definition register_dequeuer_step ::
    "nat \<Rightarrow> 'q sync_shared \<Rightarrow> register_pc \<Rightarrow> call_mode \<Rightarrow> ('q, 'v, 's) sync_outcome" where
  "register_dequeuer_step t s p m =
     and_then (AtomicWaker_register t (mode_cx m t) p (dequeuer s) (sync_signals s)) (\<lambda>(p', w, sg).
     Inr (s\<lparr>dequeuer := w, sync_signals := sg\<rparr>,
          if p' = Reg_Done then Deq_Retry m else Deq_Register p' m, Sync_Tau))"

fun sync_run ::
    "('q, 'v, 's) queue_ops \<Rightarrow> nat \<Rightarrow> bool list \<Rightarrow> bool \<Rightarrow> 'q sync_shared \<Rightarrow> ('v, 's) sync_pc \<Rightarrow>
     ('q, 'v, 's) sync_outcome option" where
  "sync_run ops t sp b s (Enq_Try (Suc k) v m) = Some (enqueue_attempt ops sp s v (Some (Enq_Try k v m)))"
| "sync_run ops t sp b s (Enq_Try 0 v m) = Some (Inr (s, Enq_Register LReg_Lock v m, Sync_Tau))"
| "sync_run ops t sp b s (Enq_Register p v m) = register_enqueuer_step t s p v m"
| "sync_run ops t sp b s (Enq_Retry v m) =
     Some (enqueue_attempt ops sp s v (Some (after_retry m (Enq_Until v m) (Enq_Park v m))))"
| "sync_run ops t sp b s (Enq_Until v m) =
     Some (Inr (s, enqueue_sync m b v, Sync_Tau))"
| "sync_run ops t sp b s (Enq_Park v m) = wait_step t m b s (Enq_Try SPIN_LIMIT v m)"
| "sync_run ops t sp b s (Enq_Last v) = Some (enqueue_attempt ops sp s v None)"
| "sync_run ops t sp b s (Deq_Try (Suc k) m) = Some (dequeue_attempt ops sp s m (Some (Deq_Try k m)))"
| "sync_run ops t sp b s (Deq_Try 0 m) = Some (Inr (s, Deq_Register Reg_Begin m, Sync_Tau))"
| "sync_run ops t sp b s (Deq_Register p m) = Some (register_dequeuer_step t s p m)"
| "sync_run ops t sp b s (Deq_Retry m) =
     Some (dequeue_attempt ops sp s m (Some (after_retry m (Deq_Until m) (Deq_Park m))))"
| "sync_run ops t sp b s (Deq_Until m) =
     Some (Inr (s, dequeue_sync m b, Sync_Tau))"
| "sync_run ops t sp b s (Deq_Park m) = wait_step t m b s (Deq_Try SPIN_LIMIT m)"
| "sync_run ops t sp b s Deq_Last = Some (dequeue_attempt ops sp s (Sync_Call True) None)"
| "sync_run ops t sp b s (Notify_Dequeue p k) = Some (notify_dequeue_step s p k)"
| "sync_run ops t sp b s (Notify_Enqueue p k) = notify_enqueue_step t s p k"
| "sync_run ops t sp b s Sync_Idle = None"
| "sync_run ops t sp b s (Sync_Holding sl) = None"

fun sync_start ::
    "('q, 'v, 's) queue_ops \<Rightarrow> 'q sync_shared \<Rightarrow> 'v sync_call \<Rightarrow> ('q, 'v, 's) sync_outcome" where
  "sync_start ops s (Call_Enqueue v m) = Inr (s, Enq_Try SPIN_LIMIT v m, Sync_Tau)"
| "sync_start ops s (Call_Dequeue m) = Inr (s, Deq_Try SPIN_LIMIT m, Sync_Tau)"
| "sync_start ops s (Call_Try_Enqueue v) = Inr (s, Enq_Last v, Sync_Tau)"
| "sync_start ops s Call_Try_Dequeue = Inr (s, Deq_Last, Sync_Tau)"
| "sync_start ops s Call_Close =
     Inr (s\<lparr>sync_queue := op_close ops (sync_queue s)\<rparr>,
          Notify_Dequeue Wake_Begin (Notify_Enqueue LWake_Load Sync_Idle), Sync_Tau)"
| "sync_start ops s Call_Reopen = Inr (s\<lparr>sync_queue := op_reopen ops (sync_queue s)\<rparr>, Sync_Idle, Sync_Tau)"

definition sync_step ::
    "('q, 'v, 's) queue_ops \<Rightarrow> nat \<Rightarrow> 'v sync_choice \<Rightarrow> 'q sync_shared \<Rightarrow> ('v, 's) sync_pc \<Rightarrow>
     ('q, 'v, 's) sync_outcome option" where
  "sync_step ops t ch s p =
     (case ch of
        Call c \<Rightarrow> (case p of Sync_Idle \<Rightarrow> Some (sync_start ops s c) | _ \<Rightarrow> None)
      | Run sp b \<Rightarrow> sync_run ops t sp b s p
      | Drop_Slice \<Rightarrow>
          (case p of
             Sync_Holding sl \<Rightarrow> Some (and_then (op_release ops (sync_queue s) sl) (\<lambda>q.
               Inr (s\<lparr>sync_queue := q\<rparr>, Sync_Idle, Sync_Tau)))
           | _ \<Rightarrow> None)
      | Requeue_Slice \<Rightarrow>
          (case p of
             Sync_Holding sl \<Rightarrow> Some (and_then (op_requeue ops (sync_queue s) sl) (\<lambda>q.
               Inr (s\<lparr>sync_queue := q\<rparr>, Sync_Idle, Sync_Tau)))
           | _ \<Rightarrow> None))"

section \<open>Interleavings\<close>

definition sync_initial :: "'q \<Rightarrow> 'q sync_shared" where
  "sync_initial q = \<lparr>enqueuers = WakerList_default, dequeuer = AtomicWaker_new, sync_queue = q, sync_signals = {}\<rparr>"

text \<open>\<open>allowed\<close> says which choices a thread may make, for example which thread may dequeue.\<close>

inductive sync_reach ::
    "('q, 'v, 's) queue_ops \<Rightarrow> (nat \<Rightarrow> 'v sync_choice \<Rightarrow> bool) \<Rightarrow> 'q \<Rightarrow> 'q sync_shared \<Rightarrow>
     (nat \<Rightarrow> ('v, 's) sync_pc) \<Rightarrow> bool"
  for ops allowed q0 where
  sync_init: "sync_reach ops allowed q0 (sync_initial q0) (\<lambda>_. Sync_Idle)"
| sync_next: "sync_reach ops allowed q0 s pcs \<Longrightarrow> allowed t ch \<Longrightarrow>
    sync_step ops t ch s (pcs t) = Some (Inr (s', p, ev)) \<Longrightarrow> sync_reach ops allowed q0 s' (pcs(t := p))"

end
