(* ===== verification/Waker_Delivery.thy ===== *)
theory Waker_Delivery
  imports Waker_List
begin

text \<open>
  Which wake-ups are on their way. \<open>aw_ready\<close>: the waker is in the slot and a \<open>wake\<close> will find it;
  \<open>aw_carries\<close>: a thread has taken it out of the slot and is going to use it; \<open>aw_delivers\<close>: a
  thread inside \<open>wake\<close> is going to use it if it is in the slot. The lemmas say that none of this is lost
  by a step of any thread, whatever the rest of the program is; \<open>list_moves\<close> is the same for a
  \<open>WakerList\<close>.
\<close>

section \<open>\<open>AtomicWaker\<close>\<close>

definition aw_ready :: "atomic_waker \<Rightarrow> waker \<Rightarrow> bool" where
  "aw_ready w x \<longleftrightarrow> aw_waker w = Some x \<and> (aw_state w = 0 \<or> aw_state w = 2)"

fun aw_carries :: "waker \<Rightarrow> aw_act \<Rightarrow> bool" where
  "aw_carries x (Aw_Wake (Wake_End (Some y))) = (y = x)"
| "aw_carries x (Aw_Wake (Wake_Call y)) = (y = x)"
| "aw_carries x _ = False"

fun aw_delivers :: "waker \<Rightarrow> aw_act \<Rightarrow> bool" where
  "aw_delivers x (Aw_Wake Wake_Begin) = True"
| "aw_delivers x (Aw_Wake Wake_Take) = True"
| "aw_delivers x (Aw_Wake (Wake_End (Some y))) = (y = x)"
| "aw_delivers x (Aw_Wake (Wake_Call y)) = (y = x)"
| "aw_delivers x _ = False"

lemma aw_carries_delivers: "aw_carries x a \<Longrightarrow> aw_delivers x a"
  by (cases "(x, a)" rule: aw_carries.cases) auto

lemma aw_done [simp]: "\<not> aw_carries x (Aw_Wake Wake_Done)" "\<not> aw_delivers x (Aw_Wake Wake_Done)"
  by simp_all

text \<open>Only a thread that is waking owns a slot whose waker is ready, and nobody when nobody registers.\<close>

lemma aw_busy:
  assumes inv: "aw_inv w acts" and busy: "aw_state w \<noteq> 0"
    and quiet: "\<forall>u cx p. acts u = Aw_Reg cx p \<longrightarrow> p = Reg_Begin"
  shows "aw_state w = 2 \<and> ((\<exists>u. acts u = Aw_Wake Wake_Take) \<or> aw_waker w = None)"
proof -
  obtain u where "aw_owns (acts u)"
    using aw_invD(3) [OF inv busy] by blast
  with aw_invD(2) [OF inv, of u] quiet show ?thesis
    by (auto simp: aw_owns_def aw_owner_ok_def split: aw_act.splits register_pc.splits wake_pc.splits)
qed

lemma aw_wake_signals: "AtomicWaker_wake p w sg = Inr (p', w', sg') \<Longrightarrow> sg \<subseteq> sg'"
  by (cases p) (auto simp: Waker_wake_eq Let_def and_then_def guard_def split: if_splits)

lemma aw_register_signals: "AtomicWaker_register t cx p w sg = Inr (p', w', sg') \<Longrightarrow> sg \<subseteq> sg'"
  by (cases p) (auto simp: Waker_wake_eq Let_def and_then_def guard_def split: if_splits option.splits)

text \<open>A waker that is ready or carried stays so until it is used.\<close>

lemma aw_wake_keeps:
  assumes inv: "aw_inv w acts" and t: "acts t = Aw_Wake p"
    and wake: "AtomicWaker_wake p w sg = Inr (p', w', sg')"
    and x: "aw_ready w x \<or> aw_carries x (Aw_Wake p)"
  shows "aw_ready w' x \<or> aw_carries x (Aw_Wake p') \<or> x \<in> sg'"
proof -
  have "aw_owner_ok w t (Aw_Wake p)"
    using aw_invD(2) [OF inv, of t] t by simp
  with wake x show ?thesis
    by (cases p) (auto simp: aw_constants Waker_wake_eq aw_owner_ok_def aw_ready_def Let_def split: if_splits option.splits)
qed

text \<open>A thread that leaves \<open>wake\<close> has delivered, or leaves it to another one that will.\<close>

lemma aw_wake_delivers:
  assumes inv: "aw_inv w acts" and t: "acts t = Aw_Wake p"
    and wake: "AtomicWaker_wake p w sg = Inr (p', w', sg')"
    and x: "aw_delivers x (Aw_Wake p)" "aw_ready w x \<or> (\<exists>u. aw_carries x (acts u))"
    and quiet: "\<forall>u cx p. acts u = Aw_Reg cx p \<longrightarrow> p = Reg_Begin"
  shows "aw_delivers x (Aw_Wake p') \<or> (\<exists>u. u \<noteq> t \<and> aw_delivers x (acts u)) \<or> x \<in> sg'"
proof -
  have other: "\<exists>u. u \<noteq> t \<and> aw_delivers x (acts u)" if "aw_carries x (acts u)" "\<not> aw_carries x (Aw_Wake p)" for u
    using that t aw_carries_delivers by metis
  show ?thesis
  proof (cases p)
    case Wake_Begin
    show ?thesis
    proof (cases "aw_state w = 0")
      case False
      from aw_busy [OF inv this quiet] consider u where "acts u = Aw_Wake Wake_Take" | "aw_waker w = None"
        by auto
      then show ?thesis
      proof cases
        case 1
        then have "u \<noteq> t" "aw_delivers x (acts u)"
          using t Wake_Begin by auto
        then show ?thesis by blast
      next
        case 2
        then obtain u where "aw_carries x (acts u)"
          using x(2) by (auto simp: aw_ready_def)
        then show ?thesis
          using other Wake_Begin by simp
      qed
    qed (use Wake_Begin wake in \<open>auto simp: aw_constants Let_def\<close>)
  next
    case Wake_Take
    then show ?thesis
      using wake x(2) other by (auto simp: aw_ready_def)
  qed (use wake x(1) in \<open>auto simp: Waker_wake_eq split: option.splits\<close>)
qed

text \<open>The only thread that registers ends with its waker in the slot, or woken.\<close>

lemma aw_register_ready:
  assumes inv: "aw_inv w acts" and t: "acts t = Aw_Reg cx p"
    and reg: "AtomicWaker_register t cx p w sg = Inr (Reg_Done, w', sg')" and p: "p \<noteq> Reg_Done"
    and alone: "\<And>u cx p. acts u = Aw_Reg cx p \<Longrightarrow> u = t"
  shows "aw_ready w' (Waker_new cx t) \<or> Waker_new cx t \<in> sg'"
proof -
  have ok: "aw_owner_ok w t (Aw_Reg cx p)"
    using aw_invD(2) [OF inv, of t] t by simp
  have "aw_state w = 0 \<or> aw_state w = 2" if "p = Reg_Begin"
  proof (cases "aw_state w = 0")
    case False
    have "p' = Reg_Begin" if "acts u = Aw_Reg cx' p'" for u cx' p'
      using alone [OF that] that t \<open>p = Reg_Begin\<close> by simp
    then show ?thesis
      using aw_busy [OF inv False] by blast
  qed simp
  with reg ok p show ?thesis
    by (cases p)
      (auto simp: aw_constants Waker_wake_eq aw_owner_ok_def aw_ready_def Waker_new_def split: if_splits option.splits)
qed

text \<open>A thread may enter a call of the waker, or return from it, without touching it.\<close>

definition aw_entry :: "aw_act \<Rightarrow> bool" where
  "aw_entry a = (case a of Aw_Idle \<Rightarrow> True | Aw_Reg cx p \<Rightarrow> p = Reg_Begin | Aw_Wake p \<Rightarrow> p = Wake_Begin)"

lemma aw_entry_move:
  assumes "aw_inv w acts" and "\<not> aw_owns (acts t)" and "aw_entry a"
  shows "aw_inv w (acts(t := a))"
  using assms by (intro aw_inv_local) (auto simp: aw_entry_def aw_owns_def aw_owner_ok_def split: aw_act.splits)

section \<open>\<open>WakerList\<close>\<close>

lemma list_register_grows:
  assumes "WakerList_register t cx p l = Some (p', l')"
  shows "set (wl_wakers l) \<subseteq> set (wl_wakers l')" and "p' = LReg_Done \<Longrightarrow> Waker_new cx t \<in> set (wl_wakers l')"
  using assms by (cases p; auto split: if_splits)+

lemma list_wake_moves:
  assumes "WakerList_wake t p l sg = Some (p', l', sg')"
  shows "sg \<subseteq> sg'" and "set (wl_wakers l) \<subseteq> set (wl_wakers l') \<union> sg'"
  using assms by (cases p; auto simp: Waker_wake_eq split: if_splits list.splits)+

text \<open>A thread that leaves \<open>wake\<close> with a waker left in the list leaves it to another that will drain it.\<close>

lemma list_wake_owed:
  assumes inv: "wl_inv l acts" and t: "acts t = Wl_Wake p"
    and wake: "WakerList_wake t p l sg = Some (LWake_Done, l', sg')" and left: "wl_wakers l' \<noteq> []"
  shows "\<exists>u. u \<noteq> t \<and> wl_draining (acts u)"
  using wake left wl_flag(1) [OF inv, of t] t by (cases p) (auto split: if_splits list.splits)

end
