(* ===== verification/Synchronized_Invariant.thy ===== *)
theory Synchronized_Invariant
  imports Synchronized Waker_Delivery
begin

text \<open>
  What the waiting calls of \<open>Synchronized\<close> need of the queue, as the locale \<open>notifying_queue\<close>,
  and the invariant of all interleavings: the wakers are well used (\<open>aw_inv\<close>, \<open>wl_inv\<close>), the
  consumer has the slice it thinks it has, and a thread that is about to wait, or waits, either has its
  signal, or has its waker registered and, if its call would succeed, a thread that is going to wake it.
\<close>

section \<open>What the waiting calls need of the queue\<close>

definition enqueue_blocks :: "('q, 'v, 's) queue_ops \<Rightarrow> 'q \<Rightarrow> 'v \<Rightarrow> bool" where
  "enqueue_blocks ops q v =
     (case op_enqueue ops [] q v of Inr (r, _, q') \<Rightarrow> enqueue_waits ops q' r | Inl _ \<Rightarrow> False)"

definition dequeue_blocks :: "('q, 'v, 's) queue_ops \<Rightarrow> 'q \<Rightarrow> bool" where
  "dequeue_blocks ops q =
     (case op_dequeue ops [] q of Inr (r, _, _) \<Rightarrow> dequeue_waits r | Inl _ \<Rightarrow> False)"

text \<open>
  \<open>free q\<close>: a well-formed queue of which nobody holds a slice; \<open>held q s\<close>: one whose slice
  \<open>s\<close> is out. The laws say when an operation has to ask for a notification: an enqueue that changes
  the queue wakes the dequeuer, and a dequeue wakes the enqueuers unless whoever was blocked still is.
\<close>

locale notifying_queue =
  fixes ops :: "('q, 'v, 's) queue_ops"
    and good :: "'v \<Rightarrow> bool"
    and free :: "'q \<Rightarrow> bool"
    and held :: "'q \<Rightarrow> 's \<Rightarrow> bool"
  assumes enqueue_law:
      "free q \<or> held q sl \<Longrightarrow> good v \<Longrightarrow> \<exists>r notified q'. op_enqueue ops sp q v = Inr (r, notified, q') \<and>
         (free q \<longrightarrow> free q') \<and> (held q sl \<longrightarrow> held q' sl) \<and> (notified \<or> q' = q) \<and>
         (enqueue_waits ops q' r \<longrightarrow> \<not> notified \<and> enqueue_blocks ops q v) \<and>
         (\<forall>u. good u \<longrightarrow> enqueue_blocks ops q u \<longrightarrow> enqueue_blocks ops q' u)"
    and dequeue_law:
      "free q \<Longrightarrow> \<exists>r notified q'. op_dequeue ops sp q = Inr (r, notified, q') \<and>
         (case r of Inl e \<Rightarrow> q' = q \<and> \<not> notified \<and> (dequeue_waits r \<longrightarrow> dequeue_blocks ops q)
          | Inr sl \<Rightarrow> held q' sl) \<and>
         (notified \<or> (\<forall>u. good u \<longrightarrow> enqueue_blocks ops q u \<longrightarrow> enqueue_blocks ops q' u))"
    and release_law:
      "held q sl \<Longrightarrow> \<exists>q'. op_release ops q sl = Inr q' \<and> free q' \<and>
         (\<forall>u. good u \<longrightarrow> enqueue_blocks ops q u \<longrightarrow> enqueue_blocks ops q' u)"
    and requeue_law:
      "held q sl \<Longrightarrow> \<exists>q'. op_requeue ops q sl = Inr q' \<and> free q' \<and>
         (\<forall>u. good u \<longrightarrow> enqueue_blocks ops q u \<longrightarrow> enqueue_blocks ops q' u)"
    and close_law:
      "(free q \<longrightarrow> free (op_close ops q)) \<and> (held q sl \<longrightarrow> held (op_close ops q) sl)"
    and reopen_law:
      "free q \<or> held q sl \<Longrightarrow> (free q \<longrightarrow> free (op_reopen ops q)) \<and> (held q sl \<longrightarrow> held (op_reopen ops q) sl) \<and>
       (\<forall>u. good u \<longrightarrow> enqueue_blocks ops q u \<longrightarrow> enqueue_blocks ops (op_reopen ops q) u) \<and>
       (dequeue_blocks ops q \<longrightarrow> dequeue_blocks ops (op_reopen ops q))"

text \<open>Any thread may enqueue, close and reopen; thread \<open>0\<close> is the one that dequeues.\<close>

definition sync_allowed :: "('v \<Rightarrow> bool) \<Rightarrow> nat \<Rightarrow> 'v sync_choice \<Rightarrow> bool" where
  "sync_allowed good t ch =
     (case ch of
        Call c \<Rightarrow>
          (case c of Call_Enqueue v m \<Rightarrow> good v | Call_Try_Enqueue v \<Rightarrow> good v
           | Call_Dequeue m \<Rightarrow> t = 0 | Call_Try_Dequeue \<Rightarrow> t = 0 | _ \<Rightarrow> True)
      | _ \<Rightarrow> True)"

text \<open>
  No thread can go on by itself: each of them is between two calls, holds a slice, or waits for a signal
  or for the mutex.
\<close>

definition sync_stuck :: "('q, 'v, 's) queue_ops \<Rightarrow> 'q sync_shared \<Rightarrow> (nat \<Rightarrow> ('v, 's) sync_pc) \<Rightarrow> bool" where
  "sync_stuck ops s pcs \<longleftrightarrow> (\<forall>t sp. sync_run ops t sp False s (pcs t) = None)"

section \<open>The invariant\<close>

primrec aw_part :: "nat \<Rightarrow> ('v, 's) sync_pc \<Rightarrow> aw_act" where
  "aw_part t Sync_Idle = Aw_Idle"
| "aw_part t (Enq_Try k v m) = Aw_Idle"
| "aw_part t (Enq_Register p v m) = Aw_Idle"
| "aw_part t (Enq_Retry v m) = Aw_Idle"
| "aw_part t (Enq_Until v m) = Aw_Idle"
| "aw_part t (Enq_Park v m) = Aw_Idle"
| "aw_part t (Enq_Last v) = Aw_Idle"
| "aw_part t (Deq_Try k m) = Aw_Idle"
| "aw_part t (Deq_Register p m) = Aw_Reg (mode_cx m t) p"
| "aw_part t (Deq_Retry m) = Aw_Idle"
| "aw_part t (Deq_Until m) = Aw_Idle"
| "aw_part t (Deq_Park m) = Aw_Idle"
| "aw_part t Deq_Last = Aw_Idle"
| "aw_part t (Notify_Dequeue p k) = Aw_Wake p"
| "aw_part t (Notify_Enqueue p k) = Aw_Idle"
| "aw_part t (Sync_Holding sl) = Aw_Idle"

primrec wl_part :: "nat \<Rightarrow> ('v, 's) sync_pc \<Rightarrow> wl_act" where
  "wl_part t Sync_Idle = Wl_Idle"
| "wl_part t (Enq_Try k v m) = Wl_Idle"
| "wl_part t (Enq_Register p v m) = Wl_Reg (mode_cx m t) p"
| "wl_part t (Enq_Retry v m) = Wl_Idle"
| "wl_part t (Enq_Until v m) = Wl_Idle"
| "wl_part t (Enq_Park v m) = Wl_Idle"
| "wl_part t (Enq_Last v) = Wl_Idle"
| "wl_part t (Deq_Try k m) = Wl_Idle"
| "wl_part t (Deq_Register p m) = Wl_Idle"
| "wl_part t (Deq_Retry m) = Wl_Idle"
| "wl_part t (Deq_Until m) = Wl_Idle"
| "wl_part t (Deq_Park m) = Wl_Idle"
| "wl_part t Deq_Last = Wl_Idle"
| "wl_part t (Notify_Dequeue p k) = Wl_Idle"
| "wl_part t (Notify_Enqueue p k) = Wl_Wake p"
| "wl_part t (Sync_Holding sl) = Wl_Idle"

text \<open>The value of an enqueue, where it goes on after a notification, and the slice that is out.\<close>

primrec pc_shape :: "('v \<Rightarrow> bool) \<Rightarrow> bool \<Rightarrow> ('v, 's) sync_pc \<Rightarrow> bool" where
  "pc_shape good consumer Sync_Idle = True"
| "pc_shape good consumer (Enq_Try k v m) = good v"
| "pc_shape good consumer (Enq_Register p v m) = (good v \<and> p \<noteq> LReg_Done)"
| "pc_shape good consumer (Enq_Retry v m) = good v"
| "pc_shape good consumer (Enq_Until v m) = good v"
| "pc_shape good consumer (Enq_Park v m) = good v"
| "pc_shape good consumer (Enq_Last v) = good v"
| "pc_shape good consumer (Deq_Try k m) = consumer"
| "pc_shape good consumer (Deq_Register p m) = (consumer \<and> p \<noteq> Reg_Done)"
| "pc_shape good consumer (Deq_Retry m) = consumer"
| "pc_shape good consumer (Deq_Until m) = consumer"
| "pc_shape good consumer (Deq_Park m) = consumer"
| "pc_shape good consumer Deq_Last = consumer"
| "pc_shape good consumer (Notify_Dequeue p k) =
     (p \<noteq> Wake_Done \<and> (k = Sync_Idle \<or> k = Notify_Enqueue LWake_Load Sync_Idle))"
| "pc_shape good consumer (Notify_Enqueue p k) =
     (p \<noteq> LWake_Done \<and> (k = Sync_Idle \<or> consumer \<and> (\<exists>sl. k = Sync_Holding sl)))"
| "pc_shape good consumer (Sync_Holding sl) = consumer"

fun slice_of :: "('v, 's) sync_pc \<Rightarrow> 's option" where
  "slice_of (Sync_Holding sl) = Some sl"
| "slice_of (Notify_Enqueue p (Sync_Holding sl)) = Some sl"
| "slice_of _ = None"

text \<open>
  An enqueuer that has registered and not yet tried again, or is waiting (the flag), and the threads that
  are going to wake the enqueuers; the same for the dequeuer.
\<close>

fun enq_registered :: "('v, 's) sync_pc \<Rightarrow> ('v \<times> call_mode \<times> bool) option" where
  "enq_registered (Enq_Retry v m) = Some (v, m, False)"
| "enq_registered (Enq_Until v m) = Some (v, m, True)"
| "enq_registered (Enq_Park v m) = Some (v, m, True)"
| "enq_registered _ = None"

fun enq_notifier :: "('v, 's) sync_pc \<Rightarrow> bool" where
  "enq_notifier (Notify_Dequeue p (Notify_Enqueue p' k)) = True"
| "enq_notifier (Notify_Enqueue p k) = True"
| "enq_notifier _ = False"

fun deq_registered :: "('v, 's) sync_pc \<Rightarrow> (call_mode \<times> bool) option" where
  "deq_registered (Deq_Retry m) = Some (m, False)"
| "deq_registered (Deq_Until m) = Some (m, True)"
| "deq_registered (Deq_Park m) = Some (m, True)"
| "deq_registered _ = None"

fun carries :: "waker \<Rightarrow> ('v, 's) sync_pc \<Rightarrow> bool" where
  "carries w (Notify_Dequeue (Wake_End (Some x)) k) = (x = w)"
| "carries w (Notify_Dequeue (Wake_Call x) k) = (x = w)"
| "carries w _ = False"

fun deq_notifier :: "waker \<Rightarrow> ('v, 's) sync_pc \<Rightarrow> bool" where
  "deq_notifier w (Notify_Dequeue Wake_Begin k) = True"
| "deq_notifier w (Notify_Dequeue Wake_Take k) = True"
| "deq_notifier w (Notify_Dequeue (Wake_End (Some x)) k) = (x = w)"
| "deq_notifier w (Notify_Dequeue (Wake_Call x) k) = (x = w)"
| "deq_notifier w _ = False"

definition enq_safe ::
    "('q, 'v, 's) queue_ops \<Rightarrow> 'q sync_shared \<Rightarrow> (nat \<Rightarrow> ('v, 's) sync_pc) \<Rightarrow> nat \<Rightarrow> bool" where
  "enq_safe ops s pcs t \<longleftrightarrow>
     (\<forall>v m waiting. enq_registered (pcs t) = Some (v, m, waiting) \<longrightarrow>
        mode_waker m t \<in> sync_signals s \<or>
        (mode_waker m t \<in> set (wl_wakers (enqueuers s)) \<and>
         (waiting \<and> \<not> enqueue_blocks ops (sync_queue s) v \<longrightarrow> (\<exists>u. enq_notifier (pcs u)))))"

definition slot_ready :: "'q sync_shared \<Rightarrow> waker \<Rightarrow> bool" where
  "slot_ready s w \<longleftrightarrow> aw_ready (dequeuer s) w"

definition deq_safe ::
    "('q, 'v, 's) queue_ops \<Rightarrow> 'q sync_shared \<Rightarrow> (nat \<Rightarrow> ('v, 's) sync_pc) \<Rightarrow> bool" where
  "deq_safe ops s pcs \<longleftrightarrow>
     (\<forall>m waiting. deq_registered (pcs 0) = Some (m, waiting) \<longrightarrow>
        mode_waker m 0 \<in> sync_signals s \<or>
        ((slot_ready s (mode_waker m 0) \<or> (\<exists>u. carries (mode_waker m 0) (pcs u))) \<and>
         (waiting \<and> \<not> dequeue_blocks ops (sync_queue s) \<longrightarrow> (\<exists>u. deq_notifier (mode_waker m 0) (pcs u)))))"

definition queue_owned ::
    "('q \<Rightarrow> bool) \<Rightarrow> ('q \<Rightarrow> 's \<Rightarrow> bool) \<Rightarrow> 'q \<Rightarrow> ('v, 's) sync_pc \<Rightarrow> bool" where
  "queue_owned free held q p = (case slice_of p of None \<Rightarrow> free q | Some sl \<Rightarrow> held q sl)"

definition sync_inv ::
    "('q, 'v, 's) queue_ops \<Rightarrow> ('v \<Rightarrow> bool) \<Rightarrow> ('q \<Rightarrow> bool) \<Rightarrow> ('q \<Rightarrow> 's \<Rightarrow> bool) \<Rightarrow>
     'q sync_shared \<Rightarrow> (nat \<Rightarrow> ('v, 's) sync_pc) \<Rightarrow> bool" where
  "sync_inv ops good free held s pcs \<longleftrightarrow>
     aw_inv (dequeuer s) (\<lambda>t. aw_part t (pcs t)) \<and>
     wl_inv (enqueuers s) (\<lambda>t. wl_part t (pcs t)) \<and>
     queue_owned free held (sync_queue s) (pcs 0) \<and>
     (\<forall>t. pc_shape good (t = 0) (pcs t)) \<and>
     (\<forall>t. enq_safe ops s pcs t) \<and> deq_safe ops s pcs"

section \<open>Steps of one thread and the invariants of the others\<close>

lemma mode_waker_inject: "mode_waker m t = mode_waker m' u \<Longrightarrow> t = u"
  by (auto simp: mode_waker_def mode_cx_def Waker_new_def split: call_mode.splits)

text \<open>
  Thread \<open>t\<close> goes from \<open>pcs t\<close> to \<open>p\<close> and the shared state from \<open>s\<close> to \<open>s'\<close>:
  the other enqueuers stay safe if no signal but its own is taken, a waker leaves the list only for the
  signals, what may end a wait comes with a notification, and a notification that is dropped is owed to
  another thread.
\<close>

lemma enq_safe_frame:
  assumes "enq_safe ops s pcs u" and "u \<noteq> t" and "pc_shape good (u = 0) (pcs u)"
    and "\<And>m. mode_waker m u \<in> sync_signals s \<Longrightarrow> mode_waker m u \<in> sync_signals s'"
    and "\<And>w. w \<in> set (wl_wakers (enqueuers s)) \<Longrightarrow> w \<in> set (wl_wakers (enqueuers s')) \<or> w \<in> sync_signals s'"
    and "\<And>v. good v \<Longrightarrow> enqueue_blocks ops (sync_queue s) v \<Longrightarrow>
      enqueue_blocks ops (sync_queue s') v \<or> enq_notifier p"
    and "enq_notifier (pcs t) \<Longrightarrow> wl_wakers (enqueuers s') \<noteq> [] \<Longrightarrow>
      enq_notifier p \<or> (\<exists>u. u \<noteq> t \<and> enq_notifier (pcs u))"
  shows "enq_safe ops s' (pcs(t := p)) u"
  unfolding enq_safe_def
proof (intro allI impI)
  fix v m waiting
  let ?w = "mode_waker m u"
  assume "enq_registered ((pcs(t := p)) u) = Some (v, m, waiting)"
  then have reg: "enq_registered (pcs u) = Some (v, m, waiting)"
    using assms(2) by simp
  then have "good v"
    using assms(3) by (cases "pcs u") auto
  have one: "\<exists>u. enq_notifier ((pcs(t := p)) u)" if "enq_notifier p \<or> (\<exists>u. u \<noteq> t \<and> enq_notifier (pcs u))"
    using that by auto
  show "?w \<in> sync_signals s' \<or> (?w \<in> set (wl_wakers (enqueuers s')) \<and>
      (waiting \<and> \<not> enqueue_blocks ops (sync_queue s') v \<longrightarrow> (\<exists>u. enq_notifier ((pcs(t := p)) u))))"
  proof (cases "?w \<in> sync_signals s'")
    case False
    then have "?w \<notin> sync_signals s"
      using assms(4) by blast
    then have old: "?w \<in> set (wl_wakers (enqueuers s))"
      "waiting \<Longrightarrow> \<not> enqueue_blocks ops (sync_queue s) v \<Longrightarrow> \<exists>u. enq_notifier (pcs u)"
      using assms(1) reg by (auto simp: enq_safe_def)
    then have new: "?w \<in> set (wl_wakers (enqueuers s'))"
      using assms(5) False by blast
    then have "wl_wakers (enqueuers s') \<noteq> []"
      by auto
    then have keep: "(\<exists>u. enq_notifier (pcs u)) \<Longrightarrow> enq_notifier p \<or> (\<exists>u. u \<noteq> t \<and> enq_notifier (pcs u))"
      using assms(7) by metis
    have "\<exists>u. enq_notifier ((pcs(t := p)) u)" if "waiting" "\<not> enqueue_blocks ops (sync_queue s') v"
      using assms(6) [OF \<open>good v\<close>] old(2) keep one that by blast
    with new show ?thesis by blast
  qed blast
qed

lemma deq_safe_frame:
  assumes "deq_safe ops s pcs" and "t \<noteq> 0"
    and "\<And>m. mode_waker m 0 \<in> sync_signals s \<Longrightarrow> mode_waker m 0 \<in> sync_signals s'"
    and "\<And>w. slot_ready s w \<or> carries w (pcs t) \<Longrightarrow> slot_ready s' w \<or> carries w p \<or> w \<in> sync_signals s'"
    and "\<And>w. dequeue_blocks ops (sync_queue s) \<Longrightarrow> dequeue_blocks ops (sync_queue s') \<or> deq_notifier w p"
    and "\<And>w. deq_notifier w (pcs t) \<Longrightarrow> slot_ready s w \<or> (\<exists>u. carries w (pcs u)) \<Longrightarrow> deq_registered (pcs 0) \<noteq> None \<Longrightarrow>
      deq_notifier w p \<or> (\<exists>u. u \<noteq> t \<and> deq_notifier w (pcs u)) \<or> w \<in> sync_signals s'"
  shows "deq_safe ops s' (pcs(t := p))"
  unfolding deq_safe_def
proof (intro allI impI)
  fix m waiting
  let ?w = "mode_waker m 0"
  assume "deq_registered ((pcs(t := p)) 0) = Some (m, waiting)"
  then have reg: "deq_registered (pcs 0) = Some (m, waiting)"
    using assms(2) by simp
  show "?w \<in> sync_signals s' \<or> ((slot_ready s' ?w \<or> (\<exists>u. carries ?w ((pcs(t := p)) u))) \<and>
      (waiting \<and> \<not> dequeue_blocks ops (sync_queue s') \<longrightarrow> (\<exists>u. deq_notifier ?w ((pcs(t := p)) u))))"
  proof (cases "?w \<in> sync_signals s'")
    case False
    then have "?w \<notin> sync_signals s"
      using assms(3) by blast
    then have old: "slot_ready s ?w \<or> (\<exists>u. carries ?w (pcs u))"
      "waiting \<Longrightarrow> \<not> dequeue_blocks ops (sync_queue s) \<Longrightarrow> \<exists>u. deq_notifier ?w (pcs u)"
      using assms(1) reg by (auto simp: deq_safe_def)
    have "slot_ready s' ?w \<or> carries ?w p \<or> (\<exists>u. u \<noteq> t \<and> carries ?w (pcs u))"
      using old(1) assms(4) False by metis
    then have carry: "slot_ready s' ?w \<or> (\<exists>u. carries ?w ((pcs(t := p)) u))"
      by auto
    have "deq_notifier ?w p \<or> (\<exists>u. u \<noteq> t \<and> deq_notifier ?w (pcs u))"
      if "waiting" "\<not> dequeue_blocks ops (sync_queue s')"
      using assms(5) [of ?w] assms(6) [OF _ old(1)] old(2) reg that False by (metis option.distinct(1))
    then have "\<exists>u. deq_notifier ?w ((pcs(t := p)) u)" if "waiting" "\<not> dequeue_blocks ops (sync_queue s')"
      using that by auto
    with carry show ?thesis by blast
  qed blast
qed

lemma part_upd:
  "(\<lambda>u. aw_part u ((pcs(t := p)) u)) = (\<lambda>u. aw_part u (pcs u))(t := aw_part t p)"
  "(\<lambda>u. wl_part u ((pcs(t := p)) u)) = (\<lambda>u. wl_part u (pcs u))(t := wl_part t p)"
  by (simp_all add: fun_eq_iff)

lemma carries_part: "carries w p = aw_carries w (aw_part t p)"
  by (cases "(w, p)" rule: carries.cases) simp_all

lemma deq_notifier_part: "deq_notifier w p = aw_delivers w (aw_part t p)"
  by (cases "(w, p)" rule: deq_notifier.cases) simp_all

lemma idle_parts:
  assumes "aw_part t p = Aw_Idle" and "wl_part t p = Wl_Idle"
  shows "\<not> enq_notifier p" and "\<not> carries w p" and "\<not> deq_notifier w p"
  using assms by (cases p; simp)+

lemma draining_notifier: "wl_draining (wl_part t p) \<Longrightarrow> enq_notifier p"
  by (cases p) simp_all

lemma enq_safe_none: "enq_registered (pcs t) = None \<Longrightarrow> enq_safe ops s pcs t"
  by (simp add: enq_safe_def)

lemma deq_safe_none: "deq_registered (pcs 0) = None \<Longrightarrow> deq_safe ops s pcs"
  by (simp add: deq_safe_def)

lemma sync_invD:
  assumes "sync_inv ops good free held s pcs"
  shows "aw_inv (dequeuer s) (\<lambda>t. aw_part t (pcs t))" and "wl_inv (enqueuers s) (\<lambda>t. wl_part t (pcs t))"
    and "queue_owned free held (sync_queue s) (pcs 0)" and "pc_shape good (t = 0) (pcs t)"
    and "enq_safe ops s pcs t" and "deq_safe ops s pcs"
  using assms by (simp_all add: sync_inv_def)

lemma sync_inv_update:
  assumes "sync_inv ops good free held s pcs"
    and "aw_inv (dequeuer s') ((\<lambda>u. aw_part u (pcs u))(t := aw_part t p))"
    and "wl_inv (enqueuers s') ((\<lambda>u. wl_part u (pcs u))(t := wl_part t p))"
    and "queue_owned free held (sync_queue s') ((pcs(t := p)) 0)" and "pc_shape good (t = 0) p"
    and "\<And>u. u \<noteq> t \<Longrightarrow> enq_safe ops s' (pcs(t := p)) u" and "enq_safe ops s' (pcs(t := p)) t"
    and "deq_safe ops s' (pcs(t := p))"
  shows "sync_inv ops good free held s' (pcs(t := p))"
proof -
  have "enq_safe ops s' (pcs(t := p)) u" for u
    using assms(6,7) by (cases "u = t") simp_all
  moreover have "pc_shape good (u = 0) ((pcs(t := p)) u)" for u
    using assms(5) sync_invD(4) [OF assms(1), of u] by simp
  ultimately show ?thesis
    unfolding sync_inv_def part_upd using assms(2-4,8) by blast
qed

end
