(* ===== verification/Synchronized_Safety.thy ===== *)
theory Synchronized_Safety
  imports Synchronized_Invariant
begin

text \<open>
  Every step of \<open>Synchronized\<close> keeps the invariant of \<open>Synchronized_Invariant\<close> and ends without a
  fault; when no thread can go on by itself, every thread that waits is one whose call would fail now.
\<close>

section \<open>Steps outside the wakers\<close>

definition sync_keeps ::
    "('q sync_shared \<Rightarrow> (nat \<Rightarrow> ('v, 's) sync_pc) \<Rightarrow> bool) \<Rightarrow> (nat \<Rightarrow> ('v, 's) sync_pc) \<Rightarrow> nat \<Rightarrow>
     ('q, 'v, 's) sync_outcome \<Rightarrow> bool" where
  "sync_keeps P pcs t r \<longleftrightarrow> (\<exists>s' p ev. r = Inr (s', p, ev) \<and> P s' (pcs(t := p)))"

lemma sync_keeps_Inr [simp]: "sync_keeps P pcs t (Inr (s', p, ev)) \<longleftrightarrow> P s' (pcs(t := p))"
  by (simp add: sync_keeps_def)

lemma notify_enqueue_None:
  "notify_enqueue_step t s p k = None \<longleftrightarrow> p = LWake_Done \<or> p = LWake_Lock \<and> wl_lock (enqueuers s) \<noteq> None"
  by (cases p) (auto simp: notify_enqueue_step_def split: list.splits prod.splits)

lemma register_enqueuer_None:
  "register_enqueuer_step t s p v m = None \<longleftrightarrow> p = LReg_Done \<or> p = LReg_Lock \<and> wl_lock (enqueuers s) \<noteq> None"
  by (cases p) (auto simp: register_enqueuer_step_def)

context notifying_queue
begin

abbreviation inv :: "'q sync_shared \<Rightarrow> (nat \<Rightarrow> ('v, 's) sync_pc) \<Rightarrow> bool" where
  "inv \<equiv> sync_inv ops good free held"

text \<open>A step that is outside the wakers: it may change the queue and take the thread's own signal.\<close>

lemma queue_step:
  assumes inv: "inv s pcs" and idle: "aw_part t (pcs t) = Aw_Idle" "wl_part t (pcs t) = Wl_Idle"
    and entry: "aw_entry (aw_part t p)" "wl_entry (wl_part t p)"
    and same: "dequeuer s' = dequeuer s" "enqueuers s' = enqueuers s"
    and sig: "sync_signals s' = sync_signals s \<or> (\<exists>m. sync_signals s' = sync_signals s - {mode_waker m t})"
    and own: "queue_owned free held (sync_queue s') ((pcs(t := p)) 0)" and shape: "pc_shape good (t = 0) p"
    and full: "\<And>v. good v \<Longrightarrow> enqueue_blocks ops (sync_queue s) v \<Longrightarrow>
      enqueue_blocks ops (sync_queue s') v \<or> enq_notifier p"
    and emp: "\<And>w. t \<noteq> 0 \<Longrightarrow> dequeue_blocks ops (sync_queue s) \<Longrightarrow>
      dequeue_blocks ops (sync_queue s') \<or> deq_notifier w p"
    and enq: "enq_safe ops s' (pcs(t := p)) t" and deq: "t = 0 \<Longrightarrow> deq_safe ops s' (pcs(t := p))"
  shows "inv s' (pcs(t := p))"
proof -
  note d = sync_invD [OF inv] and np = idle_parts [OF idle]
  have sg: "mode_waker m u \<in> sync_signals s \<Longrightarrow> mode_waker m u \<in> sync_signals s'" if "u \<noteq> t" for m u
    using sig that mode_waker_inject by blast
  show ?thesis
  proof (rule sync_inv_update [OF inv _ _ own shape _ enq])
    show "aw_inv (dequeuer s') ((\<lambda>u. aw_part u (pcs u))(t := aw_part t p))"
      unfolding same by (rule aw_entry_move [OF d(1) _ entry(1)]) (simp add: idle aw_owns_def)
    show "wl_inv (enqueuers s') ((\<lambda>u. wl_part u (pcs u))(t := wl_part t p))"
      unfolding same by (rule wl_entry_move [OF d(2) _ _ entry(2)]) (simp_all add: idle)
    show "enq_safe ops s' (pcs(t := p)) u" if "u \<noteq> t" for u
      by (rule enq_safe_frame [OF d(5) that d(4) sg]) (use that full np in \<open>auto simp: same\<close>)
    show "deq_safe ops s' (pcs(t := p))"
    proof (cases "t = 0")
      case False
      show ?thesis
        by (rule deq_safe_frame [OF d(6) False sg])
          (use False emp np in \<open>auto simp: same slot_ready_def\<close>)
    qed (rule deq)
  qed
qed


abbreviation keeps :: "(nat \<Rightarrow> ('v, 's) sync_pc) \<Rightarrow> nat \<Rightarrow> ('q, 'v, 's) sync_outcome \<Rightarrow> bool" where
  "keeps \<equiv> sync_keeps inv"

lemma owned_keep:
  assumes "queue_owned free held q p" and "slice_of p' = slice_of p"
    and "free q \<Longrightarrow> free q'" and "\<And>sl. slice_of p = Some sl \<Longrightarrow> held q sl \<Longrightarrow> held q' sl"
  shows "queue_owned free held q' p'"
  using assms by (auto simp: queue_owned_def split: option.splits)

lemma enqueue_attempt_keeps:
  assumes inv: "inv s pcs" and idle: "aw_part t (pcs t) = Aw_Idle" "wl_part t (pcs t) = Wl_Idle"
    and sl: "slice_of (pcs t) = None" and v: "good v"
    and again: "\<And>p. again = Some p \<Longrightarrow> aw_part t p = Aw_Idle \<and> wl_entry (wl_part t p) \<and> pc_shape good (t = 0) p \<and>
      slice_of p = None \<and> deq_registered p = None \<and>
      (enq_registered p = None \<or>
       (\<exists>m. enq_registered p = Some (v, m, True) \<and> enq_registered (pcs t) = Some (v, m, False)))"
  shows "keeps pcs t (enqueue_attempt ops sp s v again)"
proof -
  note d = sync_invD [OF inv]
  let ?q = "sync_queue s"
  have "free ?q \<or> held ?q (the (slice_of (pcs 0)))"
    using d(3) by (auto simp: queue_owned_def split: option.splits)
  from enqueue_law [OF this v, of sp] obtain r notified q' where
    op: "op_enqueue ops sp ?q v = Inr (r, notified, q')" and own: "free ?q \<longrightarrow> free q'"
      "held ?q (the (slice_of (pcs 0))) \<longrightarrow> held q' (the (slice_of (pcs 0)))"
    and wakes: "notified \<or> q' = ?q" and waits: "enqueue_waits ops q' r \<longrightarrow> \<not> notified \<and> enqueue_blocks ops ?q v"
    and full: "\<forall>u. good u \<longrightarrow> enqueue_blocks ops ?q u \<longrightarrow> enqueue_blocks ops q' u"
    by blast
  have owned: "queue_owned free held q' ((pcs(t := p)) 0)" if "slice_of p = None" for p
    by (rule owned_keep [OF d(3)]) (use own sl that in auto)
  let ?s = "s\<lparr>sync_queue := q'\<rparr>"
  show ?thesis
  proof (cases "enqueue_waits ops q' r \<and> again \<noteq> None")
    case True
    then obtain p where p: "again = Some p"
      by blast
    have q': "q' = ?q"
      using True waits wakes by blast
    have "enq_safe ops ?s (pcs(t := p)) t"
      using again [OF p] d(5) [of t] True waits by (auto simp: enq_safe_def q')
    moreover have "deq_safe ops ?s (pcs(t := p))" if "t = 0"
      using again [OF p] that by (simp add: deq_safe_none)
    ultimately have "inv ?s (pcs(t := p))"
      using again [OF p] owned by (intro queue_step [OF inv idle]) (auto simp: q' aw_entry_def)
    then show ?thesis
      using True p by (simp add: enqueue_attempt_def op)
  next
    case False
    let ?p = "if notified then Notify_Dequeue Wake_Begin Sync_Idle else Sync_Idle"
    have "inv ?s (pcs(t := ?p))"
      using owned full wakes
      by (intro queue_step [OF inv idle]) (auto simp: aw_entry_def wl_entry_def intro: enq_safe_none deq_safe_none)
    moreover have "enqueue_attempt ops sp s v again = Inr (?s, ?p, Enqueue_Returns r)"
      using False by (auto simp: enqueue_attempt_def op split: option.split bool.split)
    ultimately show ?thesis by simp
  qed
qed

lemma dequeue_failure_ok: "m = Sync_Call True \<or> \<not> dequeue_waits (Inl e) \<Longrightarrow> \<exists>ev. dequeue_failure m e = Inr ev"
  by (cases e) (auto simp: dequeue_failure_def dequeue_waits_def split: call_mode.splits bool.splits)

lemma dequeue_attempt_keeps:
  assumes inv: "inv s pcs" and idle: "aw_part 0 (pcs 0) = Aw_Idle" "wl_part 0 (pcs 0) = Wl_Idle"
    and sl: "slice_of (pcs 0) = None" and last: "again = None \<Longrightarrow> m = Sync_Call True"
    and again: "\<And>p. again = Some p \<Longrightarrow> aw_entry (aw_part 0 p) \<and> wl_part 0 p = Wl_Idle \<and> pc_shape good True p \<and>
      slice_of p = None \<and> enq_registered p = None \<and>
      (deq_registered p = None \<or>
       (\<exists>m. deq_registered p = Some (m, True) \<and> deq_registered (pcs 0) = Some (m, False)))"
  shows "keeps pcs 0 (dequeue_attempt ops sp s m again)"
proof -
  note d = sync_invD [OF inv]
  let ?q = "sync_queue s"
  have free: "free ?q"
    using d(3) sl by (simp add: queue_owned_def)
  from dequeue_law [OF this, of sp] obtain r notified q' where
    op: "op_dequeue ops sp ?q = Inr (r, notified, q')"
    and res: "case r of Inl e \<Rightarrow> q' = ?q \<and> \<not> notified \<and> (dequeue_waits r \<longrightarrow> dequeue_blocks ops ?q) | Inr sl \<Rightarrow> held q' sl"
    and full: "notified \<or> (\<forall>u. good u \<longrightarrow> enqueue_blocks ops ?q u \<longrightarrow> enqueue_blocks ops q' u)"
    by blast
  show ?thesis
  proof (cases r)
    case (Inl e)
    then have q': "q' = ?q" and n: "\<not> notified" and blocks: "dequeue_waits r \<Longrightarrow> dequeue_blocks ops ?q"
      using res by auto
    have s: "s\<lparr>sync_queue := q'\<rparr> = s"
      by (simp add: q')
    show ?thesis
    proof (cases "dequeue_waits r \<and> again \<noteq> None")
      case True
      then obtain p where p: "again = Some p"
        by blast
      have "deq_safe ops s (pcs(0 := p))"
        using again [OF p] d(6) True blocks idle_parts(2) [OF idle] unfolding deq_safe_def
        by (auto split: if_splits) metis+
      then have "inv s (pcs(0 := p))"
        using again [OF p] free
        by (intro queue_step [OF inv idle]) (auto simp: wl_entry_def queue_owned_def intro: enq_safe_none)
      then show ?thesis
        using True p n by (simp add: dequeue_attempt_def op s)
    next
      case False
      then obtain ev :: "('v, 's) sync_event" where "dequeue_failure m e = Inr ev"
        using dequeue_failure_ok [of m e] last Inl by auto
      moreover have "inv s (pcs(0 := Sync_Idle))"
        using free
        by (intro queue_step [OF inv idle])
          (auto simp: wl_entry_def aw_entry_def queue_owned_def intro: enq_safe_none deq_safe_none)
      ultimately show ?thesis
        using False Inl n by (auto simp: dequeue_attempt_def op s split: option.split bool.split)
    qed
  next
    case (Inr sl)
    let ?s = "s\<lparr>sync_queue := q'\<rparr>"
    let ?p = "if notified then Notify_Enqueue LWake_Load (Sync_Holding sl) else Sync_Holding sl"
    have "inv ?s (pcs(0 := ?p))"
      using res full Inr
      by (intro queue_step [OF inv idle])
        (auto simp: wl_entry_def aw_entry_def queue_owned_def intro: enq_safe_none deq_safe_none)
    moreover have "dequeue_attempt ops sp s m again = Inr (?s, ?p, Dequeue_Returns sl)"
      using Inr by (simp add: dequeue_attempt_def op dequeue_waits_def)
    ultimately show ?thesis by simp
  qed
qed


lemma local_keeps:
  assumes inv: "inv s pcs" and idle: "aw_part t (pcs t) = Aw_Idle" "wl_part t (pcs t) = Wl_Idle"
    and entry: "aw_entry (aw_part t p)" "wl_entry (wl_part t p)" and shape: "pc_shape good (t = 0) p"
    and sl: "slice_of p = slice_of (pcs t)"
    and reg: "enq_registered p = None \<or> enq_registered p = enq_registered (pcs t)"
      "deq_registered p = None \<or> deq_registered p = deq_registered (pcs t)"
  shows "inv s (pcs(t := p))"
proof (rule queue_step [OF inv idle entry _ _ _ _ shape])
  note d = sync_invD [OF inv] and np = idle_parts [OF idle]
  show "queue_owned free held (sync_queue s) ((pcs(t := p)) 0)"
    by (rule owned_keep [OF d(3)]) (use sl in auto)
  have "\<exists>u. enq_notifier ((pcs(t := p)) u)" if "\<exists>u. enq_notifier (pcs u)"
    using that np(1) by (metis fun_upd_other)
  then show "enq_safe ops s (pcs(t := p)) t"
    using d(5) [of t] reg(1) unfolding enq_safe_def by (metis fun_upd_same option.distinct(1))
  have "\<exists>u. carries w ((pcs(t := p)) u)" if "\<exists>u. carries w (pcs u)" for w
    using that np(2) by (metis fun_upd_other)
  moreover have "\<exists>u. deq_notifier w ((pcs(t := p)) u)" if "\<exists>u. deq_notifier w (pcs u)" for w
    using that np(3) by (metis fun_upd_other)
  moreover assume "t = 0"
  ultimately show "deq_safe ops s (pcs(t := p))"
    using d(6) reg(2) unfolding deq_safe_def by (metis fun_upd_same option.distinct(1))
qed auto

lemma start_keeps:
  assumes inv: "inv s pcs" and pc: "pcs t = Sync_Idle" and ok: "sync_allowed good t (Call c)"
  shows "keeps pcs t (sync_start ops s c)"
proof -
  note d = sync_invD [OF inv]
  have idle: "aw_part t (pcs t) = Aw_Idle" "wl_part t (pcs t) = Wl_Idle"
    using pc by simp_all
  note easy = local_keeps [OF inv idle]
  show ?thesis
  proof (cases c)
    case Call_Close
    let ?s = "s\<lparr>sync_queue := op_close ops (sync_queue s)\<rparr>"
    let ?p = "Notify_Dequeue Wake_Begin (Notify_Enqueue LWake_Load Sync_Idle)"
    have "queue_owned free held (sync_queue ?s) ((pcs(t := ?p)) 0)"
      by (rule owned_keep [OF d(3)]) (use pc close_law in auto)
    then have "inv ?s (pcs(t := ?p))"
      by (intro queue_step [OF inv idle]) (auto simp: wl_entry_def aw_entry_def intro: enq_safe_none deq_safe_none)
    then show ?thesis
      by (simp add: Call_Close)
  next
    case Call_Reopen
    let ?s = "s\<lparr>sync_queue := op_reopen ops (sync_queue s)\<rparr>"
    have "free (sync_queue s) \<or> held (sync_queue s) (the (slice_of (pcs 0)))"
      using d(3) by (auto simp: queue_owned_def split: option.splits)
    note reopen = reopen_law [OF this]
    have "queue_owned free held (sync_queue ?s) ((pcs(t := Sync_Idle)) 0)"
      by (rule owned_keep [OF d(3)]) (use pc reopen in auto)
    then have "inv ?s (pcs(t := Sync_Idle))"
      using reopen
      by (intro queue_step [OF inv idle]) (auto simp: wl_entry_def aw_entry_def intro: enq_safe_none deq_safe_none)
    then show ?thesis
      by (simp add: Call_Reopen)
  qed (use ok pc easy in \<open>auto simp: sync_allowed_def aw_entry_def wl_entry_def\<close>)
qed

lemma wait_keeps:
  assumes inv: "inv s pcs" and pc: "(\<exists>v. pcs t = Enq_Park v m \<and> p = Enq_Try SPIN_LIMIT v m) \<or>
      pcs t = Deq_Park m \<and> p = Deq_Try SPIN_LIMIT m"
    and step: "wait_step t m b s p = Some r"
  shows "keeps pcs t r"
proof -
  let ?s = "s\<lparr>sync_signals := sync_signals s - {mode_waker m t}\<rparr>"
  note d = sync_invD [OF inv]
  have r: "r = Inr (?s, p, Sync_Tau)"
    using step by (auto simp: wait_step_def split: if_splits)
  have idle: "aw_part t (pcs t) = Aw_Idle" "wl_part t (pcs t) = Wl_Idle"
    using pc by auto
  have "queue_owned free held (sync_queue s) ((pcs(t := p)) 0)"
    by (rule owned_keep [OF d(3)]) (use pc in auto)
  then have "inv ?s (pcs(t := p))"
    using pc d(4) [of t]
    by (intro queue_step [OF inv idle])
      (auto simp: wl_entry_def aw_entry_def intro: enq_safe_none deq_safe_none)
  then show ?thesis
    using r by simp
qed

lemma give_back_keeps:
  assumes inv: "inv s pcs" and pc: "pcs t = Sync_Holding sl"
    and given: "held (sync_queue s) sl \<Longrightarrow> \<exists>q'. r = Inr q' \<and> free q' \<and>
      (\<forall>u. good u \<longrightarrow> enqueue_blocks ops (sync_queue s) u \<longrightarrow> enqueue_blocks ops q' u)"
  shows "keeps pcs t (and_then r (\<lambda>q. Inr (s\<lparr>sync_queue := q\<rparr>, Sync_Idle, Sync_Tau)))"
proof -
  note d = sync_invD [OF inv]
  have t: "t = 0"
    using d(4) [of t] pc by simp
  have "held (sync_queue s) sl"
    using d(3) pc t by (simp add: queue_owned_def)
  from given [OF this] obtain q' where q': "r = Inr q'" "free q'"
    "\<forall>u. good u \<longrightarrow> enqueue_blocks ops (sync_queue s) u \<longrightarrow> enqueue_blocks ops q' u"
    by blast
  have "inv (s\<lparr>sync_queue := q'\<rparr>) (pcs(t := Sync_Idle))"
    using q' pc t
    by (intro queue_step [OF inv])
      (auto simp: wl_entry_def aw_entry_def queue_owned_def intro: enq_safe_none deq_safe_none)
  then show ?thesis
    using q'(1) by auto
qed


text \<open>The steps inside the wakers.\<close>

lemma register_enqueuer_keeps:
  assumes inv: "inv s pcs" and pc: "pcs t = Enq_Register p v m"
    and step: "register_enqueuer_step t s p v m = Some r"
  shows "keeps pcs t r"
proof -
  note d = sync_invD [OF inv]
  from step obtain p' l where reg: "WakerList_register t (mode_cx m t) p (enqueuers s) = Some (p', l)"
    and r: "r = Inr (s\<lparr>enqueuers := l\<rparr>, if p' = LReg_Done then Enq_Retry v m else Enq_Register p' v m, Sync_Tau)"
    by (auto simp: register_enqueuer_step_def split: option.splits)
  let ?s = "s\<lparr>enqueuers := l\<rparr>" and ?p = "if p' = LReg_Done then Enq_Retry v m else Enq_Register p' v m"
  have grow: "set (wl_wakers (enqueuers s)) \<subseteq> set (wl_wakers l)"
    and mine: "p' = LReg_Done \<Longrightarrow> mode_waker m t \<in> set (wl_wakers l)"
    using reg by (cases p; auto simp: mode_waker_def split: if_splits)+
  have "wl_inv l ((\<lambda>u. wl_part u (pcs u))(t := Wl_Reg (mode_cx m t) p'))"
    by (rule wl_register_step [OF d(2) _ reg]) (simp add: pc)
  with wl_entry_move [OF this, of t Wl_Idle]
  have wl: "wl_inv l ((\<lambda>u. wl_part u (pcs u))(t := wl_part t ?p))"
    by (auto simp: wl_entry_def)
  have "inv ?s (pcs(t := ?p))"
  proof (rule sync_inv_update [OF inv])
    show "aw_inv (dequeuer ?s) ((\<lambda>u. aw_part u (pcs u))(t := aw_part t ?p))"
      using d(1) by (intro aw_entry_move) (auto simp: pc aw_owns_def aw_entry_def)
    show "wl_inv (enqueuers ?s) ((\<lambda>u. wl_part u (pcs u))(t := wl_part t ?p))"
      using wl by simp
    show "queue_owned free held (sync_queue ?s) ((pcs(t := ?p)) 0)"
      by (rule owned_keep [OF d(3)]) (use pc in auto)
    show "pc_shape good (t = 0) ?p"
      using d(4) [of t] pc by auto
    show "enq_safe ops ?s (pcs(t := ?p)) t"
      using mine by (auto simp: enq_safe_def)
    show "enq_safe ops ?s (pcs(t := ?p)) u" if "u \<noteq> t" for u
      by (rule enq_safe_frame [OF d(5) that d(4)]) (use pc grow in auto)
    show "deq_safe ops ?s (pcs(t := ?p))"
    proof (cases "t = 0")
      case False
      show ?thesis
        by (rule deq_safe_frame [OF d(6) False]) (use pc in \<open>auto simp: slot_ready_def\<close>)
    qed (simp add: deq_safe_none)
  qed
  then show ?thesis
    using r by simp
qed

lemma notify_enqueue_keeps:
  assumes inv: "inv s pcs" and pc: "pcs t = Notify_Enqueue p k"
    and step: "notify_enqueue_step t s p k = Some r"
  shows "keeps pcs t r"
proof -
  note d = sync_invD [OF inv]
  have k: "k = Sync_Idle \<or> t = 0 \<and> (\<exists>sl. k = Sync_Holding sl)"
    using d(4) [of t] pc by auto
  from step obtain p' l sg where wake: "WakerList_wake t p (enqueuers s) (sync_signals s) = Some (p', l, sg)"
    and r: "r = Inr (s\<lparr>enqueuers := l, sync_signals := sg\<rparr>, if p' = LWake_Done then k else Notify_Enqueue p' k, Sync_Tau)"
    by (auto simp: notify_enqueue_step_def split: option.splits)
  let ?s = "s\<lparr>enqueuers := l, sync_signals := sg\<rparr>" and ?p = "if p' = LWake_Done then k else Notify_Enqueue p' k"
  have sg: "sync_signals s \<subseteq> sg"
    and moved: "set (wl_wakers (enqueuers s)) \<subseteq> set (wl_wakers l) \<union> sg"
    using wake by (cases p; auto simp: Waker_wake_eq split: if_splits list.splits)+
  have "\<exists>u. u \<noteq> t \<and> wl_draining (wl_part u (pcs u))" if "p' = LWake_Done" "wl_wakers l \<noteq> []"
    using wake that wl_flag(1) [OF d(2), of t] pc by (cases p) (auto split: if_splits list.splits)
  then have owed: "\<exists>u. u \<noteq> t \<and> enq_notifier (pcs u)" if "p' = LWake_Done" "wl_wakers l \<noteq> []"
    using that draining_notifier by blast
  have "wl_inv l ((\<lambda>u. wl_part u (pcs u))(t := Wl_Wake p'))"
    by (rule wl_wake_step [OF d(2) _ wake]) (simp add: pc)
  with wl_entry_move [OF this, of t Wl_Idle] k
  have wl: "wl_inv l ((\<lambda>u. wl_part u (pcs u))(t := wl_part t ?p))"
    by (auto simp: wl_entry_def)
  have "inv ?s (pcs(t := ?p))"
  proof (rule sync_inv_update [OF inv])
    show "aw_inv (dequeuer ?s) ((\<lambda>u. aw_part u (pcs u))(t := aw_part t ?p))"
      using d(1) k by (intro aw_entry_move) (auto simp: pc aw_owns_def aw_entry_def)
    show "wl_inv (enqueuers ?s) ((\<lambda>u. wl_part u (pcs u))(t := wl_part t ?p))"
      using wl by simp
    show "queue_owned free held (sync_queue ?s) ((pcs(t := ?p)) 0)"
      by (rule owned_keep [OF d(3)]) (use pc k in auto)
    show "pc_shape good (t = 0) ?p"
      using d(4) [of t] pc k by auto
    show "enq_safe ops ?s (pcs(t := ?p)) t"
      using k by (auto intro: enq_safe_none)
    show "enq_safe ops ?s (pcs(t := ?p)) u" if "u \<noteq> t" for u
      by (rule enq_safe_frame [OF d(5) that d(4)]) (use pc sg moved owed in auto)
    show "deq_safe ops ?s (pcs(t := ?p))"
    proof (cases "t = 0")
      case False
      show ?thesis
        by (rule deq_safe_frame [OF d(6) False]) (use pc sg in \<open>auto simp: slot_ready_def\<close>)
    qed (use k in \<open>auto intro: deq_safe_none\<close>)
  qed
  then show ?thesis
    using r by simp
qed


text \<open>Only the consumer registers in the \<open>AtomicWaker\<close>.\<close>

lemma registers_alone: "inv s pcs \<Longrightarrow> aw_part u (pcs u) = Aw_Reg cx p \<Longrightarrow> u = 0 \<and> deq_registered (pcs 0) = None"
  using sync_invD(4) [of ops good free held s pcs u] by (cases "pcs u") auto

lemma register_dequeuer_keeps:
  assumes inv: "inv s pcs" and pc: "pcs t = Deq_Register p m"
  shows "keeps pcs t (register_dequeuer_step t s p m)"
proof -
  note d = sync_invD [OF inv]
  let ?cx = "mode_cx m t"
  have t: "t = 0" and p: "p \<noteq> Reg_Done"
    using d(4) [of t] pc by simp_all
  obtain p' w sg where reg: "AtomicWaker_register t ?cx p (dequeuer s) (sync_signals s) = Inr (p', w, sg)"
    and aw: "aw_inv w ((\<lambda>u. aw_part u (pcs u))(t := Aw_Reg ?cx p'))"
    using aw_register_step [OF d(1), of t ?cx p "sync_signals s"] pc by auto
  let ?s = "s\<lparr>dequeuer := w, sync_signals := sg\<rparr>" and ?p = "if p' = Reg_Done then Deq_Retry m else Deq_Register p' m"
  note sg = aw_register_signals [OF reg]
  have "u = t" if "aw_part u (pcs u) = Aw_Reg cx r" for u cx r
    using registers_alone [OF inv that] t by simp
  then have ready: "slot_ready ?s (mode_waker m 0) \<or> mode_waker m 0 \<in> sg" if "p' = Reg_Done"
    using aw_register_ready [OF d(1), of t ?cx p "sync_signals s" w sg] reg p pc t that
    by (auto simp: slot_ready_def mode_waker_def)
  have aw: "aw_inv w ((\<lambda>u. aw_part u (pcs u))(t := aw_part t ?p))"
    using aw aw_entry_move [OF aw, of t Aw_Idle] by (auto simp: aw_owns_def aw_entry_def)
  have "inv ?s (pcs(t := ?p))"
  proof (rule sync_inv_update [OF inv])
    show "aw_inv (dequeuer ?s) ((\<lambda>u. aw_part u (pcs u))(t := aw_part t ?p))"
      using aw by simp
    show "wl_inv (enqueuers ?s) ((\<lambda>u. wl_part u (pcs u))(t := wl_part t ?p))"
      using d(2) by (intro wl_entry_move) (auto simp: pc wl_entry_def)
    show "queue_owned free held (sync_queue ?s) ((pcs(t := ?p)) 0)"
      by (rule owned_keep [OF d(3)]) (use pc in auto)
    show "pc_shape good (t = 0) ?p"
      using t by auto
    show "enq_safe ops ?s (pcs(t := ?p)) t"
      by (auto intro: enq_safe_none)
    show "enq_safe ops ?s (pcs(t := ?p)) u" if "u \<noteq> t" for u
      by (rule enq_safe_frame [OF d(5) that d(4)]) (use pc sg in auto)
    show "deq_safe ops ?s (pcs(t := ?p))"
      using ready by (auto simp: deq_safe_def t)
  qed
  then show ?thesis
    by (simp add: register_dequeuer_step_def reg)
qed


lemma notify_dequeue_keeps:
  assumes inv: "inv s pcs" and pc: "pcs t = Notify_Dequeue p k"
  shows "keeps pcs t (notify_dequeue_step s p k)"
proof -
  note d = sync_invD [OF inv]
  have k: "k = Sync_Idle \<or> k = Notify_Enqueue LWake_Load Sync_Idle"
    using d(4) [of t] pc by simp
  obtain p' w sg where wake: "AtomicWaker_wake p (dequeuer s) (sync_signals s) = Inr (p', w, sg)"
    and aw: "aw_inv w ((\<lambda>u. aw_part u (pcs u))(t := Aw_Wake p'))"
    using aw_wake_step [OF d(1), of t p "sync_signals s"] pc by auto
  let ?s = "s\<lparr>dequeuer := w, sync_signals := sg\<rparr>" and ?p = "if p' = Wake_Done then k else Notify_Dequeue p' k"
  note sg = aw_wake_signals [OF wake]
  have act: "aw_part t (pcs t) = Aw_Wake p"
    by (simp add: pc)
  have fin: "aw_carries x (aw_part t ?p) = aw_carries x (Aw_Wake p')"
      "aw_delivers x (aw_part t ?p) = aw_delivers x (Aw_Wake p')" for x
    using k by auto
  have aw: "aw_inv w ((\<lambda>u. aw_part u (pcs u))(t := aw_part t ?p))"
    using aw aw_entry_move [OF aw, of t Aw_Idle] k by (auto simp: aw_owns_def aw_entry_def)
  have "inv ?s (pcs(t := ?p))"
  proof (rule sync_inv_update [OF inv])
    show "aw_inv (dequeuer ?s) ((\<lambda>u. aw_part u (pcs u))(t := aw_part t ?p))"
      using aw by simp
    show "wl_inv (enqueuers ?s) ((\<lambda>u. wl_part u (pcs u))(t := wl_part t ?p))"
      using d(2) k by (intro wl_entry_move) (auto simp: pc wl_entry_def)
    show "queue_owned free held (sync_queue ?s) ((pcs(t := ?p)) 0)"
      by (rule owned_keep [OF d(3)]) (use pc k in auto)
    show "pc_shape good (t = 0) ?p"
      using d(4) [of t] pc k by auto
    show "enq_safe ops ?s (pcs(t := ?p)) t"
      using k by (auto intro: enq_safe_none)
    show "enq_safe ops ?s (pcs(t := ?p)) u" if "u \<noteq> t" for u
      by (rule enq_safe_frame [OF d(5) that d(4)]) (use pc sg k in auto)
    show "deq_safe ops ?s (pcs(t := ?p))"
    proof (cases "t = 0")
      case False
      then show ?thesis
      proof (rule deq_safe_frame [OF d(6)])
        fix x
        show "slot_ready ?s x \<or> carries x ?p \<or> x \<in> sync_signals ?s" if "slot_ready s x \<or> carries x (pcs t)"
          using aw_wake_keeps [OF d(1) act wake] that
          unfolding slot_ready_def carries_part [of _ _ t] fin act by simp
        show "deq_notifier x ?p \<or> (\<exists>u. u \<noteq> t \<and> deq_notifier x (pcs u)) \<or> x \<in> sync_signals ?s"
          if "deq_notifier x (pcs t)" "slot_ready s x \<or> (\<exists>u. carries x (pcs u))" "deq_registered (pcs 0) \<noteq> None"
        proof -
          have "aw_delivers x (Aw_Wake p)"
            using that(1) deq_notifier_part [of x "pcs t" t] act by simp
          moreover have "aw_ready (dequeuer s) x \<or> (\<exists>u. aw_carries x (aw_part u (pcs u)))"
            using that(2) unfolding slot_ready_def by (metis carries_part)
          moreover have "\<forall>u cx p. aw_part u (pcs u) = Aw_Reg cx p \<longrightarrow> p = Reg_Begin"
            using registers_alone [OF inv] that(3) by metis
          ultimately have "aw_delivers x (Aw_Wake p') \<or> (\<exists>u. u \<noteq> t \<and> aw_delivers x (aw_part u (pcs u))) \<or> x \<in> sg"
            by (rule aw_wake_delivers [OF d(1) act wake])
          then show ?thesis
            unfolding fin(2) [symmetric] deq_notifier_part [symmetric] by simp
        qed
      qed (use sg in auto)
    qed (use k in \<open>auto intro: deq_safe_none\<close>)
  qed
  then show ?thesis
    by (simp add: notify_dequeue_step_def wake)
qed

lemma run_keeps:
  assumes inv: "inv s pcs" and step: "sync_run ops t sp b s (pcs t) = Some r"
  shows "keeps pcs t r"
proof (cases "pcs t")
  case (Enq_Try k v m)
  then show ?thesis
    using step sync_invD(4) [OF inv, of t]
    by (cases k) (auto simp: aw_entry_def wl_entry_def intro!: enqueue_attempt_keeps local_keeps inv)
next
  case (Enq_Retry v m)
  then show ?thesis
    using step sync_invD(4) [OF inv, of t]
    by (auto simp: wl_entry_def after_retry_def intro!: enqueue_attempt_keeps inv split: call_mode.splits)
next
  case (Enq_Until v m)
  then show ?thesis
    using step sync_invD(4) [OF inv, of t] by (auto simp: aw_entry_def wl_entry_def enqueue_sync_def dequeue_sync_def intro!: local_keeps inv)
next
  case (Enq_Last v)
  then show ?thesis
    using step sync_invD(4) [OF inv, of t] by (auto intro!: enqueue_attempt_keeps inv)
next
  case (Deq_Try k m)
  then have "t = 0"
    using sync_invD(4) [OF inv, of t] by simp
  then show ?thesis
    using step Deq_Try
    by (cases k) (auto simp: aw_entry_def wl_entry_def intro!: dequeue_attempt_keeps local_keeps inv)
next
  case (Deq_Retry m)
  then have "t = 0"
    using sync_invD(4) [OF inv, of t] by simp
  then show ?thesis
    using step Deq_Retry
    by (auto simp: aw_entry_def after_retry_def intro!: dequeue_attempt_keeps inv split: call_mode.splits)
next
  case (Deq_Until m)
  then show ?thesis
    using step sync_invD(4) [OF inv, of t] by (auto simp: aw_entry_def wl_entry_def enqueue_sync_def dequeue_sync_def intro!: local_keeps inv)
next
  case Deq_Last
  then have "t = 0"
    using sync_invD(4) [OF inv, of t] by simp
  then show ?thesis
    using step Deq_Last by (auto intro!: dequeue_attempt_keeps inv)
qed (use step in \<open>auto intro: wait_keeps [OF inv] register_enqueuer_keeps [OF inv] notify_enqueue_keeps [OF inv]
       dest: register_dequeuer_keeps [OF inv] notify_dequeue_keeps [OF inv]\<close>)

theorem step_keeps:
  assumes inv: "inv s pcs" and ok: "sync_allowed good t ch" and step: "sync_step ops t ch s (pcs t) = Some r"
  shows "keeps pcs t r"
proof (cases ch)
  case (Call c)
  then show ?thesis
    using start_keeps [OF inv, of t c] ok step by (auto simp: sync_step_def split: sync_pc.splits)
next
  case (Run sp b)
  then show ?thesis
    using run_keeps [OF inv] step by (simp add: sync_step_def)
next
  case Drop_Slice
  then show ?thesis
    using give_back_keeps [OF inv, of t] release_law step by (fastforce simp: sync_step_def split: sync_pc.splits)
next
  case Requeue_Slice
  then show ?thesis
    using give_back_keeps [OF inv, of t] requeue_law step by (fastforce simp: sync_step_def split: sync_pc.splits)
qed

theorem reach_inv: "sync_reach ops (sync_allowed good) q0 s pcs \<Longrightarrow> free q0 \<Longrightarrow> inv s pcs"
proof (induction rule: sync_reach.induct)
  case sync_init
  then show ?case
    by (auto simp: sync_inv_def sync_initial_def AtomicWaker_new_def WakerList_default_def aw_inv_def wl_inv_def
      queue_owned_def enq_safe_def deq_safe_def aw_constants aw_owns_def aw_owner_ok_def)
next
  case (sync_next s pcs t ch s' p ev)
  then show ?case
    using step_keeps [of s pcs t ch "Inr (s', p, ev)"] by (simp only: sync_keeps_Inr)
qed


text \<open>When nothing moves, the mutex is free and every thread that waits has a reason to.\<close>

lemma stuck_unlocked:
  assumes inv: "inv s pcs" and stuck: "sync_stuck ops s pcs"
  shows "wl_lock (enqueuers s) = None"
proof (rule ccontr)
  assume "wl_lock (enqueuers s) \<noteq> None"
  then obtain u where "wl_critical (wl_part u (pcs u))"
    using wl_invD(1) [OF sync_invD(2) [OF inv]] by blast
  moreover have "sync_run ops u [] False s (pcs u) = None"
    using stuck by (simp add: sync_stuck_def)
  ultimately show False
    by (cases "pcs u") (auto simp: register_enqueuer_None notify_enqueue_None)
qed

lemma stuck_pc:
  assumes inv: "inv s pcs" and stuck: "sync_stuck ops s pcs"
  shows "pcs t = Sync_Idle \<or> (\<exists>sl. pcs t = Sync_Holding sl) \<or>
    (\<exists>v m. pcs t = Enq_Park v m \<and> mode_waker m t \<notin> sync_signals s) \<or>
    (\<exists>m. pcs t = Deq_Park m \<and> mode_waker m t \<notin> sync_signals s)"
proof -
  have "sync_run ops t [] False s (pcs t) = None"
    using stuck by (simp add: sync_stuck_def)
  then show ?thesis
    using stuck_unlocked [OF assms] sync_invD(4) [OF inv, of t]
    by (cases "(ops, t, [] :: bool list, False, s, pcs t)" rule: sync_run.cases)
      (auto simp: register_enqueuer_None notify_enqueue_None wait_step_def split: if_splits)
qed

theorem stuck_waits:
  assumes inv: "inv s pcs" and stuck: "sync_stuck ops s pcs"
  shows "pcs t = Sync_Idle \<or> (\<exists>sl. pcs t = Sync_Holding sl) \<or>
    (\<exists>v m. pcs t = Enq_Park v m \<and> good v \<and> enqueue_blocks ops (sync_queue s) v) \<or>
    (\<exists>m. pcs t = Deq_Park m \<and> t = 0 \<and> dequeue_blocks ops (sync_queue s))"
proof -
  note pc = stuck_pc [OF assms] and d = sync_invD [OF inv]
  have quiet: "\<not> enq_notifier (pcs u)" "\<not> deq_notifier w (pcs u)" for u w
    using pc [of u] by auto
  show ?thesis
    using pc [of t]
  proof (elim disjE exE conjE)
    fix v m
    assume p: "pcs t = Enq_Park v m" "mode_waker m t \<notin> sync_signals s"
    then have "enqueue_blocks ops (sync_queue s) v"
      using d(5) [of t] quiet by (auto simp: enq_safe_def)
    with p d(4) [of t] show ?thesis by simp
  next
    fix m
    assume p: "pcs t = Deq_Park m" "mode_waker m t \<notin> sync_signals s"
    then have t: "t = 0"
      using d(4) [of t] by simp
    with p have "dequeue_blocks ops (sync_queue s)"
      using d(6) quiet by (auto simp: deq_safe_def)
    with p t show ?thesis by simp
  qed blast+
qed

end

end
