(* ===== verification/Synchronized_Queue.thy ===== *)
theory Synchronized_Queue
  imports Synchronized_Safety
begin

text \<open>
  The operations of \<open>Queue\<close>, with a notifier that records what it was asked for, meet the contract of
  the waiting calls, over any buffer that meets the contracts of \<open>Buffer_Traits\<close>: an enqueue that
  changes the queue asks to wake the dequeuer, and a dequeue that swaps the buffers asks to wake the
  enqueuers. A call would wait exactly when the abstract queue is full for its value (\<open>aq_full\<close>), or has
  nothing to dequeue (\<open>aq_starved\<close>). \<open>sync_vec\<close> is the instance for \<open>VecBuffer\<close>.
\<close>

section \<open>Notifications of the queue's operations\<close>

lemma flag_notify_simps [simp]:
  "notify_dequeue flag_notify n = (True, snd n)" "notify_enqueue flag_notify n = (fst n, True)"
  by (simp_all add: flag_notify_def)

lemma no_flags_id: "notify q = (False, False) \<Longrightarrow> no_flags q = q"
  by (cases q) (simp add: no_flags_def)

lemma notify_no_flags [simp]: "notify (no_flags q) = (False, False)"
  by (simp add: no_flags_def)

lemma no_flags_rep [simp]:
  "queue_rep B rep (no_flags q) A = queue_rep B rep q A"
  "slice_rep img view (no_flags q) A s = slice_rep img view q A s"
  by (simp_all add: no_flags_def queue_rep_def enq_rep_def deq_rep_def slice_rep_def enq_index_def
      deq_index_def Let_def)

lemma try_enqueue_notifies:
  assumes "Queue_try_enqueue B flag_notify I sp q v = Inr (r, q')"
  shows "(q' = q \<or> fst (notify q')) \<and> (r \<noteq> Inr () \<longrightarrow> q' = q)"
  using assms
  by (auto simp: Queue_try_enqueue_def Let_def and_then_eq_Inr split: if_splits reserve_result.splits)

lemma spin_loop_notify: "try_dequeue_spin_loop n B q i len = Inr (r, q') \<Longrightarrow> notify q' = notify q"
  by (induction n) (auto simp: Let_def and_then_eq_Inr split: if_splits)

lemma spin_notify: "Queue_try_dequeue_spin B q i len = Inr (r, q') \<Longrightarrow> notify q' = notify q"
  using spin_loop_notify by (fastforce simp: Queue_try_dequeue_spin_def and_then_eq_Inr)

lemma give_back_notify:
  "BufferSlice_drop B q s = Inr q' \<Longrightarrow> notify q' = notify q"
  "BufferSlice_requeue B q s = Inr q' \<Longrightarrow> notify q' = notify q"
  by (auto simp: BufferSlice_drop_def BufferSlice_requeue_def Queue_release_def Queue_requeue_def and_then_eq_Inr
      split: if_splits)

lemma close_reopen_slice:
  "slice_rep img view (Queue_close N q) (spec_close A) s = slice_rep img view q A s"
  "slice_rep img view (Queue_reopen q) (spec_reopen A) s = slice_rep img view q A s"
  by (simp_all add: slice_rep_def Queue_close_def Queue_reopen_def spec_close_def spec_reopen_def enq_index_def
      deq_index_def)

context buffer_contract
begin

text \<open>A dequeue asks for a notification when it swaps the buffers, and changes nothing when it fails.\<close>

lemma try_dequeue_notifies:
  assumes q: "queue_rep B rep q A" and free: "\<not> aq_held A" "aq_front A = []"
    and run: "Queue_try_dequeue B flag_notify sp q = Inr (r, q')"
  shows "if aq_back A = [] then q' = q else snd (notify q')"
proof -
  let ?q = "q\<lparr>dequeuing_length := DEQUEUING_LOCKED\<rparr>" and ?b = "two_get (buffers q) (deq_index q)"
  let ?f = "notify_enqueue flag_notify"
  note d = deq_repD [OF q]
  have i: "deq_index ?q = deq_index q" "enq_index ?q = enq_index q"
    by (simp_all add: deq_index_def enq_index_def)
  have len: "dequeuing_length q = DL_new (deq_index q) 0"
    using d(6) free by simp
  have "run_resize None ?b = Inr (?b, False, 0)" "rep ?b (seg 0 [])" "unat (0 :: usize) = length []"
    using d(5,7) free by (simp_all add: run_resize_def)
  note internal_unfold [OF lock_rep [OF q], unfolded i, of None ?b False 0 "[]" ?f sp]
  then have "Queue_try_dequeue_internal B ?f sp ?q (DL_new (deq_index q) 0) None =
    (if aq_back A = [] then Inr (Inl (if aq_closed A then Closed else Empty), q)
     else Queue_try_dequeue_spin B (swapped B ?f ?q ?b 0) (enq_index q) (of_nat (length (aq_back A))))"
    using d(1,2,5,7) free len by (simp add: run_resize_def)
  moreover have "Queue_try_dequeue_internal B ?f sp ?q (DL_new (deq_index q) 0) None = Inr (r, q')"
    using run len by (simp add: Queue_try_dequeue_def Queue_lock_dequeuing_def DL_try_from_new deq_index_bound)
  moreover have "snd (notify (swapped B ?f ?q ?b 0))"
    by (simp add: swapped_def)
  ultimately show ?thesis
    using spin_notify [of B "swapped B ?f ?q ?b 0" "enq_index q" "of_nat (length (aq_back A))" r q']
    by (metis (lifting) Inr_inject prod.inject)
qed

end

section \<open>The queue as the waiting calls see it\<close>

text \<open>
  Between the operations of a \<open>SynchronizedQueue\<close> no notification is owed by the queue itself.
\<close>

definition sync_free ::
    "('b, 's) buffer_trait \<Rightarrow> ('b \<Rightarrow> (nat \<rightharpoonup> 'c) \<Rightarrow> bool) \<Rightarrow> ('b, bool \<times> bool) queue \<Rightarrow> bool" where
  "sync_free B rep q \<longleftrightarrow> notify q = (False, False) \<and> (\<exists>A. queue_rep B rep q A \<and> \<not> aq_held A)"

definition sync_held ::
    "('b, 's) buffer_trait \<Rightarrow> ('b \<Rightarrow> (nat \<rightharpoonup> 'c) \<Rightarrow> bool) \<Rightarrow> ('c \<Rightarrow> 'd) \<Rightarrow> ('s \<Rightarrow> 'd list) \<Rightarrow>
     ('b, bool \<times> bool) queue \<Rightarrow> 's buffer_slice \<Rightarrow> bool" where
  "sync_held B rep img view q s \<longleftrightarrow>
     notify q = (False, False) \<and> (\<exists>A. queue_rep B rep q A \<and> slice_rep img view q A s)"

definition aq_full :: "'c aqueue \<Rightarrow> 'c list \<Rightarrow> bool" where
  "aq_full A xs \<longleftrightarrow> xs \<noteq> [] \<and> \<not> aq_closed A \<and> aq_capacity A < length (aq_back A) + length xs \<and> length xs \<le> aq_capacity A"

definition aq_starved :: "'c aqueue \<Rightarrow> bool" where
  "aq_starved A \<longleftrightarrow> \<not> aq_held A \<and> aq_front A = [] \<and> aq_back A = [] \<and> \<not> aq_closed A"

lemma queue_ops_of_simps [simp]:
  "op_enqueue (queue_ops_of B I) sp q v = and_then (Queue_try_enqueue B flag_notify I sp q v)
     (\<lambda>(r, q'). Inr (r, fst (notify q'), no_flags q'))"
  "op_dequeue (queue_ops_of B I) sp q = and_then (Queue_try_dequeue B flag_notify sp q)
     (\<lambda>(r, q'). Inr (r, snd (notify q'), no_flags q'))"
  "op_release (queue_ops_of B I) q s = BufferSlice_drop B q s"
  "op_requeue (queue_ops_of B I) q s = BufferSlice_requeue B q s"
  "op_close (queue_ops_of B I) q = no_flags (Queue_close flag_notify q)"
  "op_reopen (queue_ops_of B I) q = Queue_reopen q"
  "op_capacity (queue_ops_of B I) q = Queue_capacity q"
  "op_size (queue_ops_of B I) v = ins_size I v"
  by (simp_all add: queue_ops_of_def)

context insert_contract
begin

abbreviation sync_ops :: "(('b, bool \<times> bool) queue, 'v, 's buffer_slice) queue_ops" where
  "sync_ops \<equiv> queue_ops_of B I"

abbreviation sync_good :: "'v \<Rightarrow> bool" where
  "sync_good v \<equiv> honest v \<and> length (content v) < 9223372036854775808"

lemma enqueue_blocks_iff:
  assumes q: "queue_rep B rep q A" and v: "sync_good v"
  shows "enqueue_blocks sync_ops q v \<longleftrightarrow> aq_full A (content v)"
proof -
  obtain r q' where run: "Queue_try_enqueue B flag_notify I [] q v = Inr (r, q')"
    and r: "enqueue_result_rep v (fst (spec_enqueue (content v) A)) r"
    and q': "queue_rep B rep q' (snd (spec_enqueue (content v) A))"
    using try_enqueue_refines [OF q, of v flag_notify "[]"] v by blast
  have "unat (Queue_capacity (no_flags q')) = aq_capacity (snd (spec_enqueue (content v) A))"
    using observers_refine(4) [OF q'] by (simp add: no_flags_def Queue_capacity_def)
  with run r v show ?thesis
    by (auto simp: enqueue_blocks_def enqueue_waits_def aq_full_def enqueue_result_rep_def spec_enqueue_def
      word_le_nat_alt size_content)
qed

lemma dequeue_blocks_iff:
  assumes q: "queue_rep B rep q A"
  shows "dequeue_blocks sync_ops q \<longleftrightarrow> aq_starved A"
proof -
  obtain r q' where "Queue_try_dequeue B flag_notify [] q = Inr (r, q')"
    "dequeue_result_rep img view q' (snd (spec_dequeue A)) (fst (spec_dequeue A)) r"
    using try_dequeue_refines [OF q, of flag_notify "[]"] by blast
  then show ?thesis
    by (auto simp: dequeue_blocks_def dequeue_waits_def aq_starved_def dequeue_result_rep_def spec_dequeue_def
      split: if_splits)
qed


lemma sync_enqueue_law:
  fixes q :: "('b, bool \<times> bool) queue"
  assumes q: "notify q = (False, False)" "queue_rep B rep q A" and v: "sync_good v"
  shows "\<exists>r notified q'. op_enqueue sync_ops sp q v = Inr (r, notified, q') \<and>
    (\<not> aq_held A \<longrightarrow> sync_free B rep q') \<and> (\<forall>s. slice_rep img view q A s \<longrightarrow> sync_held B rep img view q' s) \<and>
    (notified \<or> q' = q) \<and> (enqueue_waits sync_ops q' r \<longrightarrow> \<not> notified \<and> enqueue_blocks sync_ops q v) \<and>
    (\<forall>u. sync_good u \<longrightarrow> enqueue_blocks sync_ops q u \<longrightarrow> enqueue_blocks sync_ops q' u)"
proof -
  let ?A = "snd (spec_enqueue (content v) A)"
  obtain r q1 where run: "Queue_try_enqueue B flag_notify I sp q v = Inr (r, q1)"
    and q1: "queue_rep B rep q1 ?A" and r: "enqueue_result_rep v (fst (spec_enqueue (content v) A)) r"
    and s: "\<forall>s. slice_rep img view q A s \<longrightarrow> slice_rep img view q1 ?A s"
    using try_enqueue_refines [OF q(2), of v flag_notify sp] v by blast
  define q' where "q' = no_flags q1"
  have rep': "queue_rep B rep q' ?A" and flags: "notify q' = (False, False)"
    using q1 by (simp_all add: q'_def)
  have "aq_full A xs \<Longrightarrow> aq_full ?A xs" for xs
    by (auto simp: aq_full_def spec_enqueue_def)
  then have full: "\<forall>u. sync_good u \<longrightarrow> enqueue_blocks sync_ops q u \<longrightarrow> enqueue_blocks sync_ops q' u"
    using enqueue_blocks_iff [OF q(2)] enqueue_blocks_iff [OF rep'] by blast
  have same: "q' = q" "\<not> fst (notify q1)" if "q1 = q"
    using that q(1) no_flags_id by (simp_all add: q'_def)
  have waits: "\<not> fst (notify q1) \<and> enqueue_blocks sync_ops q v" if w: "enqueue_waits sync_ops q' r"
  proof -
    have "aq_full A (content v)"
      using w r v observers_refine(4) [OF rep']
      by (auto simp: enqueue_waits_def enqueue_result_rep_def aq_full_def spec_enqueue_def word_le_nat_alt size_content
          split: if_splits)
    moreover have "r \<noteq> Inr ()"
      using w by (auto simp: enqueue_waits_def)
    ultimately show ?thesis
      using same(2) try_enqueue_notifies [OF run] enqueue_blocks_iff [OF q(2) v] by blast
  qed
  have "aq_held ?A = aq_held A"
    by (simp add: spec_enqueue_def)
  then have "\<not> aq_held A \<longrightarrow> sync_free B rep q'"
    using rep' flags by (auto simp: sync_free_def)
  moreover have "\<forall>s. slice_rep img view q A s \<longrightarrow> sync_held B rep img view q' s"
    using s rep' flags unfolding sync_held_def q'_def no_flags_rep by blast
  moreover have "op_enqueue sync_ops sp q v = Inr (r, fst (notify q1), q')"
    using run by (simp add: q'_def)
  ultimately show ?thesis
    using full waits same(1) try_enqueue_notifies [OF run] by blast
qed

lemma sync_dequeue_law:
  fixes q :: "('b, bool \<times> bool) queue"
  assumes q: "notify q = (False, False)" "queue_rep B rep q A" and free: "\<not> aq_held A"
  shows "\<exists>r notified q'. op_dequeue sync_ops sp q = Inr (r, notified, q') \<and>
    (case r of Inl e \<Rightarrow> q' = q \<and> \<not> notified \<and> (dequeue_waits r \<longrightarrow> dequeue_blocks sync_ops q)
     | Inr s \<Rightarrow> sync_held B rep img view q' s) \<and>
    (notified \<or> (\<forall>u. sync_good u \<longrightarrow> enqueue_blocks sync_ops q u \<longrightarrow> enqueue_blocks sync_ops q' u))"
proof -
  let ?A = "snd (spec_dequeue A)"
  obtain r q' where run: "Queue_try_dequeue B flag_notify sp q = Inr (r, q')"
    and q': "queue_rep B rep q' ?A" and r: "dequeue_result_rep img view q' ?A (fst (spec_dequeue A)) r"
    using try_dequeue_refines [OF q(2), of flag_notify sp] by blast
  have rep': "queue_rep B rep (no_flags q') ?A"
    using q' by simp
  show ?thesis
  proof (cases "aq_front A = [] \<and> aq_back A = []")
    case True
    then have "q' = q" "r = Inl (if aq_closed A then Closed else Empty)"
      using try_dequeue_notifies [OF q(2) free _ run] r free
      by (simp_all add: dequeue_result_rep_def spec_dequeue_def)
    then show ?thesis
      using run q free True no_flags_id [OF q(1)] dequeue_blocks_iff [OF q(2)]
      by (auto simp: dequeue_waits_def aq_starved_def)
  next
    case False
    then obtain s where s: "r = Inr s" "slice_rep img view q' ?A s"
      using r free by (auto simp: dequeue_result_rep_def spec_dequeue_def split: if_splits)
    have "sync_held B rep img view (no_flags q') s"
      using rep' s(2) unfolding sync_held_def by (metis no_flags_rep(2) notify_no_flags)
    moreover have "snd (notify q') \<or> (aq_full A xs \<longrightarrow> aq_full ?A xs)" for xs
      using try_dequeue_notifies [OF q(2) free _ run] False free by (auto simp: spec_dequeue_def aq_full_def)
    then have "snd (notify q') \<or>
      (\<forall>u. sync_good u \<longrightarrow> enqueue_blocks sync_ops q u \<longrightarrow> enqueue_blocks sync_ops (no_flags q') u)"
      using enqueue_blocks_iff [OF q(2)] enqueue_blocks_iff [OF rep'] by blast
    ultimately show ?thesis
      using run s(1) by simp
  qed
qed

lemma aq_full_spec:
  "aq_full (spec_release A) xs = aq_full A xs" "aq_full (spec_requeue A) xs = aq_full A xs"
  "aq_full A xs \<Longrightarrow> aq_full (spec_reopen A) xs" "aq_starved A \<Longrightarrow> aq_starved (spec_reopen A)"
  by (simp_all add: aq_full_def aq_starved_def spec_release_def spec_requeue_def spec_reopen_def)

lemma sync_give_back:
  fixes q :: "('b, bool \<times> bool) queue"
  assumes q: "notify q = (False, False)" "queue_rep B rep q A" and q': "notify q' = notify q" "queue_rep B rep q' A'"
    and A': "\<not> aq_held A'" "\<And>xs. aq_full A' xs = aq_full A xs"
  shows "sync_free B rep q' \<and> (\<forall>u. sync_good u \<longrightarrow> enqueue_blocks sync_ops q u \<longrightarrow> enqueue_blocks sync_ops q' u)"
  using q q' A' enqueue_blocks_iff [OF q(2)] enqueue_blocks_iff [OF q'(2)] by (auto simp: sync_free_def)

lemma sync_release_law:
  assumes "sync_held B rep img view q s"
  shows "\<exists>q'. op_release sync_ops q s = Inr q' \<and> sync_free B rep q' \<and>
    (\<forall>u. sync_good u \<longrightarrow> enqueue_blocks sync_ops q u \<longrightarrow> enqueue_blocks sync_ops q' u)"
proof -
  from assms obtain A where A: "notify q = (False, False)" "queue_rep B rep q A" "slice_rep img view q A s"
    by (auto simp: sync_held_def)
  with release_refines [OF A(2,3)] obtain q' where
    q': "BufferSlice_drop B q s = Inr q'" "queue_rep B rep q' (spec_release A)"
    by (auto simp: BufferSlice_drop_def)
  then show ?thesis
    using sync_give_back [OF A(1,2) give_back_notify(1) [OF q'(1)] q'(2)] aq_full_spec(1)
    by (auto simp: spec_release_def)
qed

lemma sync_requeue_law:
  assumes "sync_held B rep img view q s"
  shows "\<exists>q'. op_requeue sync_ops q s = Inr q' \<and> sync_free B rep q' \<and>
    (\<forall>u. sync_good u \<longrightarrow> enqueue_blocks sync_ops q u \<longrightarrow> enqueue_blocks sync_ops q' u)"
proof -
  from assms obtain A where A: "notify q = (False, False)" "queue_rep B rep q A" "slice_rep img view q A s"
    by (auto simp: sync_held_def)
  with requeue_refines [OF A(2,3)] obtain q' where
    q': "BufferSlice_requeue B q s = Inr q'" "queue_rep B rep q' (spec_requeue A)"
    by (auto simp: BufferSlice_requeue_def)
  then show ?thesis
    using sync_give_back [OF A(1,2) give_back_notify(2) [OF q'(1)] q'(2)] aq_full_spec(2)
    by (auto simp: spec_requeue_def)
qed

lemma sync_close_law:
  "sync_free B rep q \<Longrightarrow> sync_free B rep (op_close sync_ops q)"
  "sync_held B rep img view q s \<Longrightarrow> sync_held B rep img view (op_close sync_ops q) s"
proof -
  have held: "aq_held (spec_close A) = aq_held A" for A :: "'c aqueue"
    by (simp add: spec_close_def)
  show "sync_free B rep q \<Longrightarrow> sync_free B rep (op_close sync_ops q)"
    unfolding sync_free_def queue_ops_of_simps no_flags_rep using close_refines held notify_no_flags by metis
  show "sync_held B rep img view q s \<Longrightarrow> sync_held B rep img view (op_close sync_ops q) s"
    unfolding sync_held_def queue_ops_of_simps no_flags_rep
    using close_refines close_reopen_slice(1) notify_no_flags by metis
qed

lemma sync_reopen_law:
  "sync_free B rep q \<Longrightarrow> sync_free B rep (op_reopen sync_ops q)"
  "sync_held B rep img view q s \<Longrightarrow> sync_held B rep img view (op_reopen sync_ops q) s"
proof -
  have held: "aq_held (spec_reopen A) = aq_held A" for A :: "'c aqueue"
    by (simp add: spec_reopen_def)
  have flags: "notify (Queue_reopen q) = notify q"
    by (simp add: Queue_reopen_def)
  show "sync_free B rep q \<Longrightarrow> sync_free B rep (op_reopen sync_ops q)"
    unfolding sync_free_def queue_ops_of_simps flags using reopen_refines held by metis
  show "sync_held B rep img view q s \<Longrightarrow> sync_held B rep img view (op_reopen sync_ops q) s"
    unfolding sync_held_def queue_ops_of_simps flags using reopen_refines close_reopen_slice(2) by metis
qed


lemma sync_reopen_blocks:
  fixes q :: "('b, bool \<times> bool) queue"
  assumes "sync_free B rep q \<or> sync_held B rep img view q s"
  shows "sync_good u \<Longrightarrow> enqueue_blocks sync_ops q u \<Longrightarrow> enqueue_blocks sync_ops (op_reopen sync_ops q) u"
    and "dequeue_blocks sync_ops q \<Longrightarrow> dequeue_blocks sync_ops (op_reopen sync_ops q)"
proof -
  from assms obtain A where A: "queue_rep B rep q A"
    by (auto simp: sync_free_def sync_held_def)
  note A' = reopen_refines [OF A]
  show "sync_good u \<Longrightarrow> enqueue_blocks sync_ops q u \<Longrightarrow> enqueue_blocks sync_ops (op_reopen sync_ops q) u"
    using enqueue_blocks_iff [OF A] enqueue_blocks_iff [OF A'] aq_full_spec(3) by simp
  show "dequeue_blocks sync_ops q \<Longrightarrow> dequeue_blocks sync_ops (op_reopen sync_ops q)"
    using dequeue_blocks_iff [OF A] dequeue_blocks_iff [OF A'] aq_full_spec(4) by simp
qed

lemma sync_enqueue_ok:
  fixes q :: "('b, bool \<times> bool) queue"
  assumes good: "sync_free B rep q \<or> sync_held B rep img view q s" "sync_good v"
  shows "\<exists>r notified q'. op_enqueue sync_ops sp q v = Inr (r, notified, q') \<and>
    (sync_free B rep q \<longrightarrow> sync_free B rep q') \<and> (sync_held B rep img view q s \<longrightarrow> sync_held B rep img view q' s) \<and>
    (notified \<or> q' = q) \<and> (enqueue_waits sync_ops q' r \<longrightarrow> \<not> notified \<and> enqueue_blocks sync_ops q v) \<and>
    (\<forall>u. sync_good u \<longrightarrow> enqueue_blocks sync_ops q u \<longrightarrow> enqueue_blocks sync_ops q' u)"
proof -
  from good obtain A where A: "notify q = (False, False)" "queue_rep B rep q A"
    by (auto simp: sync_free_def sync_held_def)
  from sync_enqueue_law [OF A good(2), of sp] obtain r notified q' where
    op: "op_enqueue sync_ops sp q v = Inr (r, notified, q')" and rest: "notified \<or> q' = q"
      "enqueue_waits sync_ops q' r \<longrightarrow> \<not> notified \<and> enqueue_blocks sync_ops q v"
      "\<forall>u. sync_good u \<longrightarrow> enqueue_blocks sync_ops q u \<longrightarrow> enqueue_blocks sync_ops q' u"
    by blast
  have "sync_free B rep q \<longrightarrow> sync_free B rep q'"
  proof
    assume "sync_free B rep q"
    then obtain A where "queue_rep B rep q A" "\<not> aq_held A"
      by (auto simp: sync_free_def)
    with sync_enqueue_law [OF A(1) _ good(2), of A sp] op show "sync_free B rep q'"
      by (auto simp del: queue_ops_of_simps)
  qed
  moreover have "sync_held B rep img view q s \<longrightarrow> sync_held B rep img view q' s"
  proof
    assume "sync_held B rep img view q s"
    then obtain A where "queue_rep B rep q A" "slice_rep img view q A s"
      by (auto simp: sync_held_def)
    with sync_enqueue_law [OF A(1) _ good(2), of A sp] op show "sync_held B rep img view q' s"
      by (auto simp del: queue_ops_of_simps)
  qed
  ultimately show ?thesis
    using op rest by blast
qed

theorem sync_contract: "notifying_queue sync_ops sync_good (sync_free B rep) (sync_held B rep img view)"
proof (rule notifying_queue.intro)
  show "\<exists>r notified q'. op_dequeue sync_ops sp q = Inr (r, notified, q') \<and>
      (case r of Inl e \<Rightarrow> q' = q \<and> \<not> notified \<and> (dequeue_waits r \<longrightarrow> dequeue_blocks sync_ops q)
       | Inr s \<Rightarrow> sync_held B rep img view q' s) \<and>
      (notified \<or> (\<forall>u. sync_good u \<longrightarrow> enqueue_blocks sync_ops q u \<longrightarrow> enqueue_blocks sync_ops q' u))"
    if "sync_free B rep q" for q sp
    using that sync_dequeue_law unfolding sync_free_def by blast
qed (rule sync_enqueue_ok sync_release_law sync_requeue_law; assumption |
    use sync_close_law sync_reopen_law sync_reopen_blocks in blast)+

end

text \<open>
  The values of a \<open>SynchronizedQueue\<close> over \<open>VecBuffer\<close>: arrays of less than \<open>2^63\<close> items.
\<close>

definition small_array :: "'a list \<Rightarrow> bool" where
  "small_array xs \<longleftrightarrow> length xs < 9223372036854775808"

lemma small_array_good:
  "(\<lambda>xs. length xs < 18446744073709551616 \<and> length xs < 9223372036854775808) = small_array"
  by (auto simp: small_array_def)

type_synonym 'a vec_sync_queue = "('a cells, bool \<times> bool) queue"

abbreviation vec_ops :: "('a vec_sync_queue, 'a list, 'a list buffer_slice) queue_ops" where
  "vec_ops \<equiv> queue_ops_of VecBuffer (array_insert VecBuffer_insert)"

interpretation sync_vec: notifying_queue vec_ops small_array
  "sync_free VecBuffer cells_rep" "sync_held VecBuffer cells_rep (\<lambda>x. x) (\<lambda>xs. xs)"
  using insert_contract.sync_contract [OF cell_contract.array_contract [OF vec_buf.cell_contract_axioms]] unfolding small_array_good .

end
