(* ===== verification/Synchronized_Iter.thy ===== *)
theory Synchronized_Iter
  imports Synchronized
begin

text \<open>
  \<open>SynchronizedQueue::iter\<close> (\<open>src/src/synchronized.rs\<close>): \<open>repeat_with\<close> calls \<open>dequeue\<close>,
  \<open>map_while\<close> stops at the first error, and \<open>flatten\<close> keeps the iterator of the buffer it is in. An
  iterator that is exhausted is dropped, which releases its buffer.

  \<open>dequeue_first\<close> is a call of \<open>dequeue\<close> that returns at its first attempt, as every call on a closed
  queue does (\<open>dequeue_attempt_first\<close> relates it to the waiting call); where the call would wait, it is
  the fault of \<open>dequeue_err\<close>. \<open>flatten\<close> loops until it has an item or the end, so it takes fuel:
  three rounds are enough, because a dequeued buffer is never empty. \<open>iter_collect\<close> asks for items until
  there are none.
\<close>

section \<open>\<open>iter\<close>\<close>

definition dequeue_first ::
    "('b, 's) buffer_trait \<Rightarrow> 'n notify_trait \<Rightarrow> bool list \<Rightarrow> ('b, 'n) queue \<Rightarrow>
     ((dequeue_error + 's buffer_slice) \<times> ('b, 'n) queue) exec" where
  "dequeue_first B N sp q =
     and_then (Queue_try_dequeue B N sp q) (\<lambda>(r, q').
     case r of Inr s \<Rightarrow> Inr (Inr s, q') | Inl e \<Rightarrow> and_then (dequeue_err e) (\<lambda>d. Inr (Inl d, q')))"

fun SynchronizedQueue_iter_next ::
    "nat \<Rightarrow> ('b, 's) buffer_trait \<Rightarrow> 'n notify_trait \<Rightarrow> ('b, 'a) drain_remove \<Rightarrow> bool list \<Rightarrow> ('b, 'n) queue \<Rightarrow>
     buffer_iter option \<Rightarrow> ('a option \<times> ('b, 'n) queue \<times> buffer_iter option) exec option" where
  "SynchronizedQueue_iter_next 0 B N remove sp q cur = None"
| "SynchronizedQueue_iter_next (Suc n) B N remove sp q (Some it) =
     (case BufferIter_next remove q it of
        Inl f \<Rightarrow> Some (Inl f)
      | Inr (Some x, q', it') \<Rightarrow> Some (Inr (Some x, q', Some it'))
      | Inr (None, q', it') \<Rightarrow>
          (case BufferIter_drop B q' it' of
             Inl f \<Rightarrow> Some (Inl f)
           | Inr q'' \<Rightarrow> SynchronizedQueue_iter_next n B N remove sp q'' None))"
| "SynchronizedQueue_iter_next (Suc n) B N remove sp q None =
     (case dequeue_first B N sp q of
        Inl f \<Rightarrow> Some (Inl f)
      | Inr (Inl e, q') \<Rightarrow> Some (Inr (None, q', None))
      | Inr (Inr s, q') \<Rightarrow> SynchronizedQueue_iter_next n B N remove sp q' (Some (BufferSlice_into_iter s)))"

fun iter_collect ::
    "nat \<Rightarrow> ('b, 's) buffer_trait \<Rightarrow> 'n notify_trait \<Rightarrow> ('b, 'a) drain_remove \<Rightarrow> bool list \<Rightarrow> ('b, 'n) queue \<Rightarrow>
     buffer_iter option \<Rightarrow> ('a list \<times> ('b, 'n) queue) exec option" where
  "iter_collect 0 B N remove sp q cur = None"
| "iter_collect (Suc k) B N remove sp q cur =
     (case SynchronizedQueue_iter_next 3 B N remove sp q cur of
        None \<Rightarrow> None
      | Some (Inl f) \<Rightarrow> Some (Inl f)
      | Some (Inr (None, q', _)) \<Rightarrow> Some (Inr ([], q'))
      | Some (Inr (Some x, q', cur')) \<Rightarrow>
          map_option (map_sum id (apfst ((#) x))) (iter_collect k B N remove sp q' cur'))"

definition iter_state :: "('b, 'n) queue \<Rightarrow> 'c aqueue \<Rightarrow> buffer_iter option \<Rightarrow> bool" where
  "iter_state q A cur \<longleftrightarrow> (case cur of None \<Rightarrow> \<not> aq_held A | Some it \<Rightarrow> iter_rep q A it)"

lemma dequeue_attempt_first:
  assumes "dequeue_first B flag_notify sp (sync_queue s) = Inr (r, q')"
  shows "\<exists>p. dequeue_attempt (queue_ops_of B I) sp s (Sync_Call False) again =
    Inr (s\<lparr>sync_queue := no_flags q'\<rparr>, p, case r of Inl d \<Rightarrow> Dequeue_Fails d | Inr sl \<Rightarrow> Dequeue_Returns sl)"
proof (cases "Queue_try_dequeue B flag_notify sp (sync_queue s)")
  case (Inr rq)
  obtain r' q1 where rq: "rq = (r', q1)"
    by (cases rq)
  show ?thesis
  proof (cases r')
    case (Inl e)
    with assms Inr rq show ?thesis
      by (cases e)
        (auto simp: dequeue_first_def dequeue_attempt_def queue_ops_of_def dequeue_waits_def dequeue_failure_def)
  qed (use assms Inr rq in \<open>auto simp: dequeue_first_def dequeue_attempt_def queue_ops_of_def dequeue_waits_def\<close>)
qed (use assms in \<open>simp add: dequeue_first_def\<close>)

context drain_contract
begin

lemma dequeue_first_closed:
  assumes q: "queue_rep B rep q A" and A: "aq_closed A" "\<not> aq_held A"
  shows "\<exists>q' A'. queue_rep B rep q' A' \<and> aq_closed A' \<and> aq_front A' @ aq_back A' = aq_front A @ aq_back A \<and>
    (if aq_front A @ aq_back A = [] then dequeue_first B N sp q = Inr (Inl Dequeue_Closed, q') \<and> \<not> aq_held A'
     else aq_front A' \<noteq> [] \<and>
       (\<exists>s. dequeue_first B N sp q = Inr (Inr s, q') \<and> iter_rep q' A' (BufferSlice_into_iter s)))"
proof -
  obtain r q' where run: "Queue_try_dequeue B N sp q = Inr (r, q')" and q': "queue_rep B rep q' (snd (spec_dequeue A))"
    and r: "dequeue_result_rep img view q' (snd (spec_dequeue A)) (fst (spec_dequeue A)) r"
    using try_dequeue_refines [OF q, of N sp] by blast
  show ?thesis
  proof (cases "aq_front A @ aq_back A = []")
    case True
    then show ?thesis
      using run q' r A by (auto simp: dequeue_first_def spec_dequeue_def dequeue_result_rep_def)
  next
    case False
    then obtain s where s: "r = Inr s" "slice_rep img view q' (snd (spec_dequeue A)) s"
      using r A by (auto simp: spec_dequeue_def dequeue_result_rep_def split: if_splits)
    let ?A = "snd (spec_dequeue A)"
    have "aq_closed ?A" "aq_front ?A @ aq_back ?A = aq_front A @ aq_back A" "aq_front ?A \<noteq> []"
      using False A by (auto simp: spec_dequeue_def spec_swap_def)
    moreover have "dequeue_first B N sp q = Inr (Inr s, q')"
      using run s(1) by (simp add: dequeue_first_def)
    ultimately show ?thesis
      using False q' into_iter_rep [OF s(2)] by auto
  qed
qed

lemma iter_next_held:
  assumes q: "queue_rep B rep q A" and it: "iter_rep q A it" and A: "aq_closed A" "aq_front A = x # xs"
  shows "\<exists>q' cur' A'. SynchronizedQueue_iter_next (Suc n) B N remove sp q (Some it) = Some (Inr (Some x, q', cur')) \<and>
    queue_rep B rep q' A' \<and> iter_state q' A' cur' \<and> aq_closed A' \<and> aq_front A' @ aq_back A' = xs @ aq_back A"
proof -
  obtain q' it' where "BufferIter_next remove q it = Inr (Some x, q', it')" "queue_rep B rep q' (spec_remove A)"
    "iter_rep q' (spec_remove A) it'"
    using next_refines [OF q it A(2)] by blast
  then show ?thesis
    using A by (intro exI [of _ q'] exI [of _ "Some it'"] exI [of _ "spec_remove A"])
      (auto simp: iter_state_def spec_remove_def)
qed

lemma iter_next_free:
  assumes q: "queue_rep B rep q A" and A: "aq_closed A" "\<not> aq_held A"
  shows "\<exists>q' cur' A'. queue_rep B rep q' A' \<and> iter_state q' A' cur' \<and> aq_closed A' \<and>
    (case aq_front A @ aq_back A of
       [] \<Rightarrow> SynchronizedQueue_iter_next (Suc (Suc n)) B N remove sp q None = Some (Inr (None, q', None)) \<and> cur' = None \<and>
         aq_front A' @ aq_back A' = []
     | x # xs \<Rightarrow> SynchronizedQueue_iter_next (Suc (Suc n)) B N remove sp q None = Some (Inr (Some x, q', cur')) \<and>
         aq_front A' @ aq_back A' = xs)"
proof -
  obtain q1 A1 where q1: "queue_rep B rep q1 A1" "aq_closed A1" "aq_front A1 @ aq_back A1 = aq_front A @ aq_back A"
    and run: "if aq_front A @ aq_back A = [] then dequeue_first B N sp q = Inr (Inl Dequeue_Closed, q1) \<and> \<not> aq_held A1
     else aq_front A1 \<noteq> [] \<and>
       (\<exists>s. dequeue_first B N sp q = Inr (Inr s, q1) \<and> iter_rep q1 A1 (BufferSlice_into_iter s))"
    using dequeue_first_closed [OF assms, of N sp] by blast
  show ?thesis
  proof (cases "aq_front A @ aq_back A = []")
    case True
    then show ?thesis
      using q1 run by (intro exI [of _ q1] exI [of _ None] exI [of _ A1]) (auto simp: iter_state_def)
  next
    case False
    then obtain s x xs where s: "dequeue_first B N sp q = Inr (Inr s, q1)" "iter_rep q1 A1 (BufferSlice_into_iter s)"
      "aq_front A1 = x # xs"
      using run by (cases "aq_front A1") auto
    obtain q' cur' A' where
      "SynchronizedQueue_iter_next (Suc n) B N remove sp q1 (Some (BufferSlice_into_iter s)) = Some (Inr (Some x, q', cur'))"
      "queue_rep B rep q' A'" "iter_state q' A' cur'" "aq_closed A'" "aq_front A' @ aq_back A' = xs @ aq_back A1"
      using iter_next_held [OF q1(1) s(2) q1(2) s(3)] by blast
    then show ?thesis
      using s(1,3) q1(3) [symmetric]
      by (intro exI [of _ q'] exI [of _ cur'] exI [of _ A']) simp
  qed
qed


lemma iter_next_closed:
  assumes q: "queue_rep B rep q A" and cur: "iter_state q A cur" and A: "aq_closed A"
  shows "\<exists>q' cur' A'. queue_rep B rep q' A' \<and> iter_state q' A' cur' \<and> aq_closed A' \<and>
    (case aq_front A @ aq_back A of
       [] \<Rightarrow> SynchronizedQueue_iter_next 3 B N remove sp q cur = Some (Inr (None, q', None)) \<and> cur' = None \<and>
         aq_front A' @ aq_back A' = []
     | x # xs \<Rightarrow> SynchronizedQueue_iter_next 3 B N remove sp q cur = Some (Inr (Some x, q', cur')) \<and>
         aq_front A' @ aq_back A' = xs)"
proof (cases cur)
  case None
  then have "\<not> aq_held A"
    using cur by (simp add: iter_state_def)
  from iter_next_free [OF q A this, of "Suc 0" N sp] show ?thesis
    unfolding None numeral_3_eq_3 .
next
  case (Some it)
  then have it: "iter_rep q A it"
    using cur by (simp add: iter_state_def)
  show ?thesis
  proof (cases "aq_front A")
    case Nil
    obtain q1 where q1: "BufferIter_drop B q it = Inr q1" "queue_rep B rep q1 (spec_requeue A)"
      using iter_drop_refines [OF q it] by blast
    have eq: "SynchronizedQueue_iter_next 3 B N remove sp q cur =
        SynchronizedQueue_iter_next (Suc (Suc 0)) B N remove sp q1 None"
      using Some next_empty [OF it Nil] q1(1) by (simp add: numeral_3_eq_3)
    show ?thesis
      unfolding eq using iter_next_free [OF q1(2), of 0 N sp] A
      by (simp add: spec_requeue_def del: SynchronizedQueue_iter_next.simps)
  next
    case (Cons x xs)
    then show ?thesis
      using iter_next_held [OF q it A Cons, of "Suc (Suc 0)" N sp] Some by (auto simp: numeral_3_eq_3)
  qed
qed

theorem iter_collect_closed:
  assumes "queue_rep B rep q A" and "iter_state q A cur" and "aq_closed A" and "length (aq_front A @ aq_back A) < k"
  shows "\<exists>q' A'. iter_collect k B N remove sp q cur = Some (Inr (aq_front A @ aq_back A, q')) \<and>
    queue_rep B rep q' A' \<and> aq_closed A' \<and> \<not> aq_held A' \<and> aq_front A' = [] \<and> aq_back A' = []"
  using assms
proof (induction k arbitrary: q A cur)
  case (Suc k)
  note step = iter_next_closed [OF Suc.prems(1-3), of N sp]
  show ?case
  proof (cases "aq_front A @ aq_back A")
    case Nil
    with step show ?thesis
      by (auto simp: iter_state_def)
  next
    case (Cons x xs)
    with step obtain q1 cur1 A1 where q1: "queue_rep B rep q1 A1" "iter_state q1 A1 cur1" "aq_closed A1"
      and run: "SynchronizedQueue_iter_next 3 B N remove sp q cur = Some (Inr (Some x, q1, cur1))"
      and rest: "aq_front A1 @ aq_back A1 = xs"
      by auto
    have "length (aq_front A1 @ aq_back A1) < k"
      using Suc.prems(4) Cons by (simp add: rest del: length_append)
    from Suc.IH [OF q1 this] run rest Cons show ?thesis
      by auto
  qed
qed simp

end

end
