(* ===== verification/Synchronized_Progress.thy ===== *)
theory Synchronized_Progress
  imports Synchronized
begin

text \<open>
  Every step of a call of \<open>Synchronized\<close>, apart from the end of a wait, brings it nearer to its return
  or to its next wait: \<open>stages_left\<close> decreases, or it stays and the list of wakers that the thread is
  draining gets shorter.
\<close>

section \<open>Stages of a call\<close>

primrec register_left :: "register_pc \<Rightarrow> nat" where
  "register_left Reg_Begin = 6"
| "register_left Reg_Store = 5"
| "register_left Reg_Commit = 4"
| "register_left Reg_Take = 3"
| "register_left (Reg_Swap w) = 2"
| "register_left (Reg_Wake w) = 1"
| "register_left Reg_Self = 1"
| "register_left Reg_Done = 0"

primrec wake_left :: "wake_pc \<Rightarrow> nat" where
  "wake_left Wake_Begin = 4"
| "wake_left Wake_Take = 3"
| "wake_left (Wake_End x) = 2"
| "wake_left (Wake_Call w) = 1"
| "wake_left Wake_Done = 1"

primrec list_register_left :: "list_register_pc \<Rightarrow> nat" where
  "list_register_left LReg_Lock = 3"
| "list_register_left LReg_Flag = 2"
| "list_register_left LReg_Push = 1"
| "list_register_left LReg_Done = 0"

primrec list_wake_left :: "list_wake_pc \<Rightarrow> nat" where
  "list_wake_left LWake_Load = 4"
| "list_wake_left LWake_Cas = 3"
| "list_wake_left LWake_Lock = 2"
| "list_wake_left LWake_Drain = 1"
| "list_wake_left LWake_Done = 1"

text \<open>How far a thread is from its next return or wait.\<close>

primrec stages_left :: "('v, 's) sync_pc \<Rightarrow> nat" where
  "stages_left Sync_Idle = 0"
| "stages_left (Enq_Try k v m) = 5 * k + 17"
| "stages_left (Enq_Register p v m) = list_register_left p + 12"
| "stages_left (Enq_Retry v m) = 11"
| "stages_left (Enq_Until v m) = 6"
| "stages_left (Enq_Park v m) = 0"
| "stages_left (Enq_Last v) = 5"
| "stages_left (Deq_Try k m) = 5 * k + 20"
| "stages_left (Deq_Register p m) = register_left p + 12"
| "stages_left (Deq_Retry m) = 11"
| "stages_left (Deq_Until m) = 6"
| "stages_left (Deq_Park m) = 0"
| "stages_left Deq_Last = 5"
| "stages_left (Notify_Dequeue p k) = wake_left p + stages_left k"
| "stages_left (Notify_Enqueue p k) = list_wake_left p + stages_left k"
| "stages_left (Sync_Holding sl) = 0"

definition waits :: "('v, 's) sync_pc \<Rightarrow> bool" where
  "waits p \<longleftrightarrow> (\<exists>v m. p = Enq_Park v m) \<or> (\<exists>m. p = Deq_Park m)"

lemma enqueue_attempt_left:
  assumes "enqueue_attempt ops sp s v again = Inr (s', p', ev)"
    and "n > 4" and "\<And>p. again = Some p \<Longrightarrow> stages_left p < n"
  shows "stages_left p' < n"
  using assms by (auto simp: enqueue_attempt_def and_then_eq_Inr split: prod.splits option.splits bool.splits if_splits)

lemma dequeue_attempt_left:
  assumes "dequeue_attempt ops sp s m again = Inr (s', p', ev)"
    and "n > 4" and "\<And>p. again = Some p \<Longrightarrow> stages_left p + 4 < n"
  shows "stages_left p' < n"
  using assms by (auto simp: dequeue_attempt_def Let_def and_then_eq_Inr
      split: prod.splits option.splits bool.splits if_splits sum.splits)

lemma register_left_step:
  "AtomicWaker_register t cx p w sg = Inr (p', w', sg') \<Longrightarrow> p' \<noteq> Reg_Done \<Longrightarrow> register_left p' < register_left p"
  by (cases p) (auto simp: and_then_eq_Inr split: if_splits option.splits)

lemma wake_left_step:
  "AtomicWaker_wake p w sg = Inr (p', w', sg') \<Longrightarrow> p' \<noteq> Wake_Done \<Longrightarrow> wake_left p' < wake_left p"
  by (cases p) (auto simp: Let_def and_then_eq_Inr split: if_splits option.splits)

theorem run_decreases:
  assumes step: "sync_run ops t sp b s p = Some (Inr (s', p', ev))" and p: "\<not> waits p"
  shows "stages_left p' < stages_left p \<or>
    stages_left p' = stages_left p \<and> length (wl_wakers (enqueuers s')) < length (wl_wakers (enqueuers s))"
proof (cases p)
  case (Enq_Try k v m)
  then show ?thesis
    using step by (cases k) (auto intro: enqueue_attempt_left)
next
  case (Deq_Try k m)
  then show ?thesis
    using step by (cases k) (auto intro: dequeue_attempt_left)
next
  case (Enq_Register q v m)
  then show ?thesis
    using step by (cases q) (auto simp: register_enqueuer_step_def split: if_splits)
next
  case (Deq_Register q m)
  then show ?thesis
    using step register_left_step by (auto simp: register_dequeuer_step_def and_then_eq_Inr split: if_splits)
next
  case (Notify_Dequeue q k)
  moreover have "0 < wake_left q"
    by (cases q) simp_all
  ultimately show ?thesis
    using step wake_left_step by (auto simp: notify_dequeue_step_def and_then_eq_Inr split: if_splits)
next
  case (Notify_Enqueue q k)
  then show ?thesis
    using step by (cases q) (auto simp: notify_enqueue_step_def split: if_splits list.splits)
qed (use step p in \<open>auto simp: waits_def after_retry_def enqueue_sync_def dequeue_sync_def
      intro: enqueue_attempt_left dequeue_attempt_left split: call_mode.splits\<close>)

end
