(* ===== verification/Synchronized_Properties.thy ===== *)
theory Synchronized_Properties
  imports Synchronized_Queue Synchronized_Iter Synchronized_Progress
begin

text \<open>
  What holds of a \<open>SynchronizedQueue\<close>: the \<open>AtomicWaker\<close> and the \<open>WakerList\<close> by themselves, and the waiting calls over
  \<open>VecBuffer\<close> through the instance \<open>sync_vec\<close>. The schedules at the end of each group are the
  runs that the witnesses evaluate.
\<close>

section \<open>\<open>AtomicWaker\<close>\<close>

text \<open>
  C14: Whatever registrations and wake-ups overlap on an \<open>AtomicWaker\<close>, no two threads are ever at
  an access to its waker cell, no assertion of \<open>register\<close> or \<open>wake\<close> fails and its \<open>unwrap\<close>
  never finds an empty cell.
\<close>

theorem atomic_waker_exclusive:
  assumes "aw_reach w sg acts"
  shows "(aw_accesses (acts t) \<and> aw_accesses (acts u) \<longrightarrow> t = u) \<and>
    (acts t = Aw_Reg cx p \<longrightarrow> (\<exists>r. AtomicWaker_register t cx p w sg = Inr r)) \<and>
    (acts t = Aw_Wake p' \<longrightarrow> (\<exists>r. AtomicWaker_wake p' w sg = Inr r))"
proof -
  note inv = aw_reach_inv [OF assms]
  have "t = u" if "aw_accesses (acts t)" "aw_accesses (acts u)"
    using aw_invD(1) [OF inv] aw_accesses_owns that by blast
  moreover have "\<exists>r. AtomicWaker_register t cx p w sg = Inr r" if "acts t = Aw_Reg cx p"
    using aw_register_step [OF inv that, of sg] by blast
  moreover have "\<exists>r. AtomicWaker_wake p' w sg = Inr r" if "acts t = Aw_Wake p'"
    using aw_wake_step [OF inv that, of sg] by blast
  ultimately show ?thesis by blast
qed

text \<open>Thread \<open>1\<close> wakes while thread \<open>0\<close> is between storing its waker and committing it.\<close>

lemma aw_example:
  "aw_reach \<lparr>aw_state = 3, aw_waker = Some (Sync 0)\<rparr> {}
     ((\<lambda>_. Aw_Idle)(0 := Aw_Reg None Reg_Take, 1 := Aw_Wake Wake_Done))"
proof -
  let ?i = "\<lambda>_ :: nat. Aw_Idle"
  note simps = aw_constants AtomicWaker_new_def Waker_new_def Let_def
  have "aw_reach AtomicWaker_new {} (?i(0 := Aw_Reg None Reg_Begin))"
    by (intro aw_call_register aw_init) simp
  from aw_registers [OF this, of 0 None Reg_Begin Reg_Store "\<lparr>aw_state = 1, aw_waker = None\<rparr>" "{}"]
  have "aw_reach \<lparr>aw_state = 1, aw_waker = None\<rparr> {} (?i(0 := Aw_Reg None Reg_Store))"
    by (simp add: simps)
  from aw_registers [OF this, of 0 None Reg_Store Reg_Commit "\<lparr>aw_state = 1, aw_waker = Some (Sync 0)\<rparr>" "{}"]
  have "aw_reach \<lparr>aw_state = 1, aw_waker = Some (Sync 0)\<rparr> {} (?i(0 := Aw_Reg None Reg_Commit))"
    by (simp add: simps)
  from aw_call_wake [OF this, of 1]
  have "aw_reach \<lparr>aw_state = 1, aw_waker = Some (Sync 0)\<rparr> {}
      (?i(0 := Aw_Reg None Reg_Commit, 1 := Aw_Wake Wake_Begin))"
    by simp
  from aw_wakes [OF this, of 1 Wake_Begin Wake_Done "\<lparr>aw_state = 3, aw_waker = Some (Sync 0)\<rparr>" "{}"]
  have "aw_reach \<lparr>aw_state = 3, aw_waker = Some (Sync 0)\<rparr> {}
      (?i(0 := Aw_Reg None Reg_Commit, 1 := Aw_Wake Wake_Done))"
    by (simp add: simps)
  from aw_registers [OF this, of 0 None Reg_Commit Reg_Take "\<lparr>aw_state = 3, aw_waker = Some (Sync 0)\<rparr>" "{}"]
  show ?thesis
    by (simp add: simps fun_upd_twist)
qed

theorem atomic_waker_exclusive_witness:
  "\<exists>r. AtomicWaker_register 0 None Reg_Take \<lparr>aw_state = 3, aw_waker = Some (Sync 0)\<rparr> {} = Inr r"
  using atomic_waker_exclusive [OF aw_example, of 0 1 None Reg_Take Wake_Done] by simp

section \<open>\<open>WakerList\<close>\<close>

text \<open>
  C25: Whatever registrations and wake-ups overlap on a \<open>WakerList\<close>, at most one thread is inside its
  critical section, and a registered waker is never overlooked: unless a thread is already on its way to drain
  the list, the flag is up and the next \<open>wake\<close> goes on to drain it.
\<close>

theorem waker_list_announced:
  assumes "wl_reach l sg acts"
  shows "(wl_critical (acts t) \<and> wl_critical (acts u) \<longrightarrow> t = u) \<and>
    (wl_wakers l \<noteq> [] \<and> (\<forall>u. \<not> wl_draining (acts u)) \<longrightarrow>
       WakerList_wake t LWake_Load l sg = Some (LWake_Cas, l, sg) \<and>
       WakerList_wake t LWake_Cas l sg = Some (LWake_Lock, l\<lparr>wl_non_empty := False\<rparr>, sg))"
  using wl_invD(1,2) [OF wl_reach_inv [OF assms]] by auto

theorem waker_list_announced_witness:
  "let l = \<lparr>wl_wakers = [Sync 3], wl_non_empty = True, wl_lock = None\<rparr> in
   WakerList_wake 1 LWake_Cas l {} = Some (LWake_Lock, l\<lparr>wl_non_empty := False\<rparr>, {})"
proof -
  let ?i = "\<lambda>_ :: nat. Wl_Idle"
  note simps = WakerList_default_def Waker_new_def
  have "wl_reach WakerList_default {} (?i(3 := Wl_Reg None LReg_Lock))"
    by (intro wl_call_register wl_init) simp
  from wl_registers [OF this, of 3 None LReg_Lock LReg_Flag "\<lparr>wl_wakers = [], wl_non_empty = False, wl_lock = Some 3\<rparr>"]
  have "wl_reach \<lparr>wl_wakers = [], wl_non_empty = False, wl_lock = Some 3\<rparr> {} (?i(3 := Wl_Reg None LReg_Flag))"
    by (simp add: simps)
  from wl_registers [OF this, of 3 None LReg_Flag LReg_Push "\<lparr>wl_wakers = [], wl_non_empty = True, wl_lock = Some 3\<rparr>"]
  have "wl_reach \<lparr>wl_wakers = [], wl_non_empty = True, wl_lock = Some 3\<rparr> {} (?i(3 := Wl_Reg None LReg_Push))"
    by (simp add: simps)
  from wl_registers [OF this, of 3 None LReg_Push LReg_Done "\<lparr>wl_wakers = [Sync 3], wl_non_empty = True, wl_lock = None\<rparr>"]
  have "wl_reach \<lparr>wl_wakers = [Sync 3], wl_non_empty = True, wl_lock = None\<rparr> {} (?i(3 := Wl_Reg None LReg_Done))"
    by (simp add: simps)
  from waker_list_announced [OF this, of 1 0] show ?thesis
    by (simp add: Let_def)
qed

section \<open>The waiting calls\<close>

text \<open>A schedule of the choices of the threads, run from a state.\<close>

fun sync_exec ::
    "('q, 'v, 's) queue_ops \<Rightarrow> (nat \<times> 'v sync_choice) list \<Rightarrow> 'q sync_shared \<Rightarrow> (nat \<Rightarrow> ('v, 's) sync_pc) \<Rightarrow>
     ('q sync_shared \<times> (nat \<Rightarrow> ('v, 's) sync_pc)) option" where
  "sync_exec ops [] s pcs = Some (s, pcs)"
| "sync_exec ops ((t, ch) # sched) s pcs =
     (case sync_step ops t ch s (pcs t) of
        Some (Inr (s', p, ev)) \<Rightarrow> sync_exec ops sched s' (pcs(t := p))
      | _ \<Rightarrow> None)"

lemma sync_exec_reach:
  assumes "sync_exec ops sched s pcs = Some (s', pcs')" and "sync_reach ops allowed q0 s pcs"
    and "\<forall>(t, ch) \<in> set sched. allowed t ch"
  shows "sync_reach ops allowed q0 s' pcs'"
  using assms
proof (induction sched arbitrary: s pcs)
  case (Cons c sched)
  obtain t ch where c: "c = (t, ch)"
    by (cases c)
  with Cons.prems(1) obtain s1 p ev where
    step: "sync_step ops t ch s (pcs t) = Some (Inr (s1, p, ev))"
    and rest: "sync_exec ops sched s1 (pcs(t := p)) = Some (s', pcs')"
    by (auto split: option.splits sum.splits prod.splits)
  have "sync_reach ops allowed q0 s1 (pcs(t := p))"
    using sync_next [OF Cons.prems(2) _ step] Cons.prems(3) c by simp
  from Cons.IH [OF rest this] Cons.prems(3) show ?case by simp
qed simp

lemma sync_exec_others: "sync_exec ops sched s pcs = Some (s', pcs') \<Longrightarrow> t \<notin> fst ` set sched \<Longrightarrow> pcs' t = pcs t"
  by (induction ops sched s pcs rule: sync_exec.induct) (auto split: option.splits sum.splits prod.splits)

lemma sync_new_free:
  fixes q0 :: "'a vec_sync_queue"
  assumes "Queue_with_capacity VecBuffer VecBuffer_resize (False, False) c = Inr q0"
  shows "sync_free VecBuffer cells_rep q0"
proof -
  have "unat c < 4611686018427387903"
    using assms EC_check_overflow_iff [of c] by (auto simp: Queue_with_capacity_def and_then_eq_Inr)
  then obtain q :: "'a vec_sync_queue" where "Queue_with_capacity VecBuffer VecBuffer_resize (False, False) c = Inr q"
    "queue_rep VecBuffer cells_rep q (spec_new (unat c))"
    using vec_buf.with_capacity_refines [of c "(False, False)"] by auto
  moreover have "notify q0 = (False, False)"
    using assms by (auto simp: Queue_with_capacity_def and_then_eq_Inr)
  ultimately show ?thesis
    using assms by (auto simp: sync_free_def spec_new_def intro!: exI [of _ "spec_new (unat c)"])
qed

text \<open>
  On a new \<open>SynchronizedQueue\<close> over \<open>VecBuffer\<close> with one consumer, whatever blocking, timed,
  asynchronous and plain calls the threads interleave, no step faults: no assertion of the wakers or of the
  queue fails, \<open>dequeue_err\<close> never reaches its \<open>unreachable!\<close>, and no read is uninitialised.
\<close>

theorem sync_vec_no_fault:
  assumes "Queue_with_capacity VecBuffer VecBuffer_resize (False, False) c = Inr q0"
    and "sync_reach vec_ops (sync_allowed small_array) q0 s pcs"
    and "sync_allowed small_array t ch" and "sync_step vec_ops t ch s (pcs t) = Some r"
  shows "\<exists>s' p ev. r = Inr (s', p, ev)"
  using sync_vec.step_keeps [OF sync_vec.reach_inv [OF assms(2) sync_new_free [OF assms(1)]] assms(3,4)]
  by (auto simp: sync_keeps_def)

text \<open>
  No wake-up is lost. When no thread of such a system can go on by itself, a thread that waits to
  dequeue does so because the queue is empty and open, and a thread that waits to enqueue because the queue
  is open and its value does not fit in what is left of the capacity: no thread sleeps through a
  notification, a closing, or the mutex of the waker list.
\<close>

theorem sync_vec_no_lost_wakeup:
  assumes "Queue_with_capacity VecBuffer VecBuffer_resize (False, False) c = Inr q0"
    and "sync_reach vec_ops (sync_allowed small_array) q0 s pcs"
    and "sync_stuck vec_ops s pcs"
  shows "pcs t = Sync_Idle \<or> (\<exists>sl. pcs t = Sync_Holding sl) \<or>
    \<not> Queue_is_closed (sync_queue s) \<and>
    ((\<exists>m. pcs t = Deq_Park m) \<and> Queue_is_empty (sync_queue s) \<or>
     (\<exists>v m. pcs t = Enq_Park v m \<and> length v \<le> unat (Queue_capacity (sync_queue s)) \<and>
        unat (Queue_capacity (sync_queue s)) < unat (Queue_len (sync_queue s)) + length v))"
proof -
  note inv = sync_vec.reach_inv [OF assms(2) sync_new_free [OF assms(1)]]
  obtain A where A: "queue_rep VecBuffer cells_rep (sync_queue s) A"
    using sync_invD(3) [OF inv] by (auto simp: queue_owned_def sync_free_def sync_held_def split: option.splits)
  note obs = vec_buf.observers_refine [OF A]
  note I = cell_contract.array_contract [OF vec_buf.cell_contract_axioms]
  have "enqueue_blocks vec_ops (sync_queue s) v \<longleftrightarrow> aq_full A v" if "small_array v" for v
    using insert_contract.enqueue_blocks_iff [OF I A, of v] that by (simp add: small_array_def)
  moreover have "dequeue_blocks vec_ops (sync_queue s) \<longleftrightarrow> aq_starved A"
    using insert_contract.dequeue_blocks_iff [OF I A] .
  ultimately show ?thesis
    using sync_vec.stuck_waits [OF inv assms(3), of t] obs by (auto simp: aq_full_def aq_starved_def)
qed

definition sync_example :: "nat vec_sync_queue" where
  "sync_example = \<lparr>enqueuing_capacity = 2, dequeuing_length = 1, buffers = ([None], [None]),
     buffers_length = (0, 0), capacity = 1, notify = (False, False)\<rparr>"

lemma sync_example_new: "Queue_with_capacity VecBuffer VecBuffer_resize (False, False) 1 = Inr sync_example"
  by code_simp

text \<open>The consumer spins, registers, tries again and parks; then a producer enqueues and wakes it.\<close>

definition sync_park :: "(nat \<times> nat list sync_choice) list" where
  "sync_park = (0, Call SynchronizedQueue_dequeue) # replicate 70 (0, Run [] False)"

definition sync_wake :: "(nat \<times> nat list sync_choice) list" where
  "sync_wake = [(1, Call (SynchronizedQueue_enqueue_async [7])), (1, Run [] False), (1, Run [] False), (1, Run [] False),
     (1, Run [] False), (1, Run [] False)]"

lemma sync_park_run:
  "map_option (\<lambda>(s, pcs). (s, pcs 0))
     (sync_exec vec_ops sync_park (sync_initial sync_example) (\<lambda>_. Sync_Idle)) =
   Some (\<lparr>enqueuers = WakerList_default, dequeuer = \<lparr>aw_state = 0, aw_waker = Some (Sync 0)\<rparr>,
     sync_queue = sync_example, sync_signals = {}\<rparr>, Deq_Park (Sync_Call False))"
  by code_simp

lemma sync_wake_run:
  "map_option (\<lambda>(s, pcs). (sync_signals s, pcs 0, pcs 1))
     (sync_exec vec_ops (sync_park @ sync_wake) (sync_initial sync_example) (\<lambda>_. Sync_Idle)) =
   Some ({Sync 0}, Deq_Park (Sync_Call False), Sync_Idle)"
  by code_simp

theorem sync_vec_no_fault_witness:
  "\<exists>s pcs r. sync_exec vec_ops (sync_park @ take 3 sync_wake) (sync_initial sync_example) (\<lambda>_. Sync_Idle) = Some (s, pcs) \<and>
     pcs 1 = Notify_Dequeue Wake_Take Sync_Idle \<and>
     sync_step vec_ops 1 (Run [] False) s (pcs 1) = Some (Inr r)"
proof -
  have "map_option (\<lambda>(s, pcs). pcs 1)
      (sync_exec vec_ops (sync_park @ take 3 sync_wake) (sync_initial sync_example) (\<lambda>_. Sync_Idle)) =
    Some (Notify_Dequeue Wake_Take Sync_Idle)"
    by code_simp
  then obtain s pcs where
    run: "sync_exec vec_ops (sync_park @ take 3 sync_wake) (sync_initial sync_example) (\<lambda>_. Sync_Idle) = Some (s, pcs)"
    and pc: "pcs 1 = Notify_Dequeue Wake_Take Sync_Idle"
    by auto
  have "\<forall>(t, ch) \<in> set (sync_park @ take 3 sync_wake). sync_allowed small_array t ch"
    by (simp add: sync_park_def sync_wake_def sync_allowed_def small_array_def SynchronizedQueue_dequeue_def
      SynchronizedQueue_enqueue_async_def)
  from sync_exec_reach [OF run sync_init this]
  have reach: "sync_reach vec_ops (sync_allowed small_array) sync_example s pcs" .
  have step: "sync_step vec_ops 1 (Run [] False) s (pcs 1) = Some (notify_dequeue_step s Wake_Take Sync_Idle)"
    unfolding pc by (simp add: sync_step_def)
  have "sync_allowed small_array 1 (Run [] False :: nat list sync_choice)"
    by (simp add: sync_allowed_def)
  from sync_vec_no_fault [OF sync_example_new reach this step] run pc step show ?thesis
    by auto
qed

theorem sync_vec_no_lost_wakeup_witness:
  "\<exists>s pcs. sync_exec vec_ops sync_park (sync_initial sync_example) (\<lambda>_. Sync_Idle) = Some (s, pcs) \<and>
     sync_stuck vec_ops s pcs \<and> pcs 0 = Deq_Park (Sync_Call False) \<and> Queue_is_empty (sync_queue s)"
proof -
  obtain s pcs where
    run: "sync_exec vec_ops sync_park (sync_initial sync_example) (\<lambda>_. Sync_Idle) = Some (s, pcs)"
    and end_state: "sync_signals s = {}" "pcs 0 = Deq_Park (Sync_Call False)"
    using sync_park_run by auto
  have "pcs t = Sync_Idle" if "t \<noteq> 0" for t
    using sync_exec_others [OF run, of t] that by (simp add: sync_park_def)
  then have stuck: "sync_stuck vec_ops s pcs"
    unfolding sync_stuck_def using end_state by (metis sync_run.simps(13,17) wait_step_def empty_iff)
  have "\<forall>(t, ch) \<in> set sync_park. sync_allowed small_array t ch"
    by (simp add: sync_park_def sync_allowed_def SynchronizedQueue_dequeue_def)
  from sync_exec_reach [OF run sync_init this]
  have reach: "sync_reach vec_ops (sync_allowed small_array) sync_example s pcs" .
  from sync_vec_no_lost_wakeup [OF sync_example_new reach stuck, of 0] run stuck end_state show ?thesis
    by auto
qed


section \<open>Closing and deadlines\<close>

lemma sync_vec_rep:
  assumes "Queue_with_capacity VecBuffer VecBuffer_resize (False, False) c = Inr q0"
    and "sync_reach vec_ops (sync_allowed small_array) q0 s pcs"
  shows "\<exists>A. queue_rep VecBuffer cells_rep (sync_queue s) A \<and> notify (sync_queue s) = (False, False) \<and>
    (slice_of (pcs 0) = None \<longrightarrow> \<not> aq_held A)"
  using sync_invD(3) [OF sync_vec.reach_inv [OF assms(2) sync_new_free [OF assms(1)]]]
  by (auto simp: queue_owned_def sync_free_def sync_held_def split: option.splits)

lemma closed_enqueue_attempt:
  assumes q: "queue_rep VecBuffer cells_rep (sync_queue s) A" "notify (sync_queue s) = (False, False)"
    and closed: "aq_closed A" and v: "small_array v" "v \<noteq> []"
  shows "enqueue_attempt vec_ops sp s v again = Inr (s, Sync_Idle, Enqueue_Returns (Inl (Enqueue_Closed v)))"
proof -
  note I = cell_contract.array_contract [OF vec_buf.cell_contract_axioms]
  obtain r q' where run: "Queue_try_enqueue VecBuffer flag_notify (array_insert VecBuffer_insert) sp (sync_queue s) v = Inr (r, q')"
    and r: "enqueue_result_rep v (fst (spec_enqueue v A)) r"
    using insert_contract.try_enqueue_refines [OF I q(1), of v flag_notify sp] v by (auto simp: small_array_def)
  have "r = Inl (Enqueue_Closed v)"
    using r closed v by (simp add: enqueue_result_rep_def spec_enqueue_def)
  with try_enqueue_notifies [OF run] run q(2) no_flags_id [of "sync_queue s"] show ?thesis
    by (simp add: enqueue_attempt_def enqueue_waits_def)
qed

lemma closed_dequeue_attempt:
  assumes q: "queue_rep VecBuffer cells_rep (sync_queue s) A" and closed: "aq_closed A" "\<not> aq_held A"
  shows "\<exists>s' p ev. dequeue_attempt vec_ops sp s m again = Inr (s', p, ev) \<and>
    ((\<exists>sl. ev = Dequeue_Returns sl) \<or> ev = Try_Dequeue_Fails Closed \<or> ev = Dequeue_Fails Dequeue_Closed)"
proof -
  obtain r q' where run: "Queue_try_dequeue VecBuffer flag_notify sp (sync_queue s) = Inr (r, q')"
    and r: "dequeue_result_rep (\<lambda>x. x) (\<lambda>xs. xs) q' (snd (spec_dequeue A)) (fst (spec_dequeue A)) r"
    using vec_buf.try_dequeue_refines [OF q, of flag_notify sp] by blast
  have "r = Inl Closed \<or> (\<exists>sl. r = Inr sl)"
    using r closed by (auto simp: dequeue_result_rep_def spec_dequeue_def split: if_splits)
  with run show ?thesis
    by (auto simp: dequeue_attempt_def Let_def dequeue_waits_def dequeue_failure_def split: call_mode.split bool.split)
qed

text \<open>
  An attempt that no other operation overlaps (here it is one step) on a closed queue does not lead to a wait: an
  attempt to enqueue a value that is not empty returns \<open>Closed\<close> with the value, and an attempt to dequeue returns the
  values that are left or \<open>Closed\<close>. While an enqueue is under way the source may answer \<open>Pending\<close> instead, see
  \<open>Synchronized_Concurrent\<close>.
\<close>

theorem sync_vec_closed:
  assumes new: "Queue_with_capacity VecBuffer VecBuffer_resize (False, False) c = Inr q0"
    and reach: "sync_reach vec_ops (sync_allowed small_array) q0 s pcs"
    and closed: "Queue_is_closed (sync_queue s)"
  shows "(v \<noteq> [] \<and> (pcs t = Enq_Try (Suc k) v m \<or> pcs t = Enq_Retry v m \<or> pcs t = Enq_Last v) \<longrightarrow>
      sync_step vec_ops t (Run sp b) s (pcs t) = Some (Inr (s, Sync_Idle, Enqueue_Returns (Inl (Enqueue_Closed v))))) \<and>
    (pcs t = Deq_Try (Suc k) m \<or> pcs t = Deq_Retry m \<or> pcs t = Deq_Last \<longrightarrow>
      (\<exists>s' p ev. sync_step vec_ops t (Run sp b) s (pcs t) = Some (Inr (s', p, ev)) \<and>
        ((\<exists>sl. ev = Dequeue_Returns sl) \<or> ev = Try_Dequeue_Fails Closed \<or> ev = Dequeue_Fails Dequeue_Closed)))"
proof -
  obtain A where q: "queue_rep VecBuffer cells_rep (sync_queue s) A" "notify (sync_queue s) = (False, False)"
    and free: "slice_of (pcs 0) = None \<longrightarrow> \<not> aq_held A"
    using sync_vec_rep [OF new reach] by auto
  have A: "aq_closed A"
    using closed vec_buf.observers_refine(3) [OF q(1)] by simp
  have shape: "pc_shape small_array (t = 0) (pcs t)"
    using sync_invD(4) [OF sync_vec.reach_inv [OF reach sync_new_free [OF new]]] .
  note enq = closed_enqueue_attempt [OF q A] and deq = closed_dequeue_attempt [OF q(1) A]
  show ?thesis
  proof (intro conjI impI)
    show "sync_step vec_ops t (Run sp b) s (pcs t) = Some (Inr (s, Sync_Idle, Enqueue_Returns (Inl (Enqueue_Closed v))))"
      if "v \<noteq> [] \<and> (pcs t = Enq_Try (Suc k) v m \<or> pcs t = Enq_Retry v m \<or> pcs t = Enq_Last v)"
      using that shape enq by (auto simp: sync_step_def)
    show "\<exists>s' p ev. sync_step vec_ops t (Run sp b) s (pcs t) = Some (Inr (s', p, ev)) \<and>
        ((\<exists>sl. ev = Dequeue_Returns sl) \<or> ev = Try_Dequeue_Fails Closed \<or> ev = Dequeue_Fails Dequeue_Closed)"
      if pc: "pcs t = Deq_Try (Suc k) m \<or> pcs t = Deq_Retry m \<or> pcs t = Deq_Last"
    proof -
      have "t = 0"
        using that shape by auto
      then have "\<not> aq_held A"
        using that free by auto
      moreover obtain m' again where "sync_step vec_ops t (Run sp b) s (pcs t) = Some (dequeue_attempt vec_ops sp s m' again)"
        using pc by (auto simp: sync_step_def)
      ultimately show ?thesis
        using deq [of sp m' again] by simp
    qed
  qed
qed

lemma last_enqueue_attempt:
  assumes q: "queue_rep VecBuffer cells_rep (sync_queue s) A" and v: "small_array v"
  shows "\<exists>s' p r. enqueue_attempt vec_ops sp s v None = Inr (s', p, Enqueue_Returns r) \<and>
    (r = Inl (InsufficientCapacity v) \<longleftrightarrow> v \<noteq> [] \<and> \<not> aq_closed A \<and> aq_capacity A < length (aq_back A) + length v)"
proof -
  note I = cell_contract.array_contract [OF vec_buf.cell_contract_axioms]
  obtain r q' where "Queue_try_enqueue VecBuffer flag_notify (array_insert VecBuffer_insert) sp (sync_queue s) v = Inr (r, q')"
    "enqueue_result_rep v (fst (spec_enqueue v A)) r"
    using insert_contract.try_enqueue_refines [OF I q, of v flag_notify sp] v by (auto simp: small_array_def)
  then show ?thesis
    by (auto simp: enqueue_attempt_def enqueue_result_rep_def spec_enqueue_def split: bool.split)
qed

lemma last_dequeue_attempt:
  assumes q: "queue_rep VecBuffer cells_rep (sync_queue s) A" and free: "\<not> aq_held A"
  shows "\<exists>s' p ev. dequeue_attempt vec_ops sp s (Sync_Call True) None = Inr (s', p, ev) \<and>
    ((\<exists>sl. ev = Dequeue_Returns sl) \<or> ev = Try_Dequeue_Fails Closed \<or>
     ev = Try_Dequeue_Fails Empty \<and> aq_back A = [])"
proof -
  obtain r q' where run: "Queue_try_dequeue VecBuffer flag_notify sp (sync_queue s) = Inr (r, q')"
    and r: "dequeue_result_rep (\<lambda>x. x) (\<lambda>xs. xs) q' (snd (spec_dequeue A)) (fst (spec_dequeue A)) r"
    using vec_buf.try_dequeue_refines [OF q, of flag_notify sp] by blast
  have "r = Inl Closed \<or> r = Inl Empty \<and> aq_back A = [] \<or> (\<exists>sl. r = Inr sl)"
    using r free by (auto simp: dequeue_result_rep_def spec_dequeue_def split: if_splits)
  with run show ?thesis
    by (auto simp: dequeue_attempt_def Let_def dequeue_failure_def split: bool.split)
qed

text \<open>
  A call with a deadline ends. Once the deadline has passed, a waiting call makes one plain attempt and
  returns whatever that says: for an enqueue also the lack of capacity, for a dequeue also that the queue is
  empty.
\<close>

theorem sync_vec_deadline:
  assumes new: "Queue_with_capacity VecBuffer VecBuffer_resize (False, False) c = Inr q0"
    and reach: "sync_reach vec_ops (sync_allowed small_array) q0 s pcs"
  shows "(pcs t = Enq_Until v (Sync_Call True) \<longrightarrow>
      sync_step vec_ops t (Run sp True) s (pcs t) = Some (Inr (s, Enq_Last v, Sync_Tau)) \<and>
      (\<exists>s' p r. sync_step vec_ops t (Run sp b) s (Enq_Last v) = Some (Inr (s', p, Enqueue_Returns r)) \<and>
        (r = Inl (InsufficientCapacity v) \<longleftrightarrow> v \<noteq> [] \<and> \<not> Queue_is_closed (sync_queue s) \<and>
           unat (Queue_capacity (sync_queue s)) < unat (Queue_len (sync_queue s)) + length v))) \<and>
    (pcs t = Deq_Until (Sync_Call True) \<longrightarrow>
      sync_step vec_ops t (Run sp True) s (pcs t) = Some (Inr (s, Deq_Last, Sync_Tau)) \<and>
      (\<exists>s' p ev. sync_step vec_ops t (Run sp b) s Deq_Last = Some (Inr (s', p, ev)) \<and>
        ((\<exists>sl. ev = Dequeue_Returns sl) \<or> ev = Try_Dequeue_Fails Closed \<or>
         ev = Try_Dequeue_Fails Empty \<and> Queue_is_empty (sync_queue s))))"
proof -
  obtain A where q: "queue_rep VecBuffer cells_rep (sync_queue s) A"
    and free: "slice_of (pcs 0) = None \<longrightarrow> \<not> aq_held A"
    using sync_vec_rep [OF new reach] by auto
  have shape: "pc_shape small_array (t = 0) (pcs t)"
    using sync_invD(4) [OF sync_vec.reach_inv [OF reach sync_new_free [OF new]]] .
  note obs = vec_buf.observers_refine [OF q]
  have run: "sync_step vec_ops t (Run sp b) s (Enq_Last v) = Some (enqueue_attempt vec_ops sp s v None)"
    "sync_step vec_ops t (Run sp b) s Deq_Last = Some (dequeue_attempt vec_ops sp s (Sync_Call True) None)"
    by (simp_all add: sync_step_def)
  show ?thesis
  proof (intro conjI impI)
    assume pc: "pcs t = Enq_Until v (Sync_Call True)"
    then show "sync_step vec_ops t (Run sp True) s (pcs t) = Some (Inr (s, Enq_Last v, Sync_Tau))"
      by (simp add: sync_step_def wait_until_def enqueue_sync_def dequeue_sync_def)
    show "\<exists>s' p r. sync_step vec_ops t (Run sp b) s (Enq_Last v) = Some (Inr (s', p, Enqueue_Returns r)) \<and>
        (r = Inl (InsufficientCapacity v) \<longleftrightarrow> v \<noteq> [] \<and> \<not> Queue_is_closed (sync_queue s) \<and>
           unat (Queue_capacity (sync_queue s)) < unat (Queue_len (sync_queue s)) + length v)"
      using last_enqueue_attempt [OF q, of v sp] shape pc unfolding run obs by simp
  next
    assume pc: "pcs t = Deq_Until (Sync_Call True)"
    then show "sync_step vec_ops t (Run sp True) s (pcs t) = Some (Inr (s, Deq_Last, Sync_Tau))"
      by (simp add: sync_step_def wait_until_def enqueue_sync_def dequeue_sync_def)
    have "t = 0"
      using pc shape by simp
    then have "\<not> aq_held A"
      using pc free by simp
    then show "\<exists>s' p ev. sync_step vec_ops t (Run sp b) s Deq_Last = Some (Inr (s', p, ev)) \<and>
        ((\<exists>sl. ev = Dequeue_Returns sl) \<or> ev = Try_Dequeue_Fails Closed \<or>
         ev = Try_Dequeue_Fails Empty \<and> Queue_is_empty (sync_queue s))"
      using last_dequeue_attempt [OF q, of sp] unfolding run obs by simp
  qed
qed

text \<open>
  Thread \<open>1\<close> fills the queue and waits, with a deadline, to enqueue once more; thread \<open>2\<close> closes
  the queue.
\<close>

definition sync_full :: "(nat \<times> nat list sync_choice) list" where
  "sync_full = (1, Call (Call_Try_Enqueue [7])) # replicate 4 (1, Run [] False) @
     (1, Call (SynchronizedQueue_enqueue_timeout [8])) # replicate 69 (1, Run [] False)"

lemma sync_allowed_full:
  "\<forall>(t, ch) \<in> set (sync_full @ [(2, Call Call_Close)]). sync_allowed small_array t ch"
  by (simp add: sync_full_def sync_allowed_def small_array_def SynchronizedQueue_enqueue_timeout_def)

theorem sync_vec_deadline_witness:
  "\<exists>s pcs s' p. sync_exec vec_ops sync_full (sync_initial sync_example) (\<lambda>_. Sync_Idle) = Some (s, pcs) \<and>
     sync_step vec_ops 1 (Run [] True) s (pcs 1) = Some (Inr (s, Enq_Last [8], Sync_Tau)) \<and>
     sync_step vec_ops 1 (Run [] False) s (Enq_Last [8]) =
       Some (Inr (s', p, Enqueue_Returns (Inl (InsufficientCapacity [8]))))"
proof -
  have "map_option (\<lambda>(s, pcs). (Queue_is_closed (sync_queue s), Queue_capacity (sync_queue s), Queue_len (sync_queue s), pcs 1))
      (sync_exec vec_ops sync_full (sync_initial sync_example) (\<lambda>_. Sync_Idle)) =
    Some (False, 1, 1, Enq_Until [8] (Sync_Call True))"
    by code_simp
  then obtain s pcs where run: "sync_exec vec_ops sync_full (sync_initial sync_example) (\<lambda>_. Sync_Idle) = Some (s, pcs)"
    and here: "\<not> Queue_is_closed (sync_queue s)" "Queue_capacity (sync_queue s) = 1" "Queue_len (sync_queue s) = 1"
      "pcs 1 = Enq_Until [8] (Sync_Call True)"
    by auto
  have reach: "sync_reach vec_ops (sync_allowed small_array) sync_example s pcs"
    using sync_exec_reach [OF run sync_init] sync_allowed_full by simp
  show ?thesis
    using sync_vec_deadline [OF sync_example_new reach, of 1 "[8]" "[]" False] run here by simp
qed

theorem sync_vec_closed_witness:
  "\<exists>s pcs. sync_exec vec_ops (butlast sync_full @ [(2, Call Call_Close)]) (sync_initial sync_example) (\<lambda>_. Sync_Idle) =
       Some (s, pcs) \<and>
     sync_step vec_ops 1 (Run [] False) s (pcs 1) =
       Some (Inr (s, Sync_Idle, Enqueue_Returns (Inl (Enqueue_Closed [8]))))"
proof -
  have "map_option (\<lambda>(s, pcs). (Queue_is_closed (sync_queue s), pcs 1))
      (sync_exec vec_ops (butlast sync_full @ [(2, Call Call_Close)]) (sync_initial sync_example) (\<lambda>_. Sync_Idle)) =
    Some (True, Enq_Retry [8] (Sync_Call True))"
    by code_simp
  then obtain s pcs where
    run: "sync_exec vec_ops (butlast sync_full @ [(2, Call Call_Close)]) (sync_initial sync_example) (\<lambda>_. Sync_Idle) = Some (s, pcs)"
    and here: "Queue_is_closed (sync_queue s)" "pcs 1 = Enq_Retry [8] (Sync_Call True)"
    by auto
  have "\<forall>(t, ch) \<in> set (butlast sync_full @ [(2, Call Call_Close)]). sync_allowed small_array t ch"
    using sync_allowed_full by (auto dest: in_set_butlastD)
  from sync_exec_reach [OF run sync_init this]
  have reach: "sync_reach vec_ops (sync_allowed small_array) sync_example s pcs" .
  show ?thesis
    using sync_vec_closed [OF sync_example_new reach here(1), of "[8]" 1 0 "Sync_Call True" "[]" False] run here by simp
qed

section \<open>Termination of the calls\<close>

lemma blocked_pc:
  assumes "sync_run ops t sp b s p = None"
  shows "p = Sync_Idle \<or> (\<exists>sl. p = Sync_Holding sl) \<or> waits p \<or>
    \<not> wl_critical (wl_part t p) \<and> wl_lock (enqueuers s) \<noteq> None \<or>
    (\<exists>v m. p = Enq_Register LReg_Done v m) \<or> (\<exists>k. p = Notify_Enqueue LWake_Done k)"
  using assms
  by (cases "(ops, t, sp, b, s, p)" rule: sync_run.cases)
    (auto simp: register_enqueuer_None notify_enqueue_None waits_def)

text \<open>
  Every call on a \<open>SynchronizedQueue\<close> over \<open>VecBuffer\<close>, left to run, comes in finitely many
  steps to its return, to a wait, or to the mutex of the waker list while another thread holds it.
\<close>

theorem sync_vec_call_ends:
  assumes new: "Queue_with_capacity VecBuffer VecBuffer_resize (False, False) c = Inr q0"
    and reach: "sync_reach vec_ops (sync_allowed small_array) q0 s pcs"
  shows "\<exists>n s' pcs'. sync_exec vec_ops (replicate n (t, Run [] False)) s pcs = Some (s', pcs') \<and>
    (pcs' t = Sync_Idle \<or> (\<exists>sl. pcs' t = Sync_Holding sl) \<or> waits (pcs' t) \<or>
     (\<exists>u. u \<noteq> t \<and> wl_lock (enqueuers s') = Some u))"
  using reach
proof (induction "(stages_left (pcs t), length (wl_wakers (enqueuers s)))" arbitrary: s pcs
    rule: wf_induct_rule [OF wf_lex_prod [OF wf_less_than wf_less_than]])
  case (1 s pcs)
  let ?fin = "\<lambda>s pcs. pcs t = Sync_Idle \<or> (\<exists>sl. pcs t = Sync_Holding sl) \<or> waits (pcs t) \<or>
     (\<exists>u. u \<noteq> t \<and> wl_lock (enqueuers s) = Some u)"
  note inv = sync_vec.reach_inv [OF 1(2) sync_new_free [OF new]]
  show ?case
  proof (cases "?fin s pcs")
    case True
    then show ?thesis
      by (intro exI [of _ 0] exI [of _ s] exI [of _ pcs]) simp
  next
    case False
    have shape: "pc_shape small_array (t = 0) (pcs t)"
      using sync_invD(4) [OF inv] .
    have "sync_run vec_ops t [] False s (pcs t) \<noteq> None"
    proof
      assume "sync_run vec_ops t [] False s (pcs t) = None"
      with blocked_pc [OF this] False shape wl_invD(1) [OF sync_invD(2) [OF inv], of t] show False
        by auto
    qed
    then obtain r where r: "sync_step vec_ops t (Run [] False) s (pcs t) = Some r"
      by (auto simp: sync_step_def)
    have ok: "sync_allowed small_array t (Run [] False)"
      by (simp add: sync_allowed_def)
    from sync_vec.step_keeps [OF inv this r] obtain s1 p ev where
      step: "sync_step vec_ops t (Run [] False) s (pcs t) = Some (Inr (s1, p, ev))"
      using r by (auto simp: sync_keeps_def)
    have "((stages_left ((pcs(t := p)) t), length (wl_wakers (enqueuers s1))),
        (stages_left (pcs t), length (wl_wakers (enqueuers s)))) \<in> less_than <*lex*> less_than"
      using run_decreases [of vec_ops t "[]" False s "pcs t" s1 p ev] step False by (auto simp: sync_step_def)
    from 1(1) [OF this sync_next [OF 1(2) ok step]] obtain n s' pcs' where
      "sync_exec vec_ops (replicate n (t, Run [] False)) s1 (pcs(t := p)) = Some (s', pcs')" "?fin s' pcs'"
      by blast
    then show ?thesis
      using step by (intro exI [of _ "Suc n"] exI [of _ s'] exI [of _ pcs']) simp
  qed
qed

theorem sync_vec_call_ends_witness:
  "\<exists>n s pcs. sync_exec vec_ops (replicate n (0, Run [] False)) (sync_initial sync_example)
      ((\<lambda>_. Sync_Idle)(0 := Deq_Try SPIN_LIMIT (Sync_Call False))) = Some (s, pcs) \<and>
    (pcs 0 = Sync_Idle \<or> (\<exists>sl. pcs 0 = Sync_Holding sl) \<or> waits (pcs 0) \<or> (\<exists>u. u \<noteq> 0 \<and> wl_lock (enqueuers s) = Some u))"
proof -
  have "sync_exec vec_ops [(0, Call SynchronizedQueue_dequeue)] (sync_initial sync_example) (\<lambda>_. Sync_Idle) =
    Some (sync_initial sync_example, (\<lambda>_. Sync_Idle)(0 := Deq_Try SPIN_LIMIT (Sync_Call False)))"
    by (simp add: sync_step_def SynchronizedQueue_dequeue_def)
  from sync_exec_reach [OF this sync_init, of "sync_allowed small_array"]
  have "sync_reach vec_ops (sync_allowed small_array) sync_example (sync_initial sync_example)
      ((\<lambda>_. Sync_Idle)(0 := Deq_Try SPIN_LIMIT (Sync_Call False)))"
    by (simp add: sync_allowed_def SynchronizedQueue_dequeue_def)
  from sync_vec_call_ends [OF sync_example_new this, of 0] show ?thesis .
qed

section \<open>Iterating\<close>

text \<open>
  C29: Iterating over a closed \<open>SynchronizedQueue\<close> of \<open>VecBuffer\<close> ends and yields every value that is
  left, those of a requeued buffer first, in the order they were enqueued, and leaves the queue empty.
\<close>

theorem sync_iter_closed:
  assumes "queue_rep VecBuffer cells_rep q A" and "aq_closed A" and "\<not> aq_held A"
    and "length (aq_front A) + length (aq_back A) < k"
  shows "\<exists>q'. iter_collect k VecBuffer N VecBuffer_remove sp q None = Some (Inr (aq_front A @ aq_back A, q')) \<and>
    Queue_is_empty q' \<and> Queue_is_closed q'"
proof -
  obtain q' A' where run: "iter_collect k VecBuffer N VecBuffer_remove sp q None = Some (Inr (aq_front A @ aq_back A, q'))"
    and q': "queue_rep VecBuffer cells_rep q' A'" "aq_closed A'" "aq_back A' = []"
    using drain_contract.iter_collect_closed [OF vec_buf.drain_contract_axioms assms(1), of None k N sp] assms
    by (auto simp: iter_state_def)
  then show ?thesis
    using vec_buf.observers_refine [OF q'(1)] by simp
qed

theorem sync_iter_closed_witness:
  "\<exists>q'. iter_collect 3 VecBuffer unit_notify VecBuffer_remove [True] (Queue_close unit_notify example_queue) None =
     Some (Inr ([10, 20], q')) \<and> Queue_is_empty q' \<and> Queue_is_closed q'"
  using sync_iter_closed [OF vec_buf.close_refines [OF example_queue_rep, of unit_notify], of 3 unit_notify "[True]"]
  by (simp add: spec_close_def example_aqueue_def)

end
