(* ===== verification/Synchronized_Concurrent.thy ===== *)
theory Synchronized_Concurrent
  imports Synchronized Queue_Concurrent
begin

text \<open>
  \<open>SynchronizedQueue\<close> (\<open>src/src/synchronized.rs\<close>) at the grain of single accesses to shared memory.
  In \<open>Synchronized\<close> an attempt on the queue is one step; here it is the steps of
  \<open>Queue_Concurrent\<close>, so that the attempts of different threads, their registrations and their
  notifications interleave at every atomic load, store and compare-and-swap.

  A \<open>live_pc\<close> is where a thread is in a call: inside an operation of the queue (\<open>Queue_Call\<close>, with
  the operation's own program counter and the \<open>call_frame\<close> that says who made the attempt), inside a
  notification that this operation is making (\<open>Wakes_Dequeuer\<close>, \<open>Wakes_Enqueuers\<close>), about to load the
  capacity that decides whether to wait (\<open>Judges\<close>), registering, or waiting. The notifier of the queue is
  the two wakers of the shared state, so the queue's own \<open>notify\<close> field carries nothing.
\<close>

section \<open>Threads\<close>

text \<open>
  Who made the attempt: the caller itself, the spinning loop (with the number of attempts that it has left)
  or the attempt after the registration.
\<close>

datatype call_frame =
    Direct
  | Enq_Spins nat call_mode
  | Enq_Rechecks call_mode
  | Deq_Spins nat call_mode
  | Deq_Rechecks call_mode

datatype ('v, 's, 'r) live_pc =
    Queue_Call call_frame "('v, 's, 'r) pc"
  | Calls call_frame "('v, 'r) request"
  | Wakes_Dequeuer wake_pc call_frame "('v, 's, 'r) pc"
  | Wakes_Enqueuers list_wake_pc call_frame "('v, 's, 'r) pc"
  | Judges call_frame 'v
  | Registers_Enqueuer list_register_pc 'v call_mode
  | Registers_Dequeuer register_pc call_mode
  | Until_Enq 'v call_mode
  | Until_Deq call_mode
  | Parked_Enq 'v call_mode
  | Parked_Deq call_mode

abbreviation Resting :: "('v, 's, 'r) live_pc" where
  "Resting \<equiv> Queue_Call Direct Idle"

text \<open>What a thread is doing inside the queue.\<close>

primrec inner :: "('v, 's, 'r) live_pc \<Rightarrow> ('v, 's, 'r) pc" where
  "inner (Queue_Call f p) = p"
| "inner (Calls f req) = Idle"
| "inner (Wakes_Dequeuer w f p) = p"
| "inner (Wakes_Enqueuers w f p) = p"
| "inner (Judges f v) = Idle"
| "inner (Registers_Enqueuer w v m) = Idle"
| "inner (Registers_Dequeuer w m) = Idle"
| "inner (Until_Enq v m) = Idle"
| "inner (Until_Deq m) = Idle"
| "inner (Parked_Enq v m) = Idle"
| "inner (Parked_Deq m) = Idle"

text \<open>The calls: those that wait, and the operations of the queue that \<open>SynchronizedQueue\<close> derefs to.\<close>

datatype ('v, 'r) live_call =
    Wait_Enqueue 'v call_mode
  | Wait_Dequeue call_mode
  | Request "('v, 'r) request"

text \<open>
  A thread makes a call, goes on (with whether a compare-and-swap fails spuriously, and whether a deadline
  has passed or a wait ends without a signal), uses the slice or iterator it holds, or drops the future of
  a call that is pending.
\<close>

datatype ('v, 'r) live_choice =
    Live_Call "('v, 'r) live_call"
  | Live_Run bool bool
  | Live_Handle handle_op
  | Live_Cancel

text \<open>
  A step gives the new shared state, where the thread is, the events of the queue (at most one) and what the
  caller sees.
\<close>

type_synonym ('b, 's, 'n, 'v, 'c, 'r) live_outcome =
  "(('b, 'n) queue sync_shared \<times> ('v, 's, 'r) live_pc \<times> ('v, 's, 'c, 'r) event list \<times> ('v, 's) sync_event) exec"

section \<open>Attempts\<close>

text \<open>The next attempt of a spinning call, or the registration when there is none left.\<close>

definition next_enqueue :: "nat \<Rightarrow> 'v \<Rightarrow> call_mode \<Rightarrow> ('v, 's, 'r) live_pc" where
  "next_enqueue k v m =
     (case k of 0 \<Rightarrow> Registers_Enqueuer LReg_Lock v m | Suc j \<Rightarrow> Calls (Enq_Spins j m) (Req_Enqueue v))"

definition next_dequeue :: "nat \<Rightarrow> call_mode \<Rightarrow> ('v, 's, 'r) live_pc" where
  "next_dequeue k m =
     (case k of 0 \<Rightarrow> Registers_Dequeuer Reg_Begin m | Suc j \<Rightarrow> Calls (Deq_Spins j m) (Req_Dequeue None))"

text \<open>An attempt to enqueue has returned \<open>r\<close>: without room, a waiting call goes on to load the capacity.\<close>

fun enqueue_returned ::
    "call_frame \<Rightarrow> 'v try_enqueue_error + unit \<Rightarrow> ('v, 's, 'r) live_pc \<times> ('v, 's) sync_event" where
  "enqueue_returned (Enq_Spins k m) (Inl (InsufficientCapacity v)) = (Judges (Enq_Spins k m) v, Sync_Tau)"
| "enqueue_returned (Enq_Rechecks m) (Inl (InsufficientCapacity v)) = (Judges (Enq_Rechecks m) v, Sync_Tau)"
| "enqueue_returned f r = (Resting, Enqueue_Returns r)"

text \<open>The guard \<open>v.size() <= queue.capacity()\<close>, and where each attempt goes on when it holds.\<close>

definition judge_capacity ::
    "('b, 's, 'n, 'v, 'c, 'r) sys \<Rightarrow> ('b, 'n) queue \<Rightarrow> call_frame \<Rightarrow> 'v \<Rightarrow>
     ('v, 's, 'r) live_pc \<times> ('v, 's) sync_event" where
  "judge_capacity S q f v =
     (if ins_size (sys_insert S) v \<le> Queue_capacity q
      then (case f of
              Enq_Spins k m \<Rightarrow> next_enqueue k v m
            | Enq_Rechecks m \<Rightarrow> after_retry m (Until_Enq v m) (Parked_Enq v m)
            | _ \<Rightarrow> Resting, Sync_Tau)
      else (Resting, Enqueue_Returns (Inl (InsufficientCapacity v))))"

text \<open>An attempt to dequeue has failed with \<open>e\<close>.\<close>

definition dequeue_returned ::
    "call_frame \<Rightarrow> try_dequeue_error \<Rightarrow> (('v, 's, 'r) live_pc \<times> ('v, 's) sync_event) exec" where
  "dequeue_returned f e =
     (case f of
        Deq_Spins k m \<Rightarrow>
          if e = Empty \<or> e = Pending then Inr (next_dequeue k m, Sync_Tau)
          else and_then (dequeue_failure m e) (\<lambda>ev. Inr (Resting, ev))
      | Deq_Rechecks m \<Rightarrow>
          if e = Empty \<or> e = Pending then Inr (after_retry m (Until_Deq m) (Parked_Deq m), Sync_Tau)
          else and_then (dequeue_failure m e) (\<lambda>ev. Inr (Resting, ev))
      | _ \<Rightarrow> Inr (Resting, Try_Dequeue_Fails e))"

text \<open>Where a thread goes on after a step of the queue that left it at \<open>p\<close> and showed \<open>ev\<close>.\<close>

definition live_resume ::
    "call_frame \<Rightarrow> ('v, 's, 'r) pc \<Rightarrow> ('v, 's, 'c, 'r) event \<Rightarrow>
     (('v, 's, 'r) live_pc \<times> ('v, 's) sync_event) exec" where
  "live_resume f p ev =
     (case ev of
        Ev_Enqueue r \<Rightarrow> Inr (enqueue_returned f r)
      | Ev_Dequeue_Err e \<Rightarrow> dequeue_returned f e
      | Ev_Sliced sl \<Rightarrow> Inr (Queue_Call Direct p, Dequeue_Returns sl)
      | _ \<Rightarrow> Inr (Queue_Call f p, Sync_Tau))"

definition queue_moves ::
    "('b, 'n) queue sync_shared \<Rightarrow> call_frame \<Rightarrow> ('b, 's, 'n, 'v, 'c, 'r) outcome \<Rightarrow>
     ('b, 's, 'n, 'v, 'c, 'r) live_outcome option" where
  "queue_moves s f r =
     map_option (\<lambda>x. and_then x (\<lambda>(q, p, ev). and_then (live_resume f p ev) (\<lambda>(p', sev).
       Inr (s\<lparr>sync_queue := q\<rparr>, p', [ev], sev)))) r"

section \<open>Steps\<close>

text \<open>The program counters of the queue at which an operation calls its notifier.\<close>

definition notifies_dequeue :: "('v, 's, 'r) pc \<Rightarrow> bool" where
  "notifies_dequeue p = (case p of Enq_Notify \<Rightarrow> True | Close_Dequeue \<Rightarrow> True | _ \<Rightarrow> False)"

definition notifies_enqueue :: "('v, 's, 'r) pc \<Rightarrow> bool" where
  "notifies_enqueue p = (case p of Deq_Notify _ _ _ _ \<Rightarrow> True | Close_Enqueue \<Rightarrow> True | _ \<Rightarrow> False)"

text \<open>A step that does not concern the queue.\<close>

definition stays ::
    "('b, 'n) queue sync_shared \<Rightarrow> ('v, 's, 'r) live_pc \<Rightarrow> ('b, 's, 'n, 'v, 'c, 'r) live_outcome" where
  "stays s p = Inr (s, p, [], Sync_Tau)"

primrec live_run ::
    "('b, 's, 'n, 'v, 'c, 'r) sys \<Rightarrow> nat \<Rightarrow> bool \<Rightarrow> bool \<Rightarrow> ('b, 'n) queue sync_shared \<Rightarrow>
     ('v, 's, 'r) live_pc \<Rightarrow> ('b, 's, 'n, 'v, 'c, 'r) live_outcome option" where
  "live_run S t sp b s (Queue_Call f p) =
     (if notifies_dequeue p then Some (stays s (Wakes_Dequeuer Wake_Begin f p))
      else if notifies_enqueue p then Some (stays s (Wakes_Enqueuers LWake_Load f p))
      else queue_moves s f (step_go S sp (sync_queue s) p))"
| "live_run S t sp b s (Calls f req) = queue_moves s f (step_start S (sync_queue s) req)"
| "live_run S t sp b s (Wakes_Dequeuer w f p) =
     (if w = Wake_Done then queue_moves s f (step_go S sp (sync_queue s) p)
      else Some (and_then (AtomicWaker_wake w (dequeuer s) (sync_signals s)) (\<lambda>(w', d, sg).
        stays (s\<lparr>dequeuer := d, sync_signals := sg\<rparr>) (Wakes_Dequeuer w' f p))))"
| "live_run S t sp b s (Wakes_Enqueuers w f p) =
     (if w = LWake_Done then queue_moves s f (step_go S sp (sync_queue s) p)
      else map_option (\<lambda>(w', l, sg). stays (s\<lparr>enqueuers := l, sync_signals := sg\<rparr>) (Wakes_Enqueuers w' f p))
        (WakerList_wake t w (enqueuers s) (sync_signals s)))"
| "live_run S t sp b s (Judges f v) =
     (case judge_capacity S (sync_queue s) f v of (p, ev) \<Rightarrow> Some (Inr (s, p, [], ev)))"
| "live_run S t sp b s (Registers_Enqueuer w v m) =
     map_option (\<lambda>(w', l). stays (s\<lparr>enqueuers := l\<rparr>)
         (if w' = LReg_Done then Calls (Enq_Rechecks m) (Req_Enqueue v) else Registers_Enqueuer w' v m))
       (WakerList_register t (mode_cx m t) w (enqueuers s))"
| "live_run S t sp b s (Registers_Dequeuer w m) =
     Some (and_then (AtomicWaker_register t (mode_cx m t) w (dequeuer s) (sync_signals s)) (\<lambda>(w', d, sg).
       stays (s\<lparr>dequeuer := d, sync_signals := sg\<rparr>)
         (if w' = Reg_Done then Calls (Deq_Rechecks m) (Req_Dequeue None) else Registers_Dequeuer w' m)))"
| "live_run S t sp b s (Until_Enq v m) =
     Some (stays s (if wait_until m b then Calls Direct (Req_Enqueue v) else Parked_Enq v m))"
| "live_run S t sp b s (Until_Deq m) =
     Some (stays s (if wait_until m b then Calls Direct (Req_Dequeue None) else Parked_Deq m))"
| "live_run S t sp b s (Parked_Enq v m) =
     (if b \<or> mode_waker m t \<in> sync_signals s
      then Some (stays (s\<lparr>sync_signals := sync_signals s - {mode_waker m t}\<rparr>) (next_enqueue SPIN_LIMIT v m))
      else None)"
| "live_run S t sp b s (Parked_Deq m) =
     (if b \<or> mode_waker m t \<in> sync_signals s
      then Some (stays (s\<lparr>sync_signals := sync_signals s - {mode_waker m t}\<rparr>) (next_dequeue SPIN_LIMIT m))
      else None)"

fun live_start :: "('v, 'r) live_call \<Rightarrow> ('v, 's, 'r) live_pc" where
  "live_start (Wait_Enqueue v m) = next_enqueue SPIN_LIMIT v m"
| "live_start (Wait_Dequeue m) = next_dequeue SPIN_LIMIT m"
| "live_start (Request req) = Calls Direct req"

text \<open>The owner of a slice or an iterator uses it; what it is given to see is in the event of the queue.\<close>

definition handle_moves ::
    "('b, 's, 'n, 'v, 'c, 'r) sys \<Rightarrow> ('b, 'n) queue sync_shared \<Rightarrow> handle_op \<Rightarrow> ('v, 's, 'r) pc \<Rightarrow>
     ('b, 's, 'n, 'v, 'c, 'r) live_outcome option" where
  "handle_moves S s op p =
     map_option (\<lambda>x. and_then x (\<lambda>(q, p', ev). Inr (s\<lparr>sync_queue := q\<rparr>, Queue_Call Direct p', [ev], Sync_Tau)))
       (step_handle S (sync_queue s) op p)"

definition future_dropped :: "('v, 's, 'r) live_pc \<Rightarrow> bool" where
  "future_dropped p =
     (case p of Parked_Enq v m \<Rightarrow> m = Async_Task | Parked_Deq m \<Rightarrow> m = Async_Task | _ \<Rightarrow> False)"

definition live_step ::
    "('b, 's, 'n, 'v, 'c, 'r) sys \<Rightarrow> nat \<Rightarrow> ('v, 'r) live_choice \<Rightarrow> ('b, 'n) queue sync_shared \<Rightarrow>
     ('v, 's, 'r) live_pc \<Rightarrow> ('b, 's, 'n, 'v, 'c, 'r) live_outcome option" where
  "live_step S t ch s p =
     (case ch of
        Live_Call c \<Rightarrow> (case p of Queue_Call Direct Idle \<Rightarrow> Some (stays s (live_start c)) | _ \<Rightarrow> None)
      | Live_Run sp b \<Rightarrow> live_run S t sp b s p
      | Live_Handle op \<Rightarrow> (case p of Queue_Call Direct p' \<Rightarrow> handle_moves S s op p' | _ \<Rightarrow> None)
      | Live_Cancel \<Rightarrow> if future_dropped p then Some (stays s Resting) else None)"

section \<open>Interleavings\<close>

inductive live_reach ::
    "('b, 's, 'n, 'v, 'c, 'r) sys \<Rightarrow> (nat \<Rightarrow> ('v, 'r) live_choice \<Rightarrow> bool) \<Rightarrow> nat \<Rightarrow> ('b, 'n) queue \<Rightarrow>
     ('v, 's, 'c, 'r) event list \<Rightarrow> ('b, 'n) queue sync_shared \<Rightarrow> (nat \<Rightarrow> ('v, 's, 'r) live_pc) \<Rightarrow> bool"
  for S allowed n q0 where
  live_init: "live_reach S allowed n q0 [] (sync_initial q0) (\<lambda>_. Resting)"
| live_next: "live_reach S allowed n q0 tr s pcs \<Longrightarrow> t < n \<Longrightarrow> allowed t ch \<Longrightarrow>
    live_step S t ch s (pcs t) = Some (Inr (s', p, evs, sev)) \<Longrightarrow>
    live_reach S allowed n q0 (tr @ evs) s' (pcs(t := p))"

text \<open>No thread can go on by itself.\<close>

definition live_stuck ::
    "('b, 's, 'n, 'v, 'c, 'r) sys \<Rightarrow> ('b, 'n) queue sync_shared \<Rightarrow> (nat \<Rightarrow> ('v, 's, 'r) live_pc) \<Rightarrow> bool" where
  "live_stuck S s pcs \<longleftrightarrow> (\<forall>t sp. live_run S t sp False s (pcs t) = None)"

text \<open>One schedule of the choices of the threads; a choice that a thread cannot make is skipped.\<close>

fun live_exec ::
    "('b, 's, 'n, 'v, 'c, 'r) sys \<Rightarrow> (nat \<times> ('v, 'r) live_choice) list \<Rightarrow> ('b, 'n) queue sync_shared \<Rightarrow>
     (nat \<Rightarrow> ('v, 's, 'r) live_pc) \<Rightarrow>
     (('v, 's, 'c, 'r) event list \<times> ('b, 'n) queue sync_shared \<times> (nat \<Rightarrow> ('v, 's, 'r) live_pc)) exec" where
  "live_exec S [] s pcs = Inr ([], s, pcs)"
| "live_exec S ((t, ch) # sched) s pcs =
     (case live_step S t ch s (pcs t) of
        None \<Rightarrow> live_exec S sched s pcs
      | Some r \<Rightarrow> and_then r (\<lambda>(s', p, evs, sev).
          and_then (live_exec S sched s' (pcs(t := p))) (\<lambda>(tr, x). Inr (evs @ tr, x))))"

end
