(* ===== verification/Concurrent_Progress.thy ===== *)
theory Concurrent_Progress
  imports Concurrent_Properties
begin

text \<open>
  The operations of the queue are obstruction free: a thread that is left to run, from any state that an
  interleaving can reach, is out of its operation after a fixed number of steps, not counting the spurious failures of
  \<open>compare_exchange_weak\<close>. \<open>steps_left\<close> counts them; apart from spurious failures a compare-and-swap can fail only once
  before it finds the word that it expects.
\<close>

lemmas go_defs = go_enq_cas_def go_enq_insert_def go_enq_ack_def go_deq_lock_def go_deq_open_def go_deq_add_def
  go_deq_check_def go_deq_swap_def go_deq_notify_def go_deq_spin_def go_deq_slice_def Let_def and_then_eq_Inr

lemmas go_splits = if_splits option.splits sum.splits prod.splits nat.splits

section \<open>Steps left in an operation of the queue\<close>

text \<open>A second round of \<open>try_dequeue_internal\<close> follows a swap that only had inserted values.\<close>

definition second_round :: "usize \<Rightarrow> nat" where
  "second_round ins = (if ins > 0 then SPIN_LIMIT + 20 else 0)"

text \<open>
  How many steps an operation has left when nobody interferes. A compare-and-swap whose expected word is out of
  date takes one step more, for the load that its failure is.
\<close>

primrec steps_left :: "('b, 'n) queue \<Rightarrow> ('v, 's, 'r) pc \<Rightarrow> nat" where
  "steps_left q Idle = 0"
| "steps_left q (Enq_Load v) = 6"
| "steps_left q (Enq_Cas v enq) = (if enq = enqueuing_capacity q then 4 else 5)"
| "steps_left q (Enq_Insert v enq) = 3"
| "steps_left q (Enq_Ack v enq) = 2"
| "steps_left q Enq_Notify = 1"
| "steps_left q (Deq_Lock r) = 2 * SPIN_LIMIT + 31"
| "steps_left q (Deq_Open deq r) = SPIN_LIMIT + 10 + (if r = None then 0 else SPIN_LIMIT + 20)"
| "steps_left q (Deq_Add deq r nc rs ins) = SPIN_LIMIT + 9 + second_round ins"
| "steps_left q (Deq_Load deq r nc rs ins) = SPIN_LIMIT + 8 + second_round ins"
| "steps_left q (Deq_Check deq r nc rs ins enq) = SPIN_LIMIT + 7 + second_round ins"
| "steps_left q (Deq_Swap r nc rs ins capa enq ne) =
     SPIN_LIMIT + (if enq = enqueuing_capacity q then 5 else 6) + second_round ins"
| "steps_left q (Deq_Capacity nc rs ins capa enq) = SPIN_LIMIT + 4 + second_round ins"
| "steps_left q (Deq_Notify rs ins capa enq) = SPIN_LIMIT + 3 + second_round ins"
| "steps_left q (Deq_Spin k i len) = k + 2"
| "steps_left q (Deq_Slice i len n) = 1"
| "steps_left q (Deq_Store w e) = 1"
| "steps_left q (Holding sl) = 0"
| "steps_left q (Iterating it) = 0"
| "steps_left q (Rel_Clear i r) = 3"
| "steps_left q (Rel_Len i) = 2"
| "steps_left q (Rel_Unlock i) = 1"
| "steps_left q Close_Flag = 3"
| "steps_left q Close_Dequeue = 2"
| "steps_left q Close_Enqueue = 1"
| "steps_left q Reopen_Flag = 1"

lemma run_resize_left:
  "run_resize (map_option g r) b = Inr (b', rs, ins) \<Longrightarrow> second_round ins \<le> (if r = None then 0 else SPIN_LIMIT + 20)"
  by (cases r) (auto simp: run_resize_def second_round_def)

lemma step_go_left:
  assumes "step_go S False q p = Some (Inr (q', p', ev))"
  shows "steps_left q' p' < steps_left q p"
proof (cases p)
  case (Deq_Open deq r)
  then show ?thesis
    using assms by (auto simp: go_deq_open_def and_then_eq_Inr dest!: run_resize_left split: if_splits)
next
  case (Deq_Notify rs ins capa enq)
  then show ?thesis
    using assms by (auto simp: go_deq_notify_def Let_def and_then_eq_Inr second_round_def split: if_splits)
qed (use assms in \<open>auto simp: go_defs cas_weak_def Queue_lock_dequeuing_def split: go_splits\<close>)

text \<open>A spurious failure leaves the queue alone, and the thread as far from its end as it was, or nearer.\<close>

lemma step_go_spurious:
  "step_go S sp q p = step_go S False q p \<or>
   (\<exists>p'. step_go S sp q p = Some (Inr (q, p', Tau)) \<and> steps_left q p' \<le> steps_left q p)"
  by (cases p) (auto simp: go_enq_cas_def go_deq_swap_def cas_weak_def split: option.splits)

lemma step_start_left:
  assumes "step_start S q req = Some (Inr (q', p, ev))"
  shows "steps_left q' p < 2 * SPIN_LIMIT + 32"
  using assms by (cases req) (auto split: if_splits)


section \<open>Operations end when nobody interferes\<close>

text \<open>A spin starts with \<open>SPIN_LIMIT\<close> rounds.\<close>

definition spins_bounded :: "('v, 's, 'r) pc \<Rightarrow> bool" where
  "spins_bounded p = (case p of Deq_Spin k i len \<Rightarrow> k \<le> SPIN_LIMIT | _ \<Rightarrow> True)"

lemma steps_left_bound: "spins_bounded p \<Longrightarrow> steps_left q p \<le> 2 * SPIN_LIMIT + 31"
  by (cases p) (auto simp: spins_bounded_def second_round_def)

lemma start_bounded: "step_start S q req = Some (Inr (q', p, ev)) \<Longrightarrow> spins_bounded p"
  by (cases req) (auto simp: spins_bounded_def split: if_splits)

lemma go_bounded: "step_go S sp q p = Some (Inr (q', p', ev)) \<Longrightarrow> spins_bounded p \<Longrightarrow> spins_bounded p'"
  by (cases p) (auto simp: spins_bounded_def go_defs split: go_splits)

lemma handle_bounded: "step_handle S q op p = Some (Inr (q', p', ev)) \<Longrightarrow> spins_bounded p'"
  by (cases p; cases op) (auto simp: step_handle_def handle_slice_def handle_iter_def handle_requeue_def spins_bounded_def
      and_then_eq_Inr split: if_splits option.splits)

lemma thread_bounded:
  "thread_step S q p ch = Some (Inr (q', p', ev)) \<Longrightarrow> spins_bounded p \<Longrightarrow> spins_bounded p'"
  by (cases ch) (auto simp: thread_step_def dest: start_bounded go_bounded handle_bounded split: if_splits)

lemma steps_bounded:
  assumes "sys_steps S allowed c tr c'" and "list_all spins_bounded (threads c)"
  shows "list_all spins_bounded (threads c')"
  using assms
proof (induction rule: sys_steps.induct)
  case (step tr c' t ch q p ev)
  then show ?case
    using thread_bounded [OF step.hyps(4)] by (auto simp: list_all_length nth_list_update)
qed simp

definition out_of_call :: "('v, 's, 'r) pc \<Rightarrow> bool" where
  "out_of_call p = (case p of Idle \<Rightarrow> True | Holding sl \<Rightarrow> True | Iterating it \<Rightarrow> True | _ \<Rightarrow> False)"

lemma go_None: "step_go S sp q p = None \<longleftrightarrow> p = Idle \<or> (\<exists>sl. p = Holding sl) \<or> (\<exists>it. p = Iterating it)"
  by (cases p) simp_all

lemma steps_left_none: "steps_left q p = 0 \<Longrightarrow> out_of_call p"
  by (cases p) (auto simp: out_of_call_def split: if_splits)

text \<open>Once out of a call a thread stays so; before, each of its steps brings it nearer.\<close>

lemma solo_run_ends:
  assumes "run_schedule S (map (\<lambda>sp. (t, Go sp)) sps) c = Inr (tr, c')" and "t < length (threads c)"
    and "steps_left (shared c) (threads c ! t) \<le> length (filter Not sps)"
  shows "out_of_call (threads c' ! t)"
  using assms
proof (induction sps arbitrary: c tr)
  case Nil
  then show ?case
    by (auto intro: steps_left_none)
next
  case (Cons sp sps)
  show ?case
  proof (cases "step_go S sp (shared c) (threads c ! t)")
    case None
    then have "run_schedule S (map (\<lambda>sp. (t, Go sp)) sps) c = Inr (tr, c')"
      using Cons.prems by (simp add: thread_step_def)
    moreover have "steps_left (shared c) (threads c ! t) = 0"
      using None by (auto simp: go_None)
    ultimately show ?thesis
      using Cons.IH Cons.prems(2) by auto
  next
    case (Some r)
    then obtain q p ev tr1 where r: "r = Inr (q, p, ev)"
      and rest: "run_schedule S (map (\<lambda>sp. (t, Go sp)) sps) \<lparr>shared = q, threads = (threads c)[t := p]\<rparr> = Inr (tr1, c')"
      using Cons.prems(1,2) by (cases r) (auto simp: thread_step_def and_then_eq_Inr)
    have "steps_left q p < steps_left (shared c) (threads c ! t) \<or>
        sp \<and> steps_left q p \<le> steps_left (shared c) (threads c ! t)"
      using step_go_spurious [of S sp "shared c" "threads c ! t"] step_go_left [of S "shared c" "threads c ! t" q p ev]
        Some r by (cases sp) auto
    with Cons.IH [OF rest] Cons.prems(2,3) show ?thesis
      by (auto split: if_splits)
  qed
qed

context conc_system
begin

theorem solo_ends:
  assumes steps: "sys_steps S (choice_ok honest content good) c tr c'"
    and inv: "conc_inv B rep img view honest content good inserted c A"
    and idle: "\<forall>u < length (threads c). threads c ! u = Idle" and t: "t < length (threads c)"
    and sps: "2 * SPIN_LIMIT + 31 \<le> length (filter Not sps)"
  shows "\<exists>tr' c''. run_schedule S (map (\<lambda>sp. (t, Go sp)) sps) c' = Inr (tr', c'') \<and> out_of_call (threads c'' ! t)"
proof -
  obtain A' where inv': "conc_inv B rep img view honest content good inserted c' A'"
    and len: "length (threads c') = length (threads c)"
    using steps_inv [OF steps inv] by blast
  obtain tr' c'' where run: "run_schedule S (map (\<lambda>sp. (t, Go sp)) sps) c' = Inr (tr', c'')"
    using schedule_runs [OF inv', of "map (\<lambda>sp. (t, Go sp)) sps"] by (auto simp: choice_ok_def)
  have "list_all spins_bounded (threads c)"
    using idle by (auto simp: list_all_length spins_bounded_def)
  from steps_bounded [OF steps this] have "spins_bounded (threads c' ! t)"
    using t len by (simp add: list_all_length)
  from solo_run_ends [OF run _ order_trans [OF steps_left_bound [OF this] sps]] run t len show ?thesis
    by auto
qed

end

text \<open>
  C9: The operations of a queue over \<open>VecBuffer\<close> are obstruction free. From every state that an interleaving of
  any number of threads can reach, whatever the other threads are in the middle of, a thread that runs alone is out of
  its operation after at most \<open>2 * SPIN_LIMIT + 31\<close> of its own steps, not counting those at which a
  \<open>compare_exchange_weak\<close> may fail spuriously (\<open>sps\<close> says at which it does): then it is idle or holds the slice or the
  iterator that it got.
\<close>

theorem concurrent_solo_ends:
  assumes "queue_rep VecBuffer cells_rep q A" and "\<not> aq_held A"
    and "vec_steps N (quiescent q n) tr c" and "t < n" and "2 * SPIN_LIMIT + 31 \<le> length (filter Not sps)"
  shows "\<exists>tr' c'. run_schedule (VecSystem N) (map (\<lambda>sp. (t, Go sp)) sps) c = Inr (tr', c') \<and>
    out_of_call (threads c' ! t)"
proof -
  have "vec_inv (quiescent q n) A"
    by (rule vec_conc.initial_inv [OF assms(1,2)]) simp
  from vec_conc.solo_ends [OF assms(3) [unfolded vec_choice_ok_def] this _ _ assms(5)] assms(4) show ?thesis
    by simp
qed

theorem concurrent_solo_ends_witness:
  "\<exists>tr c. run_schedule (VecSystem unit_notify) (map (\<lambda>sp. (1, Go sp)) (True # replicate 159 False)) example_mid =
     Inr (tr, c) \<and> out_of_call (threads c ! 1) \<and> \<not> out_of_call (threads example_mid ! 1)"
proof -
  obtain tr where tr: "vec_steps unit_notify (quiescent example_queue 2) tr example_mid"
    using example_steps(1) by blast
  have "2 * SPIN_LIMIT + 31 \<le> length (filter Not (True # replicate 159 False))"
    by (simp add: SPIN_LIMIT_def)
  from concurrent_solo_ends [OF example_queue_rep example_idle tr _ this, of 1]
  obtain tr' c where "run_schedule (VecSystem unit_notify) (map (\<lambda>sp. (1, Go sp)) (True # replicate 159 False)) example_mid =
     Inr (tr', c)" "out_of_call (threads c ! 1)"
    by (metis one_less_numeral_iff semiring_norm(76))
  moreover have "\<not> out_of_call (threads example_mid ! 1)"
    by (simp add: out_of_call_def example_mid_def)
  ultimately show ?thesis by blast
qed

end
