(* ===== verification/Live_Refinement.thy ===== *)
theory Live_Refinement
  imports Synchronized_Concurrent Concurrent_Progress
begin

text \<open>
  The threads of \<open>Synchronized_Concurrent\<close> use the queue as the threads of \<open>Queue_Concurrent\<close> do:
  every step is a step of the interleaved queue or leaves it alone (\<open>live_step_step\<close>), so that every run
  of blocking, timed and asynchronous calls is, seen from the queue, one of its interleavings
  (\<open>live_refines\<close>). \<open>live_shape\<close> says where a thread can be: an attempt of a waiting call is an
  enqueue of its value or a dequeue that resizes nothing, and only consumers dequeue.
\<close>

section \<open>Where a thread can be\<close>

definition enqueuing_pc :: "('v, 's, 'r) pc \<Rightarrow> bool" where
  "enqueuing_pc p =
     (case p of Enq_Load v \<Rightarrow> True | Enq_Cas v w \<Rightarrow> True | Enq_Insert v w \<Rightarrow> True | Enq_Ack v w \<Rightarrow> True
      | Enq_Notify \<Rightarrow> True | _ \<Rightarrow> False)"

text \<open>The attempt of a waiting call resizes nothing.\<close>

definition plain_dequeue :: "('v, 's, 'r) pc \<Rightarrow> bool" where
  "plain_dequeue p =
     (case p of Deq_Lock r \<Rightarrow> r = None | Deq_Open w r \<Rightarrow> r = None
      | Deq_Add w r nc rs ins \<Rightarrow> r = None \<and> \<not> rs \<and> ins = 0
      | Deq_Load w r nc rs ins \<Rightarrow> r = None \<and> \<not> rs \<and> ins = 0
      | Deq_Check w r nc rs ins enq \<Rightarrow> r = None \<and> \<not> rs \<and> ins = 0
      | Deq_Swap r nc rs ins capa enq ne \<Rightarrow> r = None \<and> \<not> rs \<and> ins = 0
      | Deq_Capacity nc rs ins capa enq \<Rightarrow> \<not> rs \<and> ins = 0
      | Deq_Notify rs ins capa enq \<Rightarrow> \<not> rs \<and> ins = 0
      | Deq_Spin k i len \<Rightarrow> True | Deq_Slice i len n \<Rightarrow> True | Deq_Store w e \<Rightarrow> True | _ \<Rightarrow> False)"

primrec frame_fits :: "call_frame \<Rightarrow> ('v, 's, 'r) pc \<Rightarrow> bool" where
  "frame_fits Direct p = True"
| "frame_fits (Enq_Spins k m) p = enqueuing_pc p"
| "frame_fits (Enq_Rechecks m) p = enqueuing_pc p"
| "frame_fits (Deq_Spins k m) p = plain_dequeue p"
| "frame_fits (Deq_Rechecks m) p = plain_dequeue p"

primrec frame_calls :: "call_frame \<Rightarrow> ('v, 'r) request \<Rightarrow> bool" where
  "frame_calls Direct req = True"
| "frame_calls (Enq_Spins k m) req = (\<exists>v. req = Req_Enqueue v)"
| "frame_calls (Enq_Rechecks m) req = (\<exists>v. req = Req_Enqueue v)"
| "frame_calls (Deq_Spins k m) req = (req = Req_Dequeue None)"
| "frame_calls (Deq_Rechecks m) req = (req = Req_Dequeue None)"

text \<open>Only a consumer locks the dequeuing side.\<close>

definition consuming :: "('v, 's, 'r) pc \<Rightarrow> bool" where
  "consuming p \<longleftrightarrow> is_dequeuing p \<or> (\<exists>r. p = Deq_Lock r)"

text \<open>The values and errors that may still be returned.\<close>

definition pc_value :: "(('v, 'r) request \<Rightarrow> bool) \<Rightarrow> ('v, 's, 'r) pc \<Rightarrow> bool" where
  "pc_value ok p =
     (case p of Enq_Load v \<Rightarrow> ok (Req_Enqueue v) | Enq_Cas v w \<Rightarrow> ok (Req_Enqueue v)
      | Deq_Store w e \<Rightarrow> e = Empty \<or> e = Closed | _ \<Rightarrow> True)"

definition call_ok :: "(('v, 'r) request \<Rightarrow> bool) \<Rightarrow> bool \<Rightarrow> call_frame \<Rightarrow> ('v, 's, 'r) pc \<Rightarrow> bool" where
  "call_ok ok consumer f p \<longleftrightarrow> frame_fits f p \<and> (consuming p \<longrightarrow> consumer) \<and> pc_value ok p"

definition request_ok :: "(('v, 'r) request \<Rightarrow> bool) \<Rightarrow> bool \<Rightarrow> ('v, 'r) request \<Rightarrow> bool" where
  "request_ok ok consumer req \<longleftrightarrow> ok req \<and> (\<forall>r. req = Req_Dequeue r \<longrightarrow> consumer)"

primrec live_shape :: "(('v, 'r) request \<Rightarrow> bool) \<Rightarrow> bool \<Rightarrow> ('v, 's, 'r) live_pc \<Rightarrow> bool" where
  "live_shape ok consumer (Queue_Call f p) = (call_ok ok consumer f p \<or> f = Direct \<and> p = Idle)"
| "live_shape ok consumer (Calls f req) = (request_ok ok consumer req \<and> frame_calls f req)"
| "live_shape ok consumer (Wakes_Dequeuer w f p) = (call_ok ok consumer f p \<and> notifies_dequeue p)"
| "live_shape ok consumer (Wakes_Enqueuers w f p) = (call_ok ok consumer f p \<and> notifies_enqueue p)"
| "live_shape ok consumer (Judges f v) = (ok (Req_Enqueue v) \<and> ((\<exists>k m. f = Enq_Spins k m) \<or> (\<exists>m. f = Enq_Rechecks m)))"
| "live_shape ok consumer (Registers_Enqueuer w v m) = (ok (Req_Enqueue v) \<and> w \<noteq> LReg_Done)"
| "live_shape ok consumer (Registers_Dequeuer w m) = (consumer \<and> w \<noteq> Reg_Done)"
| "live_shape ok consumer (Until_Enq v m) = ok (Req_Enqueue v)"
| "live_shape ok consumer (Until_Deq m) = consumer"
| "live_shape ok consumer (Parked_Enq v m) = ok (Req_Enqueue v)"
| "live_shape ok consumer (Parked_Deq m) = consumer"

text \<open>The requests are \<open>ok\<close>, and only the threads of \<open>consumers\<close> dequeue.\<close>

definition live_allowed ::
    "(('v, 'r) request \<Rightarrow> bool) \<Rightarrow> (nat \<Rightarrow> bool) \<Rightarrow> nat \<Rightarrow> ('v, 'r) live_choice \<Rightarrow> bool" where
  "live_allowed ok consumers t ch =
     (case ch of
        Live_Call c \<Rightarrow>
          (case c of Wait_Enqueue v m \<Rightarrow> ok (Req_Enqueue v) | Wait_Dequeue m \<Rightarrow> consumers t
           | Request req \<Rightarrow> request_ok ok (consumers t) req)
      | _ \<Rightarrow> True)"

section \<open>Steps of the queue inside a call\<close>

lemma go_end:
  assumes "step_go S sp q p = Some (Inr (q', p', ev))"
  shows "ev = Ev_Enqueue r \<Longrightarrow> p' = Idle \<and> (\<forall>v. r = Inl (InsufficientCapacity v) \<longrightarrow> (\<exists>w. p = Enq_Cas v w))"
    and "ev = Ev_Dequeue_Err e \<Longrightarrow> p' = Idle"
  using assms by (cases p; auto simp: go_defs split: go_splits)+

lemma go_consuming:
  assumes "step_go S sp q p = Some (Inr (q', p', ev))"
  shows "consuming p' \<Longrightarrow> consuming p" and "pc_value ok p \<Longrightarrow> pc_value ok p'"
  using assms by (cases p; auto simp: go_defs consuming_def is_dequeuing_def pc_value_def split: go_splits)+

lemma go_fits:
  assumes "step_go S sp q p = Some (Inr (q', p', ev))" and "frame_fits f p"
    and "\<And>r. ev \<noteq> Ev_Enqueue r" "\<And>e. ev \<noteq> Ev_Dequeue_Err e" "\<And>s. ev \<noteq> Ev_Sliced s"
  shows "frame_fits f p'"
proof -
  have "enqueuing_pc p'" if "enqueuing_pc p"
    using that assms(1,3-5) by (cases p) (auto simp: go_defs enqueuing_pc_def split: go_splits)
  moreover have "plain_dequeue p'" if "plain_dequeue p"
    using that assms(1,3-5)
    by (cases p) (auto simp: go_defs plain_dequeue_def run_resize_def guard_def split: go_splits)
  ultimately show ?thesis
    using assms(2) by (cases f) simp_all
qed

lemma plain_consuming: "plain_dequeue p \<Longrightarrow> consuming p"
  by (cases p) (simp_all add: plain_dequeue_def consuming_def is_dequeuing_def)

text \<open>Where a call goes on when its attempt has returned.\<close>

lemma next_shape:
  "live_shape ok c (next_enqueue k v m) = ok (Req_Enqueue v)"
  "ok (Req_Dequeue None) \<Longrightarrow> live_shape ok c (next_dequeue k m) = c"
  "inner (next_enqueue k v m) = Idle" "inner (next_dequeue k m) = Idle"
  by (auto simp: next_enqueue_def next_dequeue_def request_ok_def split: nat.split)

lemma returned_shape:
  "(\<And>v. r = Inl (InsufficientCapacity v) \<Longrightarrow> ok (Req_Enqueue v)) \<Longrightarrow> live_shape ok c (fst (enqueue_returned f r))"
  "inner (fst (enqueue_returned f r)) = Idle"
  by (cases "(f, r)" rule: enqueue_returned.cases; simp)+

lemma dequeue_returned_shape:
  assumes "dequeue_returned f e = Inr (lp, sev)"
  shows "inner lp = Idle"
    and "ok (Req_Dequeue None) \<Longrightarrow> ((\<exists>k m. f = Deq_Spins k m) \<or> (\<exists>m. f = Deq_Rechecks m) \<Longrightarrow> c) \<Longrightarrow> live_shape ok c lp"
  using assms
  by (auto simp: dequeue_returned_def next_shape after_retry_def and_then_eq_Inr
      split: call_frame.splits if_splits call_mode.splits)

lemma dequeue_returned_ok: "\<exists>x. dequeue_returned f e = Inr x"
  by (cases e)
    (auto simp: dequeue_returned_def dequeue_failure_def split: call_frame.split call_mode.split bool.split)

lemma live_resume_ok: "\<exists>x. live_resume f p ev = Inr x"
  using dequeue_returned_ok by (cases ev) (auto simp: live_resume_def)

lemma go_shape:
  assumes go: "step_go S sp q p = Some (Inr (q', p', ev))" and ok: "call_ok ok c f p"
    and resume: "live_resume f p' ev = Inr (lp, sev)" and deq: "ok (Req_Dequeue None)"
  shows "live_shape ok c lp" and "inner lp = p'"
proof -
  note fin = go_end [OF go] and keep = go_consuming [OF go]
  have fits: "frame_fits f p" and cons: "consuming p \<Longrightarrow> c" and val: "pc_value ok p"
    using ok by (simp_all add: call_ok_def)
  have c: c if "(\<exists>k m. f = Deq_Spins k m) \<or> (\<exists>m. f = Deq_Rechecks m)"
    using that fits cons plain_consuming [of p] by auto
  have v: "ok (Req_Enqueue v)" if "ev = Ev_Enqueue (Inl (InsufficientCapacity v))" for v
    using fin(1) [OF that] val by (auto simp: pc_value_def)
  have stay: "call_ok ok c f' p'" if "frame_fits f' p'" for f'
    using that keep cons val by (auto simp: call_ok_def)
  have on: "call_ok ok c f p'" if "\<And>r. ev \<noteq> Ev_Enqueue r" "\<And>e. ev \<noteq> Ev_Dequeue_Err e" "\<And>s. ev \<noteq> Ev_Sliced s"
    using stay go_fits [OF go fits that] by blast
  show "live_shape ok c lp" and "inner lp = p'"
  proof (atomize (full), cases ev)
    case (Ev_Enqueue r)
    then have lp: "lp = fst (enqueue_returned f r)"
      using resume by (simp add: live_resume_def)
    show "live_shape ok c lp \<and> inner lp = p'"
      unfolding lp using returned_shape(1) [of r ok c f] returned_shape(2) [of f r] fin(1) [OF Ev_Enqueue] v Ev_Enqueue by simp
  next
    case (Ev_Dequeue_Err e)
    then have "dequeue_returned f e = Inr (lp, sev)"
      using resume by (simp add: live_resume_def)
    from dequeue_returned_shape(1) [OF this] dequeue_returned_shape(2) [where ok = ok and c = c, OF this deq c]
    show "live_shape ok c lp \<and> inner lp = p'"
      using fin(2) [OF Ev_Dequeue_Err] by simp
  qed (use resume on stay [of Direct] in \<open>auto simp: live_resume_def\<close>)
qed

lemma start_shape:
  assumes start: "step_start S q req = Some (Inr (q', p', ev))" and ok: "request_ok ok c req" "frame_calls f req"
    and resume: "live_resume f p' ev = Inr (lp, sev)"
  shows "live_shape ok c lp" and "inner lp = p'"
proof -
  have "live_shape ok c lp \<and> inner lp = p'"
    using start ok resume
    by (cases req; cases f)
      (auto simp: live_resume_def call_ok_def enqueuing_pc_def plain_dequeue_def consuming_def is_dequeuing_def
        pc_value_def request_ok_def split: if_splits)
  then show "live_shape ok c lp" and "inner lp = p'"
    by simp_all
qed

lemma handle_shape:
  assumes "step_handle S q op p = Some (Inr (q', p', ev))"
  shows "consuming p" and "pc_value ok p'"
  using assms
  by (cases p; cases op; auto simp: step_handle_def handle_slice_def handle_iter_def handle_requeue_def consuming_def
      is_dequeuing_def pc_value_def and_then_eq_Inr split: if_splits option.splits prod.splits)+

lemma queue_moves_Inr:
  "queue_moves s f r = Some (Inr (s', lp, evs, sev)) \<longleftrightarrow>
   (\<exists>q p ev. r = Some (Inr (q, p, ev)) \<and> live_resume f p ev = Inr (lp, sev) \<and> s' = s\<lparr>sync_queue := q\<rparr> \<and> evs = [ev])"
  by (auto simp: queue_moves_def and_then_eq_Inr split: prod.splits)

lemma queue_moves_Inl: "queue_moves s f r = Some (Inl e) \<longleftrightarrow> r = Some (Inl e)"
proof (cases "\<exists>q p ev. r = Some (Inr (q, p, ev))")
  case True
  then obtain q p ev where r: "r = Some (Inr (q, p, ev))"
    by blast
  obtain lp sev where "live_resume f p ev = Inr (lp, sev)"
    using live_resume_ok [of f p ev] by auto
  then show ?thesis
    by (simp add: queue_moves_def r)
next
  case False
  then have "r = None \<or> (\<exists>e. r = Some (Inl e))"
    by (metis option.exhaust sum.exhaust prod_cases3)
  then show ?thesis
    by (auto simp: queue_moves_def)
qed

section \<open>A step of a thread is a step of the queue or leaves the queue alone\<close>

definition start_ok :: "(('v, 'r) request \<Rightarrow> bool) \<Rightarrow> ('v, 'r) choice \<Rightarrow> bool" where
  "start_ok ok ch = (case ch of Start req \<Rightarrow> ok req | _ \<Rightarrow> True)"

definition projected ::
    "('b, 's, 'n, 'v, 'c, 'r) sys \<Rightarrow> (('v, 'r) request \<Rightarrow> bool) \<Rightarrow> ('b, 'n) queue \<Rightarrow> ('v, 's, 'r) pc \<Rightarrow>
     ('b, 'n) queue \<Rightarrow> ('v, 's, 'r) pc \<Rightarrow> ('v, 's, 'c, 'r) event list \<Rightarrow> bool" where
  "projected S ok q p q' p' evs \<longleftrightarrow>
     evs = [] \<and> q' = q \<and> p' = p \<or>
     (\<exists>ch ev. evs = [ev] \<and> start_ok ok ch \<and> thread_step S q p ch = Some (Inr (q', p', ev)))"

lemma stays_Inr [simp]: "stays s p = Inr (s', p', evs, sev) \<longleftrightarrow> s' = s \<and> p' = p \<and> evs = [] \<and> sev = Sync_Tau"
  by (auto simp: stays_def)

lemma moves_go:
  assumes "queue_moves s f (step_go S sp (sync_queue s) p) = Some (Inr (s', lp, evs, sev))"
    and "call_ok ok c f p" and "ok (Req_Dequeue None)"
  shows "live_shape ok c lp" and "projected S ok (sync_queue s) p (sync_queue s') (inner lp) evs"
proof -
  obtain q p' ev where go: "step_go S sp (sync_queue s) p = Some (Inr (q, p', ev))"
    and resume: "live_resume f p' ev = Inr (lp, sev)" and s': "s' = s\<lparr>sync_queue := q\<rparr>" "evs = [ev]"
    using assms(1) unfolding queue_moves_Inr by blast
  note shape = go_shape [OF go assms(2) resume assms(3)]
  show "live_shape ok c lp"
    by (rule shape(1))
  have "thread_step S (sync_queue s) p (Go sp) = Some (Inr (q, p', ev))"
    using go by (simp add: thread_step_def)
  then show "projected S ok (sync_queue s) p (sync_queue s') (inner lp) evs"
    unfolding projected_def shape(2) s' by (intro disjI2 exI [of _ "Go sp"]) (simp add: start_ok_def)
qed

lemma moves_start:
  assumes "queue_moves s f (step_start S (sync_queue s) req) = Some (Inr (s', lp, evs, sev))"
    and "request_ok ok c req" "frame_calls f req"
  shows "live_shape ok c lp" and "projected S ok (sync_queue s) Idle (sync_queue s') (inner lp) evs"
proof -
  obtain q p' ev where start: "step_start S (sync_queue s) req = Some (Inr (q, p', ev))"
    and resume: "live_resume f p' ev = Inr (lp, sev)" and s': "s' = s\<lparr>sync_queue := q\<rparr>" "evs = [ev]"
    using assms(1) unfolding queue_moves_Inr by blast
  note shape = start_shape [OF start assms(2,3) resume]
  show "live_shape ok c lp"
    by (rule shape(1))
  have "thread_step S (sync_queue s) Idle (Start req) = Some (Inr (q, p', ev))"
    using start by (simp add: thread_step_def)
  then show "projected S ok (sync_queue s) Idle (sync_queue s') (inner lp) evs"
    unfolding projected_def shape(2) s'
    using assms(2) by (intro disjI2 exI [of _ "Start req"]) (simp add: start_ok_def request_ok_def)
qed

lemma idle_no_go: "step_go S sp q Idle = None"
  by simp

lemma live_run_step:
  assumes shape: "live_shape ok c p" and run: "live_run S t sp b s p = Some (Inr (s', p', evs, sev))"
    and deq: "ok (Req_Dequeue None)"
  shows "live_shape ok c p' \<and> projected S ok (sync_queue s) (inner p) (sync_queue s') (inner p') evs"
proof (cases p)
  case (Queue_Call f ip)
  then have "call_ok ok c f ip" if "ip \<noteq> Idle"
    using shape that by auto
  then show ?thesis
    using run Queue_Call moves_go [of s f S sp ip s' p' evs sev ok c] deq
    by (cases "ip = Idle")
      (auto simp: projected_def notifies_dequeue_def notifies_enqueue_def queue_moves_def split: if_splits)
next
  case (Calls f req)
  then show ?thesis
    using run shape moves_start [of s f S req s' p' evs sev ok c] by simp
next
  case (Wakes_Dequeuer w f ip)
  then show ?thesis
    using run shape moves_go [of s f S sp ip s' p' evs sev ok c] deq
    by (auto simp: projected_def and_then_eq_Inr split: if_splits)
next
  case (Wakes_Enqueuers w f ip)
  then show ?thesis
    using run shape moves_go [of s f S sp ip s' p' evs sev ok c] deq
    by (auto simp: projected_def split: if_splits)
next
  case (Judges f v)
  then show ?thesis
    using run shape
    by (auto simp: judge_capacity_def projected_def next_shape after_retry_def split: if_splits call_mode.splits)
qed (use run shape deq in \<open>auto simp: projected_def next_shape request_ok_def and_then_eq_Inr split: if_splits\<close>)

lemma live_step_step:
  assumes shape: "live_shape ok (consumers t) p" and allowed: "live_allowed ok consumers t ch"
    and step: "live_step S t ch s p = Some (Inr (s', p', evs, sev))" and deq: "ok (Req_Dequeue None)"
  shows "live_shape ok (consumers t) p' \<and> projected S ok (sync_queue s) (inner p) (sync_queue s') (inner p') evs"
proof (cases ch)
  case (Live_Call lc)
  then have p: "p = Resting" and s': "s' = s" "p' = live_start lc" "evs = []"
    using step by (auto simp: live_step_def split: live_pc.splits call_frame.splits pc.splits)
  show ?thesis
    using allowed deq Live_Call unfolding p s'
    by (cases lc) (auto simp: live_allowed_def next_shape projected_def)
next
  case (Live_Run sp b)
  then show ?thesis
    using live_run_step [OF shape _ deq] step by (simp add: live_step_def)
next
  case (Live_Handle op)
  then obtain ip where p: "p = Queue_Call Direct ip" and "handle_moves S s op ip = Some (Inr (s', p', evs, sev))"
    using step by (auto simp: live_step_def split: live_pc.splits call_frame.splits)
  then obtain q ip' ev where h: "step_handle S (sync_queue s) op ip = Some (Inr (q, ip', ev))"
    and s': "s' = s\<lparr>sync_queue := q\<rparr>" "p' = Queue_Call Direct ip'" "evs = [ev]"
    by (auto simp: handle_moves_def and_then_eq_Inr split: prod.splits)
  have "consumers t"
    using shape handle_shape(1) [OF h] unfolding p
    by (auto simp: call_ok_def consuming_def is_dequeuing_def)
  moreover have "thread_step S (sync_queue s) ip (Handle op) = Some (Inr (q, ip', ev))"
    using h by (simp add: thread_step_def)
  ultimately show ?thesis
    unfolding p s' projected_def using handle_shape(2) [OF h]
    by (auto simp: call_ok_def start_ok_def intro!: exI [of _ "Handle op"])
next
  case Live_Cancel
  then show ?thesis
    using step by (auto simp: live_step_def projected_def future_dropped_def split: if_splits live_pc.splits)
qed

section \<open>Every run is a run of the interleaved queue\<close>

definition queue_state ::
    "nat \<Rightarrow> ('b, 'n) queue sync_shared \<Rightarrow> (nat \<Rightarrow> ('v, 's, 'r) live_pc) \<Rightarrow> ('b, 'n, 'v, 's, 'r) state" where
  "queue_state n s pcs = \<lparr>shared = sync_queue s, threads = map (\<lambda>t. inner (pcs t)) [0..<n]\<rparr>"

lemma queue_state_simps [simp]:
  "shared (queue_state n s pcs) = sync_queue s" "length (threads (queue_state n s pcs)) = n"
  "t < n \<Longrightarrow> threads (queue_state n s pcs) ! t = inner (pcs t)"
  by (simp_all add: queue_state_def)

lemma inner_update:
  "t < n \<Longrightarrow> map (\<lambda>u. inner ((pcs(t := p)) u)) [0..<n] = (map (\<lambda>u. inner (pcs u)) [0..<n])[t := inner p]"
  by (intro nth_equalityI) (auto simp: nth_list_update)

lemma projected_steps:
  assumes steps: "sys_steps S (start_ok ok) c tr (queue_state n s pcs)" and t: "t < n"
    and step: "projected S ok (sync_queue s) (inner (pcs t)) (sync_queue s') (inner p) evs"
  shows "sys_steps S (start_ok ok) c (tr @ evs) (queue_state n s' (pcs(t := p)))"
proof -
  have upd: "queue_state n s' (pcs(t := p)) =
      \<lparr>shared = sync_queue s', threads = (threads (queue_state n s pcs))[t := inner p]\<rparr>"
    by (simp only: queue_state_def inner_update [OF t] state.simps)
  have same: "(threads (queue_state n s pcs))[t := inner (pcs t)] = threads (queue_state n s pcs)"
    using t by (simp add: list_update_same_conv)
  show ?thesis
    using step unfolding projected_def
  proof (elim disjE conjE exE)
    assume "evs = []" "sync_queue s' = sync_queue s" "inner p = inner (pcs t)"
    then show ?thesis
      unfolding upd using steps same by (simp add: queue_state_def)
  next
    fix ch ev
    assume "evs = [ev]" "start_ok ok ch" "thread_step S (sync_queue s) (inner (pcs t)) ch = Some (Inr (sync_queue s', inner p, ev))"
    then show ?thesis
      unfolding upd using sys_steps.step [OF steps, of t ch "sync_queue s'" "inner p" ev] t by simp
  qed
qed

theorem live_refines:
  assumes "live_reach S (live_allowed ok consumers) n q0 tr s pcs" and deq: "ok (Req_Dequeue None)"
  shows "(\<forall>t. live_shape ok (consumers t) (pcs t)) \<and>
    sys_steps S (start_ok ok) (quiescent q0 n) tr (queue_state n s pcs)"
  using assms(1)
proof (induction rule: live_reach.induct)
  case live_init
  show ?case
    by (simp add: queue_state_def sync_initial_def map_replicate_const sys_steps.start)
next
  case (live_next tr s pcs t ch s' p evs sev)
  then have shape: "live_shape ok (consumers t) (pcs t)"
    by blast
  note step = live_step_step [OF this live_next.hyps(3,4) deq]
  have "sys_steps S (start_ok ok) (quiescent q0 n) (tr @ evs) (queue_state n s' (pcs(t := p)))"
    by (rule projected_steps [OF _ live_next.hyps(2), where s = s]) (use live_next.IH step in simp_all)
  with step live_next.IH show ?case by (simp add: fun_upd_def)
qed

end
