(* ===== verification/Live_Wakers.thy ===== *)
theory Live_Wakers
  imports Live_Refinement Waker_Delivery
begin

text \<open>
  The two wakers under the threads of \<open>Synchronized_Concurrent\<close>: \<open>live_aw\<close> and \<open>live_wl\<close> say what
  a thread is doing with them, every step keeps their invariants (\<open>live_reach_wakers\<close>), and a step that
  faults is a fault of the queue itself (\<open>live_fault\<close>), which \<open>Concurrent_Safety\<close> rules out.
\<close>

section \<open>The wakers\<close>

primrec live_aw :: "nat \<Rightarrow> ('v, 's, 'r) live_pc \<Rightarrow> aw_act" where
  "live_aw t (Queue_Call f p) = Aw_Idle"
| "live_aw t (Calls f req) = Aw_Idle"
| "live_aw t (Wakes_Dequeuer w f p) = Aw_Wake w"
| "live_aw t (Wakes_Enqueuers w f p) = Aw_Idle"
| "live_aw t (Judges f v) = Aw_Idle"
| "live_aw t (Registers_Enqueuer w v m) = Aw_Idle"
| "live_aw t (Registers_Dequeuer w m) = Aw_Reg (mode_cx m t) w"
| "live_aw t (Until_Enq v m) = Aw_Idle"
| "live_aw t (Until_Deq m) = Aw_Idle"
| "live_aw t (Parked_Enq v m) = Aw_Idle"
| "live_aw t (Parked_Deq m) = Aw_Idle"

primrec live_wl :: "nat \<Rightarrow> ('v, 's, 'r) live_pc \<Rightarrow> wl_act" where
  "live_wl t (Queue_Call f p) = Wl_Idle"
| "live_wl t (Calls f req) = Wl_Idle"
| "live_wl t (Wakes_Dequeuer w f p) = Wl_Idle"
| "live_wl t (Wakes_Enqueuers w f p) = Wl_Wake w"
| "live_wl t (Judges f v) = Wl_Idle"
| "live_wl t (Registers_Enqueuer w v m) = Wl_Reg (mode_cx m t) w"
| "live_wl t (Registers_Dequeuer w m) = Wl_Idle"
| "live_wl t (Until_Enq v m) = Wl_Idle"
| "live_wl t (Until_Deq m) = Wl_Idle"
| "live_wl t (Parked_Enq v m) = Wl_Idle"
| "live_wl t (Parked_Deq m) = Wl_Idle"

definition live_wakers :: "('b, 'n) queue sync_shared \<Rightarrow> (nat \<Rightarrow> ('v, 's, 'r) live_pc) \<Rightarrow> bool" where
  "live_wakers s pcs \<longleftrightarrow>
     aw_inv (dequeuer s) (\<lambda>t. live_aw t (pcs t)) \<and> wl_inv (enqueuers s) (\<lambda>t. live_wl t (pcs t))"

lemma live_part_upd:
  "(\<lambda>u. live_aw u ((pcs(t := p)) u)) = (\<lambda>u. live_aw u (pcs u))(t := live_aw t p)"
  "(\<lambda>u. live_wl u ((pcs(t := p)) u)) = (\<lambda>u. live_wl u (pcs u))(t := live_wl t p)"
  by (simp_all add: fun_eq_iff)

text \<open>A thread is between calls of the wakers, or at an end of one.\<close>

definition outside :: "nat \<Rightarrow> ('v, 's, 'r) live_pc \<Rightarrow> bool" where
  "outside t p \<longleftrightarrow> \<not> aw_owns (live_aw t p) \<and> \<not> wl_critical (live_wl t p) \<and> \<not> wl_draining (live_wl t p)"

definition entering :: "nat \<Rightarrow> ('v, 's, 'r) live_pc \<Rightarrow> bool" where
  "entering t p \<longleftrightarrow> aw_entry (live_aw t p) \<and> wl_entry (live_wl t p)"

lemma wakers_move:
  assumes "live_wakers s pcs" and "outside t (pcs t)" and "entering t p"
    and "dequeuer s' = dequeuer s" and "enqueuers s' = enqueuers s"
  shows "live_wakers s' (pcs(t := p))"
  using assms unfolding live_wakers_def live_part_upd
  by (auto simp: outside_def entering_def intro!: aw_entry_move wl_entry_move)

lemma wakers_wake_dequeuer:
  assumes inv: "live_wakers s pcs" and t: "pcs t = Wakes_Dequeuer w f p"
  shows "\<exists>w' d sg. AtomicWaker_wake w (dequeuer s) (sync_signals s) = Inr (w', d, sg) \<and>
    live_wakers (s\<lparr>dequeuer := d, sync_signals := sg\<rparr>) (pcs(t := Wakes_Dequeuer w' f p))"
proof -
  have "aw_inv (dequeuer s) (\<lambda>t. live_aw t (pcs t))" "wl_inv (enqueuers s) (\<lambda>t. live_wl t (pcs t))"
    using inv by (simp_all add: live_wakers_def)
  with aw_wake_step [OF this(1), of t w "sync_signals s"] t show ?thesis
    unfolding live_wakers_def live_part_upd by (auto simp: fun_upd_idem)
qed

lemma wakers_register_dequeuer:
  assumes inv: "live_wakers s pcs" and t: "pcs t = Registers_Dequeuer w m"
  shows "\<exists>w' d sg. AtomicWaker_register t (mode_cx m t) w (dequeuer s) (sync_signals s) = Inr (w', d, sg) \<and>
    live_wakers (s\<lparr>dequeuer := d, sync_signals := sg\<rparr>)
      (pcs(t := if w' = Reg_Done then Calls (Deq_Rechecks m) (Req_Dequeue None) else Registers_Dequeuer w' m))"
proof -
  have aw: "aw_inv (dequeuer s) (\<lambda>t. live_aw t (pcs t))" and wl: "wl_inv (enqueuers s) (\<lambda>t. live_wl t (pcs t))"
    using inv by (simp_all add: live_wakers_def)
  obtain w' d sg where reg: "AtomicWaker_register t (mode_cx m t) w (dequeuer s) (sync_signals s) = Inr (w', d, sg)"
    and inv': "aw_inv d ((\<lambda>t. live_aw t (pcs t))(t := Aw_Reg (mode_cx m t) w'))"
    using aw_register_step [OF aw, of t "mode_cx m t" w "sync_signals s"] t by auto
  from aw_entry_move [OF inv', of t Aw_Idle] inv' wl reg t show ?thesis
    unfolding live_wakers_def live_part_upd by (auto simp: fun_upd_idem aw_owns_def aw_entry_def)
qed

lemma wakers_wake_enqueuers:
  assumes inv: "live_wakers s pcs" and t: "pcs t = Wakes_Enqueuers w f p"
    and wake: "WakerList_wake t w (enqueuers s) (sync_signals s) = Some (w', l, sg)"
  shows "live_wakers (s\<lparr>enqueuers := l, sync_signals := sg\<rparr>) (pcs(t := Wakes_Enqueuers w' f p))"
proof -
  have aw: "aw_inv (dequeuer s) (\<lambda>t. live_aw t (pcs t))" and wl: "wl_inv (enqueuers s) (\<lambda>t. live_wl t (pcs t))"
    using inv by (simp_all add: live_wakers_def)
  from wl_wake_step [OF wl _ wake] aw t show ?thesis
    unfolding live_wakers_def live_part_upd by (simp add: fun_upd_idem)
qed

lemma wakers_register_enqueuer:
  assumes inv: "live_wakers s pcs" and t: "pcs t = Registers_Enqueuer w v m"
    and reg: "WakerList_register t (mode_cx m t) w (enqueuers s) = Some (w', l)"
  shows "live_wakers (s\<lparr>enqueuers := l\<rparr>)
    (pcs(t := if w' = LReg_Done then Calls (Enq_Rechecks m) (Req_Enqueue v) else Registers_Enqueuer w' v m))"
proof -
  have aw: "aw_inv (dequeuer s) (\<lambda>t. live_aw t (pcs t))" and wl: "wl_inv (enqueuers s) (\<lambda>t. live_wl t (pcs t))"
    using inv by (simp_all add: live_wakers_def)
  have inv': "wl_inv l ((\<lambda>t. live_wl t (pcs t))(t := Wl_Reg (mode_cx m t) w'))"
    using wl_register_step [OF wl _ reg] t by simp
  from wl_entry_move [OF inv', of t Wl_Idle] inv' aw t show ?thesis
    unfolding live_wakers_def live_part_upd by (auto simp: fun_upd_idem wl_entry_def)
qed

lemma next_entering: "entering t (next_enqueue k v m)" "entering t (next_dequeue k m)"
  by (simp_all add: entering_def next_enqueue_def next_dequeue_def aw_entry_def wl_entry_def split: nat.split)

lemma idle_entering [simp]:
  "entering t (Queue_Call f p)" "entering t (Calls f req)" "entering t (Judges f v)" "entering t (Until_Enq v m)"
  "entering t (Until_Deq m)" "entering t (Parked_Enq v m)" "entering t (Parked_Deq m)"
  "entering t (Wakes_Dequeuer Wake_Begin f p)" "entering t (Wakes_Enqueuers LWake_Load f p)"
  by (simp_all add: entering_def aw_entry_def wl_entry_def)

lemma idle_outside [simp]:
  "outside t (Queue_Call f p)" "outside t (Calls f req)" "outside t (Judges f v)" "outside t (Until_Enq v m)"
  "outside t (Until_Deq m)" "outside t (Parked_Enq v m)" "outside t (Parked_Deq m)"
  "outside t (Wakes_Dequeuer Wake_Done f p)" "outside t (Wakes_Enqueuers LWake_Done f p)"
  by (simp_all add: outside_def aw_owns_def)

lemma resume_entering: "live_resume f p ev = Inr (lp, sev) \<Longrightarrow> entering t lp"
proof (cases ev)
  case (Ev_Enqueue r)
  then show "live_resume f p ev = Inr (lp, sev) \<Longrightarrow> entering t lp"
    by (cases "(f, r)" rule: enqueue_returned.cases) (auto simp: live_resume_def)
qed (auto simp: live_resume_def dequeue_returned_def next_entering after_retry_def and_then_eq_Inr
    split: call_frame.splits if_splits call_mode.splits)

lemma moves_wakers:
  assumes "live_wakers s pcs" and "outside t (pcs t)" and "queue_moves s f r = Some (Inr (s', lp, evs, sev))"
  shows "live_wakers s' (pcs(t := lp))"
  using assms resume_entering [of f _ _ lp sev t] unfolding queue_moves_Inr
  by (auto intro!: wakers_move [OF assms(1,2)])

lemma live_run_wakers:
  assumes inv: "live_wakers s pcs" and run: "live_run S t sp b s (pcs t) = Some (Inr (s', p', evs, sev))"
  shows "live_wakers s' (pcs(t := p'))"
proof (cases "pcs t")
  case (Wakes_Dequeuer w f p)
  then show ?thesis
    using run wakers_wake_dequeuer [OF inv Wakes_Dequeuer] moves_wakers [OF inv, of t f _ s' p' evs sev]
    by (auto split: if_splits)
next
  case (Registers_Dequeuer w m)
  then show ?thesis
    using run wakers_register_dequeuer [OF inv Registers_Dequeuer] by auto
next
  case (Wakes_Enqueuers w f p)
  then show ?thesis
    using run wakers_wake_enqueuers [OF inv Wakes_Enqueuers] moves_wakers [OF inv, of t f _ s' p' evs sev]
    by (auto split: if_splits)
next
  case (Registers_Enqueuer w v m)
  then show ?thesis
    using run wakers_register_enqueuer [OF inv Registers_Enqueuer] by auto
next
  case (Judges f v)
  then show ?thesis
    using run
    by (auto simp: judge_capacity_def next_entering after_retry_def intro!: wakers_move [OF inv]
        split: if_splits call_frame.splits call_mode.splits)
qed (use run moves_wakers [OF inv, of t _ _ s' p' evs sev] in
      \<open>auto simp: next_entering intro!: wakers_move [OF inv] split: if_splits\<close>)

lemma live_step_wakers:
  assumes inv: "live_wakers s pcs" and step: "live_step S t ch s (pcs t) = Some (Inr (s', p', evs, sev))"
  shows "live_wakers s' (pcs(t := p'))"
proof (cases ch)
  case (Live_Call lc)
  then have "pcs t = Resting" "s' = s" "p' = live_start lc"
    using step by (auto simp: live_step_def split: live_pc.splits call_frame.splits pc.splits)
  then show ?thesis
    by (cases lc) (auto simp: next_entering intro!: wakers_move [OF inv])
next
  case (Live_Run sp b)
  then show ?thesis
    using live_run_wakers [OF inv] step by (simp add: live_step_def)
next
  case (Live_Handle op)
  then show ?thesis
    using step
    by (auto simp: live_step_def handle_moves_def and_then_eq_Inr intro!: wakers_move [OF inv]
        split: live_pc.splits call_frame.splits prod.splits)
next
  case Live_Cancel
  then show ?thesis
    using step
    by (auto simp: live_step_def future_dropped_def intro!: wakers_move [OF inv] split: if_splits live_pc.splits)
qed

lemma live_reach_wakers: "live_reach S allowed n q0 tr s pcs \<Longrightarrow> live_wakers s pcs"
proof (induction rule: live_reach.induct)
  case live_init
  show ?case
    by (simp add: live_wakers_def sync_initial_def AtomicWaker_new_def WakerList_default_def aw_inv_def wl_inv_def
        aw_constants aw_owns_def aw_owner_ok_def)
next
  case (live_next tr s pcs t ch s' p evs sev)
  then show ?case
    using live_step_wakers [of s pcs S t ch s' p evs sev] by (simp add: fun_upd_def)
qed

text \<open>A fault of a thread is a fault of the queue: the wakers and the results have none.\<close>

lemma live_fault:
  assumes inv: "live_wakers s pcs" and shape: "live_shape ok (consumers t) (pcs t)"
    and allowed: "live_allowed ok consumers t ch" and fault: "live_step S t ch s (pcs t) = Some (Inl e)"
  shows "\<exists>ch'. start_ok ok ch' \<and> thread_step S (sync_queue s) (inner (pcs t)) ch' = Some (Inl e)"
proof -
  have go: ?thesis if "queue_moves s f (step_go S sp (sync_queue s) (inner (pcs t))) = Some (Inl e)" for f sp
    using that by (intro exI [of _ "Go sp"]) (simp add: queue_moves_Inl start_ok_def thread_step_def)
  show ?thesis
  proof (cases ch)
    case (Live_Call lc)
    then show ?thesis
      using fault by (auto simp: live_step_def stays_def split: live_pc.splits call_frame.splits pc.splits)
  next
    case (Live_Handle op)
    then obtain p where p: "pcs t = Queue_Call Direct p" and "handle_moves S s op p = Some (Inl e)"
      using fault by (auto simp: live_step_def split: live_pc.splits call_frame.splits)
    then have "step_handle S (sync_queue s) op p = Some (Inl e)"
      by (cases "the (step_handle S (sync_queue s) op p)") (auto simp: handle_moves_def)
    then show ?thesis
      using p by (intro exI [of _ "Handle op"]) (simp add: start_ok_def thread_step_def)
  next
    case Live_Cancel
    then show ?thesis
      using fault by (auto simp: live_step_def stays_def split: if_splits)
  next
    case (Live_Run sp b)
    then have run: "live_run S t sp b s (pcs t) = Some (Inl e)"
      using fault by (simp add: live_step_def)
    show ?thesis
    proof (cases "pcs t")
      case (Calls f req)
      then show ?thesis
        using run shape
        by (intro exI [of _ "Start req"]) (simp add: queue_moves_Inl start_ok_def thread_step_def request_ok_def)
    next
      case (Wakes_Dequeuer w f p)
      then show ?thesis
        using run go [of f sp] wakers_wake_dequeuer [OF inv Wakes_Dequeuer] by (auto simp: stays_def split: if_splits)
    next
      case (Registers_Dequeuer w m)
      then show ?thesis
        using run wakers_register_dequeuer [OF inv Registers_Dequeuer] by (auto simp: stays_def)
    qed (use run go in \<open>auto simp: stays_def split: if_splits prod.splits\<close>)
  qed
qed

end
