(* ===== verification/Live_Expectations.thy ===== *)
theory Live_Expectations
  imports Live_Wakers Synchronized_Invariant
begin

text \<open>
  Why a thread of \<open>Synchronized_Concurrent\<close> may wait. \<open>enq_expects\<close> and \<open>deq_expects\<close> give,
  for a call whose waker is registered, what its last attempt has seen of the queue so far and what
  therefore has to hold of the queue. \<open>enq_served\<close> and \<open>deq_served\<close> say that this does hold, or
  that the thread has its signal, or that a thread is on its way to wake it. The lemmas
  \<open>full_kept\<close> and \<open>idle_kept\<close> say which steps of the queue can change it: only those that put their
  thread on the way to a notification.
\<close>

section \<open>What a registered thread has seen\<close>

definition word_full :: "('b, 's, 'n, 'v, 'c, 'r) sys \<Rightarrow> usize \<Rightarrow> 'v \<Rightarrow> bool" where
  "word_full S w v \<longleftrightarrow> \<not> EC_is_closed w \<and> EC_try_reserve w (ins_size (sys_insert S) v) = None"

definition word_empty :: "('b, 's, 'n, 'v, 'c, 'r) sys \<Rightarrow> ('b, 'n) queue \<Rightarrow> usize \<Rightarrow> bool" where
  "word_empty S q w \<longleftrightarrow>
     \<not> EC_is_closed w \<and> EC_remaining_capacity w = buf_capacity (sys_buffer S) (two_get (buffers q) (EC_buffer_index w))"

definition queue_full :: "('b, 's, 'n, 'v, 'c, 'r) sys \<Rightarrow> 'v \<Rightarrow> ('b, 'n) queue \<Rightarrow> bool" where
  "queue_full S v q \<longleftrightarrow> word_full S (enqueuing_capacity q) v \<and> ins_size (sys_insert S) v \<le> Queue_capacity q"

definition queue_idle :: "('b, 's, 'n, 'v, 'c, 'r) sys \<Rightarrow> ('b, 'n) queue \<Rightarrow> bool" where
  "queue_idle S q \<longleftrightarrow> DL_buffer_len (dequeuing_length q) = 0 \<and> word_empty S q (enqueuing_capacity q)"

text \<open>
  The mode of a call whose waker is registered, and what has to hold of the queue unless somebody is about
  to wake it: nothing before the attempt has loaded what decides, then that it decides the same.
\<close>

primrec enq_sees ::
    "('b, 's, 'n, 'v, 'c, 'r) sys \<Rightarrow> ('v, 's, 'r) pc \<Rightarrow> (('b, 'n) queue \<Rightarrow> bool) option" where
  "enq_sees S (Enq_Load v) = Some (\<lambda>q. True)"
| "enq_sees S (Enq_Cas v w) = Some (\<lambda>q. word_full S w v \<longrightarrow> word_full S (enqueuing_capacity q) v)"
| "enq_sees S Idle = None" | "enq_sees S (Enq_Insert v w) = None" | "enq_sees S (Enq_Ack v w) = None"
| "enq_sees S Enq_Notify = None" | "enq_sees S (Deq_Lock r) = None" | "enq_sees S (Deq_Open w r) = None"
| "enq_sees S (Deq_Add w r nc rs ins) = None" | "enq_sees S (Deq_Load w r nc rs ins) = None"
| "enq_sees S (Deq_Check w r nc rs ins enq) = None" | "enq_sees S (Deq_Swap r nc rs ins capa enq ne) = None"
| "enq_sees S (Deq_Capacity nc rs ins capa enq) = None" | "enq_sees S (Deq_Notify rs ins capa enq) = None"
| "enq_sees S (Deq_Spin k i len) = None" | "enq_sees S (Deq_Slice i len l) = None"
| "enq_sees S (Deq_Store w e) = None" | "enq_sees S (Holding s) = None" | "enq_sees S (Iterating it) = None"
| "enq_sees S (Rel_Clear i r) = None" | "enq_sees S (Rel_Len i) = None" | "enq_sees S (Rel_Unlock i) = None"
| "enq_sees S Close_Flag = None" | "enq_sees S Close_Dequeue = None" | "enq_sees S Close_Enqueue = None"
| "enq_sees S Reopen_Flag = None"

definition enq_expects ::
    "('b, 's, 'n, 'v, 'c, 'r) sys \<Rightarrow> ('v, 's, 'r) live_pc \<Rightarrow> (call_mode \<times> (('b, 'n) queue \<Rightarrow> bool)) option" where
  "enq_expects S p =
     (case p of
        Calls f req \<Rightarrow> (case f of Enq_Rechecks m \<Rightarrow> Some (m, \<lambda>q. True) | _ \<Rightarrow> None)
      | Queue_Call f ip \<Rightarrow> (case f of Enq_Rechecks m \<Rightarrow> map_option (Pair m) (enq_sees S ip) | _ \<Rightarrow> None)
      | Judges f v \<Rightarrow>
          (case f of Enq_Rechecks m \<Rightarrow> Some (m, \<lambda>q. word_full S (enqueuing_capacity q) v) | _ \<Rightarrow> None)
      | Until_Enq v m \<Rightarrow> Some (m, queue_full S v)
      | Parked_Enq v m \<Rightarrow> Some (m, queue_full S v)
      | _ \<Rightarrow> None)"

definition deq_sees :: "('b, 's, 'n, 'v, 'c, 'r) sys \<Rightarrow> ('v, 's, 'r) pc \<Rightarrow> ('b, 'n) queue \<Rightarrow> bool" where
  "deq_sees S p q =
     (case p of
        Deq_Check w r nc rs ins enq \<Rightarrow> word_empty S q enq \<longrightarrow> word_empty S q (enqueuing_capacity q)
      | Deq_Store w e \<Rightarrow>
          e = Empty \<or> e = Pending \<longrightarrow> DL_buffer_len w = 0 \<and> word_empty S q (enqueuing_capacity q)
      | Deq_Spin k i len \<Rightarrow> k \<noteq> 0
      | _ \<Rightarrow> True)"

definition deq_expects ::
    "('b, 's, 'n, 'v, 'c, 'r) sys \<Rightarrow> ('v, 's, 'r) live_pc \<Rightarrow> (call_mode \<times> (('b, 'n) queue \<Rightarrow> bool)) option" where
  "deq_expects S p =
     (case p of
        Calls f req \<Rightarrow> (case f of Deq_Rechecks m \<Rightarrow> Some (m, \<lambda>q. True) | _ \<Rightarrow> None)
      | Queue_Call f ip \<Rightarrow> (case f of Deq_Rechecks m \<Rightarrow> Some (m, deq_sees S ip) | _ \<Rightarrow> None)
      | Wakes_Enqueuers w f ip \<Rightarrow> (case f of Deq_Rechecks m \<Rightarrow> Some (m, deq_sees S ip) | _ \<Rightarrow> None)
      | Until_Deq m \<Rightarrow> Some (m, queue_idle S)
      | Parked_Deq m \<Rightarrow> Some (m, queue_idle S)
      | _ \<Rightarrow> None)"

section \<open>Who is about to wake\<close>

text \<open>From the access that may end a wait to the end of the notification that follows it.\<close>

definition wakes_enqueuers_soon :: "('v, 's, 'r) pc \<Rightarrow> bool" where
  "wakes_enqueuers_soon p =
     (case p of Deq_Capacity nc rs ins capa enq \<Rightarrow> True | Deq_Notify rs ins capa enq \<Rightarrow> True
      | Close_Dequeue \<Rightarrow> True | Close_Enqueue \<Rightarrow> True | _ \<Rightarrow> False)"

definition wakes_dequeuer_soon :: "('v, 's, 'r) pc \<Rightarrow> bool" where
  "wakes_dequeuer_soon p =
     (case p of Enq_Insert v w \<Rightarrow> True | Enq_Ack v w \<Rightarrow> True | Enq_Notify \<Rightarrow> True | Close_Dequeue \<Rightarrow> True
      | _ \<Rightarrow> False)"

definition enq_waker :: "('v, 's, 'r) live_pc \<Rightarrow> bool" where
  "enq_waker p =
     (case p of Queue_Call f ip \<Rightarrow> wakes_enqueuers_soon ip | Wakes_Dequeuer w f ip \<Rightarrow> ip = Close_Dequeue
      | Wakes_Enqueuers w f ip \<Rightarrow> w \<noteq> LWake_Done | _ \<Rightarrow> False)"

definition deq_waker :: "waker \<Rightarrow> ('v, 's, 'r) live_pc \<Rightarrow> bool" where
  "deq_waker x p =
     (case p of Queue_Call f ip \<Rightarrow> wakes_dequeuer_soon ip | Wakes_Dequeuer w f ip \<Rightarrow> aw_delivers x (Aw_Wake w)
      | _ \<Rightarrow> False)"

definition enq_served ::
    "('b, 's, 'n, 'v, 'c, 'r) sys \<Rightarrow> ('b, 'n) queue sync_shared \<Rightarrow> (nat \<Rightarrow> ('v, 's, 'r) live_pc) \<Rightarrow> nat \<Rightarrow> bool" where
  "enq_served S s pcs t \<longleftrightarrow>
     (\<forall>m P. enq_expects S (pcs t) = Some (m, P) \<longrightarrow>
        mode_waker m t \<in> sync_signals s \<or>
        (mode_waker m t \<in> set (wl_wakers (enqueuers s)) \<and> (P (sync_queue s) \<or> (\<exists>u. enq_waker (pcs u)))))"

definition deq_served ::
    "('b, 's, 'n, 'v, 'c, 'r) sys \<Rightarrow> ('b, 'n) queue sync_shared \<Rightarrow> (nat \<Rightarrow> ('v, 's, 'r) live_pc) \<Rightarrow> nat \<Rightarrow> bool" where
  "deq_served S s pcs t \<longleftrightarrow>
     (\<forall>m P. deq_expects S (pcs t) = Some (m, P) \<longrightarrow>
        mode_waker m t \<in> sync_signals s \<or>
        ((aw_ready (dequeuer s) (mode_waker m t) \<or> (\<exists>u. aw_carries (mode_waker m t) (live_aw u (pcs u)))) \<and>
         (P (sync_queue s) \<or> (\<exists>u. deq_waker (mode_waker m t) (pcs u)))))"

section \<open>What the steps of the queue do to it\<close>

lemma full_after_reserve:
  assumes "EC_try_reserve w n = Some w'" and "word_full S w v"
  shows "word_full S w' v"
proof -
  have none: "EC_try_reserve x k = None \<longleftrightarrow> \<not> push_bit 1 k \<le> x" for x k
    by (simp add: EC_try_reserve_def checked_sub_def)
  have "push_bit 1 n \<le> w" and "w' = w - push_bit 1 n"
    using assms(1) by (simp_all add: EC_try_reserve_def checked_sub_def split: if_splits)
  then have le: "unat w' \<le> unat w" "w' \<le> w"
    using unat_sub [of "push_bit 1 n" w] by (simp_all only: word_le_nat_alt diff_le_self)
  have "\<not> EC_is_closed w'"
    using assms(2) le(1) by (simp add: word_full_def EC_is_closed_unat)
  moreover have "\<not> push_bit 1 k \<le> w'" if "\<not> push_bit 1 k \<le> w" for k :: usize
    using that le(2) by (meson order_trans)
  ultimately show ?thesis
    using assms(2) none by (auto simp: word_full_def)
qed

lemma EC_reopen_open: "\<not> EC_is_closed w \<Longrightarrow> EC_reopen w = w"
  by (rule enqueuing_eqI) simp_all

lemma next_words:
  assumes "BufferIter_next remove q it = Inr (x, q', it')"
  shows "enqueuing_capacity q' = enqueuing_capacity q \<and> capacity q' = capacity q"
  using assms by (auto simp: BufferIter_next_def Queue_remove_def and_then_eq_Inr split: if_splits)

lemma requeue_words:
  assumes "handle_requeue q i r = Inr (q', p', ev)"
  shows "enqueuing_capacity q' = enqueuing_capacity q \<and> capacity q' = capacity q"
  using assms by (auto simp: handle_requeue_def and_then_eq_Inr split: if_splits)

lemma handle_words:
  assumes "step_handle S q op p = Some (Inr (q', p', ev))"
  shows "enqueuing_capacity q' = enqueuing_capacity q \<and> capacity q' = capacity q"
proof (cases p)
  case (Holding s)
  then show ?thesis
    using assms requeue_words [of q _ _ q' p' ev]
    by (cases op) (simp_all add: step_handle_def handle_slice_def split: if_splits)
next
  case (Iterating it)
  show ?thesis
  proof (cases op)
    case Op_Next
    then show ?thesis
      using assms Iterating
      by (auto simp: step_handle_def handle_iter_def and_then_eq_Inr dest: next_words split: option.splits)
  qed (use assms Iterating requeue_words [of q _ _ q' p' ev] in
      \<open>auto simp: step_handle_def handle_iter_def and_then_eq_Inr split: if_splits\<close>)
qed (use assms in \<open>simp_all add: step_handle_def\<close>)

lemma full_kept:
  assumes step: "thread_step S q p ch = Some (Inr (q', p', ev))" and calm: "\<not> wakes_enqueuers_soon p'"
  shows "word_full S (enqueuing_capacity q) v \<Longrightarrow> word_full S (enqueuing_capacity q') v"
    and "capacity q' = capacity q"
proof -
  have "(word_full S (enqueuing_capacity q) v \<longrightarrow> word_full S (enqueuing_capacity q') v) \<and> capacity q' = capacity q"
  proof (cases ch)
    case (Start req)
    then show ?thesis
      using step by (cases req) (auto simp: thread_step_def split: if_splits)
  next
    case (Handle op)
    then show ?thesis
      using step handle_words [of S q op p q' p' ev] by (simp add: thread_step_def)
  next
    case (Go sp)
    then have go: "step_go S sp q p = Some (Inr (q', p', ev))"
      using step by (simp add: thread_step_def)
    have "word_full S (EC_reopen w) v" if "word_full S w v" for w
      using that by (simp add: word_full_def EC_reopen_open)
    then show ?thesis
      using go calm full_after_reserve [of "enqueuing_capacity q"]
      by (cases p) (auto simp: go_defs wakes_enqueuers_soon_def cas_weak_def Queue_lock_dequeuing_def split: go_splits)
  qed
  then show "word_full S (enqueuing_capacity q) v \<Longrightarrow> word_full S (enqueuing_capacity q') v"
    and "capacity q' = capacity q"
    by simp_all
qed

text \<open>A thread that does not dequeue leaves what the consumer has seen as it is, until it is about to wake it.\<close>

lemma idle_kept:
  assumes step: "thread_step S q p ch = Some (Inr (q', p', ev))" and calm: "\<not> wakes_dequeuer_soon p'"
    and other: "\<not> consuming p" "\<not> consuming p'"
  shows "dequeuing_length q' = dequeuing_length q" and "buffers q' = buffers q"
    and "\<not> EC_is_closed (enqueuing_capacity q) \<Longrightarrow> enqueuing_capacity q' = enqueuing_capacity q"
proof -
  have "dequeuing_length q' = dequeuing_length q \<and> buffers q' = buffers q \<and>
      (\<not> EC_is_closed (enqueuing_capacity q) \<longrightarrow> enqueuing_capacity q' = enqueuing_capacity q)"
  proof (cases ch)
    case (Start req)
    then show ?thesis
      using step by (cases req) (auto simp: thread_step_def split: if_splits)
  next
    case (Handle op)
    then show ?thesis
      using step handle_shape(1) [of S q op p q' p' ev] other by (simp add: thread_step_def)
  next
    case (Go sp)
    then have go: "step_go S sp q p = Some (Inr (q', p', ev))"
      using step by (simp add: thread_step_def)
    then show ?thesis
      using calm other
      by (cases p) (auto simp: go_defs wakes_dequeuer_soon_def cas_weak_def consuming_def is_dequeuing_def EC_reopen_open
          split: go_splits)
  qed
  then show "dequeuing_length q' = dequeuing_length q" and "buffers q' = buffers q"
    and "\<not> EC_is_closed (enqueuing_capacity q) \<Longrightarrow> enqueuing_capacity q' = enqueuing_capacity q"
    by simp_all
qed

lemma enq_expects_kept:
  assumes "enq_expects S p = Some (m, P)" and "P q"
    and "\<And>v. word_full S (enqueuing_capacity q) v \<Longrightarrow> word_full S (enqueuing_capacity q') v"
    and "capacity q' = capacity q"
  shows "P q'"
proof -
  have sees: "\<And>ip. enq_sees S ip = Some P \<Longrightarrow> P q'"
    using assms(2,3) by (case_tac ip) auto
  show ?thesis
    using assms sees
    by (auto simp: enq_expects_def queue_full_def Queue_capacity_def split: live_pc.splits call_frame.splits)
qed

lemma deq_expects_kept:
  assumes "deq_expects S p = Some (m, P)" and "P q" and "dequeuing_length q' = dequeuing_length q"
    and "buffers q' = buffers q"
    and "\<not> EC_is_closed (enqueuing_capacity q) \<Longrightarrow> enqueuing_capacity q' = enqueuing_capacity q"
  shows "P q'"
proof -
  have same: "word_empty S q' w = word_empty S q w" for w
    using assms(4) by (simp add: word_empty_def)
  have "word_empty S q' (enqueuing_capacity q')" if "word_empty S q (enqueuing_capacity q)"
    using that same [of "enqueuing_capacity q"] assms(5) by (simp add: word_empty_def)
  then show ?thesis
    using assms(1-3) same
    by (auto simp: deq_expects_def deq_sees_def queue_idle_def split: live_pc.splits call_frame.splits pc.splits)
qed

end
