(* ===== verification/Live_Enqueuers.thy ===== *)
theory Live_Enqueuers
  imports Live_Expectations
begin

text \<open>
  No enqueuer of \<open>Synchronized_Concurrent\<close> misses its wake-up: every step of every thread keeps
  \<open>enq_served\<close> for all threads (\<open>live_step_enq\<close>), so it holds in every reachable state
  (\<open>live_reach_enq\<close>), whatever the number of consumers.
\<close>

section \<open>The enqueuers\<close>

lemma enq_expects_calm: "enq_expects S p = Some (m, P) \<Longrightarrow> \<not> enq_waker p"
proof -
  have "enq_sees S ip = Some P \<Longrightarrow> \<not> wakes_enqueuers_soon ip" for ip
    by (cases ip) (simp_all add: wakes_enqueuers_soon_def)
  then show "enq_expects S p = Some (m, P) \<Longrightarrow> \<not> enq_waker p"
    by (auto simp: enq_expects_def enq_waker_def split: live_pc.splits call_frame.splits)
qed

lemma enq_served_other:
  assumes "enq_served S s pcs u" and "u \<noteq> t"
    and sig: "\<And>m. mode_waker m u \<in> sync_signals s \<Longrightarrow> mode_waker m u \<in> sync_signals s'"
    and moves: "set (wl_wakers (enqueuers s)) \<subseteq> set (wl_wakers (enqueuers s')) \<union> sync_signals s'"
    and keeps: "\<And>m P. enq_expects S (pcs u) = Some (m, P) \<Longrightarrow> P (sync_queue s) \<Longrightarrow> P (sync_queue s') \<or> enq_waker p"
    and owed: "enq_waker (pcs t) \<Longrightarrow> wl_wakers (enqueuers s') \<noteq> [] \<Longrightarrow> enq_waker p \<or> (\<exists>u. u \<noteq> t \<and> enq_waker (pcs u))"
  shows "enq_served S s' (pcs(t := p)) u"
  unfolding enq_served_def
proof (intro allI impI)
  fix m P
  let ?w = "mode_waker m u"
  assume "enq_expects S ((pcs(t := p)) u) = Some (m, P)"
  then have e: "enq_expects S (pcs u) = Some (m, P)"
    using assms(2) by simp
  show "?w \<in> sync_signals s' \<or> ?w \<in> set (wl_wakers (enqueuers s')) \<and>
      (P (sync_queue s') \<or> (\<exists>u. enq_waker ((pcs(t := p)) u)))"
  proof (cases "?w \<in> sync_signals s'")
    case False
    then have old: "?w \<in> set (wl_wakers (enqueuers s))" "P (sync_queue s) \<or> (\<exists>u. enq_waker (pcs u))"
      using sig assms(1) e by (auto simp: enq_served_def)
    then have new: "?w \<in> set (wl_wakers (enqueuers s'))"
      using moves False by blast
    then have "wl_wakers (enqueuers s') \<noteq> []"
      by auto
    then have "P (sync_queue s') \<or> enq_waker p \<or> (\<exists>u. u \<noteq> t \<and> enq_waker (pcs u))"
      using old(2) keeps [OF e] owed by metis
    then have "P (sync_queue s') \<or> (\<exists>u. enq_waker ((pcs(t := p)) u))"
      by auto
    with new show ?thesis by blast
  qed simp
qed

lemma enq_served_self:
  assumes "enq_served S s pcs t" and same: "enqueuers s' = enqueuers s" "sync_signals s' = sync_signals s"
    and sees: "\<And>m P'. enq_expects S p = Some (m, P') \<Longrightarrow>
      \<exists>P. enq_expects S (pcs t) = Some (m, P) \<and> (P (sync_queue s) \<longrightarrow> P' (sync_queue s'))"
  shows "enq_served S s' (pcs(t := p)) t"
  unfolding enq_served_def
proof (intro allI impI)
  fix m P'
  assume "enq_expects S ((pcs(t := p)) t) = Some (m, P')"
  then obtain P where e: "enq_expects S (pcs t) = Some (m, P)" "P (sync_queue s) \<Longrightarrow> P' (sync_queue s')"
    using sees by auto
  have "\<exists>u. enq_waker ((pcs(t := p)) u)" if "\<exists>u. enq_waker (pcs u)"
    using that enq_expects_calm [OF e(1)] by (metis fun_upd_other)
  then show "mode_waker m t \<in> sync_signals s' \<or> mode_waker m t \<in> set (wl_wakers (enqueuers s')) \<and>
      (P' (sync_queue s') \<or> (\<exists>u. enq_waker ((pcs(t := p)) u)))"
    using assms(1) e unfolding enq_served_def same by blast
qed

text \<open>A step outside the wakers: it may move the queue and take the thread's own signal.\<close>

lemma enq_calm_step:
  assumes served: "\<And>u. enq_served S s pcs u" and same: "enqueuers s' = enqueuers s"
    and sig: "sync_signals s' = sync_signals s \<or> (\<exists>m. sync_signals s' = sync_signals s - {mode_waker m t}) \<and> enq_expects S p = None"
    and step: "sync_queue s' = sync_queue s \<or> (\<exists>ch ip ev f.
      thread_step S (sync_queue s) (inner (pcs t)) ch = Some (Inr (sync_queue s', ip, ev)) \<and>
      (ip \<noteq> Idle \<longrightarrow> p = Queue_Call f ip))"
    and keep: "enq_waker (pcs t) \<Longrightarrow> enq_waker p"
    and sees: "\<And>m P'. enq_expects S p = Some (m, P') \<Longrightarrow>
      \<exists>P. enq_expects S (pcs t) = Some (m, P) \<and> (P (sync_queue s) \<longrightarrow> P' (sync_queue s'))"
  shows "enq_served S s' (pcs(t := p)) u"
proof (cases "u = t")
  case True
  show ?thesis
  proof (cases "enq_expects S p = None")
    case False
    with sig have "sync_signals s' = sync_signals s"
      by blast
    with enq_served_self [OF served [of t] same, of p] sees True show ?thesis by simp
  qed (simp add: True enq_served_def)
next
  case False
  have kept: "enq_waker p \<or> (\<forall>v. word_full S (enqueuing_capacity (sync_queue s)) v \<longrightarrow>
      word_full S (enqueuing_capacity (sync_queue s')) v) \<and> capacity (sync_queue s') = capacity (sync_queue s)"
    using step
  proof (elim disjE exE conjE)
    fix ch ip ev f
    assume st: "thread_step S (sync_queue s) (inner (pcs t)) ch = Some (Inr (sync_queue s', ip, ev))"
      and ip: "ip \<noteq> Idle \<longrightarrow> p = Queue_Call f ip"
    have "enq_waker p" if "wakes_enqueuers_soon ip"
      using that ip by (cases "ip = Idle") (auto simp: enq_waker_def wakes_enqueuers_soon_def)
    with full_kept [OF st] show ?thesis by blast
  qed simp
  show ?thesis
  proof (rule enq_served_other [OF served False])
    show "mode_waker m u \<in> sync_signals s \<Longrightarrow> mode_waker m u \<in> sync_signals s'" for m
      using sig False mode_waker_inject by blast
    show "P (sync_queue s') \<or> enq_waker p" if "enq_expects S (pcs u) = Some (m, P)" "P (sync_queue s)" for m P
      using enq_expects_kept [OF that, of "sync_queue s'"] kept by blast
  qed (use same keep in auto)
qed

lemma resume_call:
  assumes "live_resume f ip ev = Inr (lp, sev)"
    and "\<And>r. ev = Ev_Enqueue r \<Longrightarrow> ip = Idle" "\<And>e. ev = Ev_Dequeue_Err e \<Longrightarrow> ip = Idle"
  shows "ip \<noteq> Idle \<longrightarrow> lp = Queue_Call (case ev of Ev_Sliced sl \<Rightarrow> Direct | _ \<Rightarrow> f) ip"
  using assms by (cases ev) (auto simp: live_resume_def)

lemma returned_enq:
  "enqueue_returned f r = (lp, sev) \<Longrightarrow> enq_expects S lp = Some (m, P) \<Longrightarrow>
   f = Enq_Rechecks m \<and> (\<exists>v. r = Inl (InsufficientCapacity v) \<and> lp = Judges f v)"
  by (cases "(f, r)" rule: enqueue_returned.cases) (auto simp: enq_expects_def)

lemma next_expects [simp]:
  "enq_expects S (next_enqueue k v m) = None" "enq_expects S (next_dequeue k m) = None"
  "deq_expects S (next_enqueue k v m) = None" "deq_expects S (next_dequeue k m) = None"
  by (simp_all add: enq_expects_def deq_expects_def next_enqueue_def next_dequeue_def split: nat.split)

lemma resume_enq:
  assumes "live_resume f ip ev = Inr (lp, sev)" and "enq_expects S lp = Some (m, P)"
  shows "f = Enq_Rechecks m \<and> (lp = Queue_Call f ip \<or> (\<exists>v. ev = Ev_Enqueue (Inl (InsufficientCapacity v)) \<and> lp = Judges f v))"
proof (cases ev)
  case (Ev_Enqueue r)
  then show ?thesis
    using assms returned_enq [of f r lp sev S m P] by (auto simp: live_resume_def)
next
  case (Ev_Dequeue_Err e)
  have "enq_expects S (after_retry m (Until_Deq m) (Parked_Deq m)) = None" for m
    by (simp add: after_retry_def enq_expects_def split: call_mode.split)
  then show ?thesis
    using assms Ev_Dequeue_Err
    by (auto simp: live_resume_def dequeue_returned_def enq_expects_def [of _ Resting] and_then_eq_Inr split: call_frame.splits if_splits)
qed (use assms in \<open>auto simp: live_resume_def enq_expects_def split: call_frame.splits\<close>)

lemma enq_go_sees:
  assumes go: "step_go S sp q ip = Some (Inr (q', ip', ev))" and resume: "live_resume f ip' ev = Inr (lp, sev)"
    and e: "enq_expects S lp = Some (m, P')" and fits: "frame_fits f ip"
  shows "f = Enq_Rechecks m \<and> (\<exists>P. enq_sees S ip = Some P \<and> (P q \<longrightarrow> P' q'))"
proof -
  note r = resume_enq [OF resume e]
  then have f: "f = Enq_Rechecks m" and ip: "enqueuing_pc ip"
    using fits by auto
  show ?thesis
  proof (cases "lp = Queue_Call f ip'")
    case True
    have sees: "enq_sees S ip' = Some P'"
      using e f unfolding True by (auto simp: enq_expects_def)
    show ?thesis
      using go sees f ip
      by (cases ip) (auto simp: enqueuing_pc_def go_defs cas_weak_def split: go_splits)
  next
    case False
    then obtain v where v: "ev = Ev_Enqueue (Inl (InsufficientCapacity v))" "lp = Judges f v"
      using r by blast
    then obtain w where w: "ip = Enq_Cas v w"
      using go_end(1) [OF go] by blast
    have "P' = (\<lambda>q. word_full S (enqueuing_capacity q) v)"
      using e f v(2) by (auto simp: enq_expects_def)
    moreover have "q' = q" "word_full S w v"
      using go v(1) w by (auto simp: go_defs word_full_def split: go_splits)
    ultimately show ?thesis
      using f w by simp
  qed
qed

lemma go_wakes_enqueuers:
  assumes "step_go S sp q ip = Some (Inr (q', ip', ev))" and "wakes_enqueuers_soon ip" and "\<not> notifies_enqueue ip"
  shows "wakes_enqueuers_soon ip'"
  using assms by (cases ip) (auto simp: wakes_enqueuers_soon_def notifies_enqueue_def)

lemma enq_moves_go:
  assumes served: "\<And>u. enq_served S s pcs u" and fits: "frame_fits f (inner (pcs t))"
    and moves: "queue_moves s f (step_go S sp (sync_queue s) (inner (pcs t))) = Some (Inr (s', p', evs, sev))"
    and waker: "enq_waker (pcs t) \<Longrightarrow> wakes_enqueuers_soon (inner (pcs t)) \<and> \<not> notifies_enqueue (inner (pcs t))"
    and sees: "\<And>m P. f = Enq_Rechecks m \<Longrightarrow> enq_sees S (inner (pcs t)) = Some P \<Longrightarrow> enq_expects S (pcs t) = Some (m, P)"
  shows "enq_served S s' (pcs(t := p')) u"
proof -
  obtain q ip ev where go: "step_go S sp (sync_queue s) (inner (pcs t)) = Some (Inr (q, ip, ev))"
    and resume: "live_resume f ip ev = Inr (p', sev)" and s': "s' = s\<lparr>sync_queue := q\<rparr>"
    using moves unfolding queue_moves_Inr by blast
  have call: "ip \<noteq> Idle \<longrightarrow> p' = Queue_Call (case ev of Ev_Sliced sl \<Rightarrow> Direct | _ \<Rightarrow> f) ip"
    by (rule resume_call [OF resume]) (use go_end [OF go] in auto)
  have st: "thread_step S (sync_queue s) (inner (pcs t)) (Go sp) = Some (Inr (q, ip, ev))"
    using go by (simp add: thread_step_def)
  show ?thesis
  proof (rule enq_calm_step [OF served])
    show "enq_waker p'" if "enq_waker (pcs t)"
    proof -
      have soon: "wakes_enqueuers_soon ip"
        using go_wakes_enqueuers [OF go] waker [OF that] by blast
      then have "ip \<noteq> Idle"
        by (auto simp: wakes_enqueuers_soon_def)
      with soon call show ?thesis
        by (auto simp: enq_waker_def)
    qed
    show "\<exists>P. enq_expects S (pcs t) = Some (m, P) \<and> (P (sync_queue s) \<longrightarrow> P' (sync_queue s'))"
      if "enq_expects S p' = Some (m, P')" for m P'
      using enq_go_sees [OF go resume that fits] sees s' by auto
    show "sync_queue s' = sync_queue s \<or> (\<exists>ch ip ev f.
        thread_step S (sync_queue s) (inner (pcs t)) ch = Some (Inr (sync_queue s', ip, ev)) \<and>
        (ip \<noteq> Idle \<longrightarrow> p' = Queue_Call f ip))"
      using st call s' by auto
  qed (simp_all add: s')
qed

lemma enq_moves_start:
  assumes served: "\<And>u. enq_served S s pcs u" and pc: "pcs t = Calls f req"
    and moves: "queue_moves s f (step_start S (sync_queue s) req) = Some (Inr (s', p', evs, sev))"
  shows "enq_served S s' (pcs(t := p')) u"
proof -
  obtain q ip ev where start: "step_start S (sync_queue s) req = Some (Inr (q, ip, ev))"
    and resume: "live_resume f ip ev = Inr (p', sev)" and s': "s' = s\<lparr>sync_queue := q\<rparr>"
    using moves unfolding queue_moves_Inr by blast
  have same: "q = sync_queue s"
    using start by (cases req) (auto split: if_splits)
  show ?thesis
  proof (rule enq_calm_step [OF served])
    show "\<exists>P. enq_expects S (pcs t) = Some (m, P) \<and> (P (sync_queue s) \<longrightarrow> P' (sync_queue s'))"
      if e: "enq_expects S p' = Some (m, P')" for m P'
    proof -
      note r = resume_enq [OF resume e]
      then have p': "p' = Queue_Call f ip" and f: "f = Enq_Rechecks m"
        using start by (cases req; auto split: if_splits)+
      have "enq_sees S ip = Some P'"
        using e f unfolding p' by (auto simp: enq_expects_def)
      then have "P' q"
        using start by (cases req) (auto split: if_splits)
      then show ?thesis
        using f s' by (simp add: enq_expects_def pc)
    qed
  qed (simp_all add: s' same enq_waker_def pc)
qed

lemma handle_keeps_enq:
  assumes served: "\<And>u. enq_served S s pcs u" and pc: "pcs t = Queue_Call Direct ip"
    and step: "step_handle S (sync_queue s) op ip = Some (Inr (q, ip', ev))"
  shows "enq_served S (s\<lparr>sync_queue := q\<rparr>) (pcs(t := Queue_Call Direct ip')) u"
proof (rule enq_calm_step [OF served])
  have "\<not> wakes_enqueuers_soon ip"
    using step by (auto simp: step_handle_def wakes_enqueuers_soon_def split: pc.splits)
  then show "enq_waker (Queue_Call Direct ip')" if "enq_waker (pcs t)"
    using that pc by (simp add: enq_waker_def)
  have st: "thread_step S (sync_queue s) (inner (pcs t)) (Handle op) = Some (Inr (q, ip', ev))"
    using step pc by (simp add: thread_step_def)
  then show "sync_queue (s\<lparr>sync_queue := q\<rparr>) = sync_queue s \<or> (\<exists>ch ip ev f.
      thread_step S (sync_queue s) (inner (pcs t)) ch = Some (Inr (sync_queue (s\<lparr>sync_queue := q\<rparr>), ip, ev)) \<and>
      (ip \<noteq> Idle \<longrightarrow> Queue_Call Direct ip' = Queue_Call f ip))"
    by auto
qed (simp_all add: enq_expects_def)

text \<open>Steps inside the wakers.\<close>

lemma register_enqueuer_enq:
  assumes served: "\<And>u. enq_served S s pcs u" and pc: "pcs t = Registers_Enqueuer w v m"
    and reg: "WakerList_register t (mode_cx m t) w (enqueuers s) = Some (w', l)"
  shows "enq_served S (s\<lparr>enqueuers := l\<rparr>)
    (pcs(t := if w' = LReg_Done then Calls (Enq_Rechecks m) (Req_Enqueue v) else Registers_Enqueuer w' v m)) u"
    (is "enq_served S ?s (pcs(t := ?p)) u")
proof (cases "u = t")
  case True
  then show ?thesis
    using list_register_grows(2) [OF reg] by (auto simp: enq_served_def enq_expects_def mode_waker_def)
next
  case False
  show ?thesis
    by (rule enq_served_other [OF served False])
      (use list_register_grows(1) [OF reg] pc in \<open>auto simp: enq_waker_def\<close>)
qed

lemma wake_enqueuers_enq:
  assumes served: "\<And>u. enq_served S s pcs u" and inv: "live_wakers s pcs" and pc: "pcs t = Wakes_Enqueuers w f p"
    and wake: "WakerList_wake t w (enqueuers s) (sync_signals s) = Some (w', l, sg)"
  shows "enq_served S (s\<lparr>enqueuers := l, sync_signals := sg\<rparr>) (pcs(t := Wakes_Enqueuers w' f p)) u"
    (is "enq_served S ?s (pcs(t := ?p)) u")
proof (cases "u = t")
  case True
  then show ?thesis
    by (simp add: enq_served_def enq_expects_def)
next
  case False
  have wl: "wl_inv (enqueuers s) (\<lambda>t. live_wl t (pcs t))"
    using inv by (simp add: live_wakers_def)
  have drain: "enq_waker q" if "wl_draining (live_wl v q)" for v and q :: "('d, 'b, 'f) live_pc"
    using that by (cases q) (auto simp: enq_waker_def)
  show ?thesis
  proof (rule enq_served_other [OF served False])
    show "enq_waker ?p \<or> (\<exists>u. u \<noteq> t \<and> enq_waker (pcs u))" if "wl_wakers (enqueuers ?s) \<noteq> []"
    proof (cases "w' = LWake_Done")
      case True
      then have "\<exists>u. u \<noteq> t \<and> wl_draining (live_wl u (pcs u))"
        using list_wake_owed [OF wl, of t w "sync_signals s" l sg] wake that pc by simp
      then show ?thesis
        using drain by blast
    qed (simp add: enq_waker_def)
  qed (use list_wake_moves [OF wake] in auto)
qed

lemma dequeuer_waker_enq:
  assumes served: "\<And>u. enq_served S s pcs u" and sg: "sync_signals s \<subseteq> sg"
    and waker: "enq_waker (pcs t) \<Longrightarrow> enq_waker p" and e: "enq_expects S p = None"
  shows "enq_served S (s\<lparr>dequeuer := d, sync_signals := sg\<rparr>) (pcs(t := p)) u"
proof (cases "u = t")
  case True
  then show ?thesis
    using e by (simp add: enq_served_def)
next
  case False
  show ?thesis
    by (rule enq_served_other [OF served False]) (use sg waker in auto)
qed

lemma live_call_enq:
  assumes served: "\<And>u. enq_served S s pcs u" and inv: "live_wakers s pcs" and shape: "live_shape ok c (pcs t)"
    and run: "live_run S t sp b s (pcs t) = Some (Inr (s', p', evs, sev))"
    and Queue_Call: "pcs t = Queue_Call f ip"
  shows "enq_served S s' (pcs(t := p')) u"
proof (cases "notifies_dequeue ip \<or> notifies_enqueue ip")
  case True
  then have "s' = s" and p': "p' = Wakes_Dequeuer Wake_Begin f ip \<and> notifies_dequeue ip \<or>
      p' = Wakes_Enqueuers LWake_Load f ip"
    using run Queue_Call by (auto split: if_splits)
  moreover have "enq_waker p'" if "wakes_enqueuers_soon ip"
    using that p' by (auto simp: enq_waker_def wakes_enqueuers_soon_def notifies_dequeue_def split: pc.splits)
  moreover have "enq_expects S p' = None"
    using p' by (auto simp: enq_expects_def)
  ultimately show ?thesis
    using Queue_Call by (intro enq_calm_step [OF served]) (simp_all add: enq_waker_def)
next
  case False
  then have go: "queue_moves s f (step_go S sp (sync_queue s) (inner (pcs t))) = Some (Inr (s', p', evs, sev))"
    using run Queue_Call by simp
  then have "frame_fits f ip"
    using shape Queue_Call by (auto simp: call_ok_def queue_moves_def)
  with go False show ?thesis
    by (intro enq_moves_go [OF served, of f]) (auto simp: Queue_Call enq_waker_def enq_expects_def)
qed

lemma live_wakes_dequeuer_enq:
  assumes served: "\<And>u. enq_served S s pcs u" and inv: "live_wakers s pcs" and shape: "live_shape ok c (pcs t)"
    and run: "live_run S t sp b s (pcs t) = Some (Inr (s', p', evs, sev))"
    and Wakes_Dequeuer: "pcs t = Wakes_Dequeuer w f ip"
  shows "enq_served S s' (pcs(t := p')) u"
proof (cases "w = Wake_Done")
  case True
  then have "queue_moves s f (step_go S sp (sync_queue s) (inner (pcs t))) = Some (Inr (s', p', evs, sev))"
    using run Wakes_Dequeuer by simp
  then show ?thesis
    using shape Wakes_Dequeuer
    by (intro enq_moves_go [OF served, of f])
      (auto simp: enq_waker_def call_ok_def wakes_enqueuers_soon_def notifies_enqueue_def notifies_dequeue_def
        split: pc.splits)
next
  case False
  then obtain w' d sg where wake: "AtomicWaker_wake w (dequeuer s) (sync_signals s) = Inr (w', d, sg)"
    and s': "s' = s\<lparr>dequeuer := d, sync_signals := sg\<rparr>" "p' = Wakes_Dequeuer w' f ip"
    using run Wakes_Dequeuer by (auto simp: and_then_eq_Inr)
  show ?thesis
    unfolding s'
    by (rule dequeuer_waker_enq [OF served aw_wake_signals [OF wake]])
      (simp_all add: Wakes_Dequeuer enq_waker_def enq_expects_def)
qed

lemma live_wakes_enqueuers_enq:
  assumes served: "\<And>u. enq_served S s pcs u" and inv: "live_wakers s pcs" and shape: "live_shape ok c (pcs t)"
    and run: "live_run S t sp b s (pcs t) = Some (Inr (s', p', evs, sev))"
    and Wakes_Enqueuers: "pcs t = Wakes_Enqueuers w f ip"
  shows "enq_served S s' (pcs(t := p')) u"
proof (cases "w = LWake_Done")
  case True
  then have "queue_moves s f (step_go S sp (sync_queue s) (inner (pcs t))) = Some (Inr (s', p', evs, sev))"
    using run Wakes_Enqueuers by simp
  then show ?thesis
    using shape Wakes_Enqueuers True
    by (intro enq_moves_go [OF served, of f]) (auto simp: enq_waker_def call_ok_def notifies_enqueue_def split: pc.splits)
next
  case False
  then show ?thesis
    using run Wakes_Enqueuers wake_enqueuers_enq [OF served inv Wakes_Enqueuers] by auto
qed

lemma live_run_enq:
  assumes served: "\<And>u. enq_served S s pcs u" and inv: "live_wakers s pcs" and shape: "live_shape ok c (pcs t)"
    and run: "live_run S t sp b s (pcs t) = Some (Inr (s', p', evs, sev))"
  shows "enq_served S s' (pcs(t := p')) u"
proof (cases "pcs t")
  case (Queue_Call f ip)
  then show ?thesis
    by (rule live_call_enq [OF served inv shape run])
next
  case (Calls f req)
  then show ?thesis
    using run enq_moves_start [OF served Calls] by simp
next
  case (Wakes_Dequeuer w f ip)
  then show ?thesis
    by (rule live_wakes_dequeuer_enq [OF served inv shape run])
next
  case (Wakes_Enqueuers w f ip)
  then show ?thesis
    by (rule live_wakes_enqueuers_enq [OF served inv shape run])
next
  case (Registers_Enqueuer w v m)
  then show ?thesis
    using run register_enqueuer_enq [OF served Registers_Enqueuer] by auto
next
  case (Registers_Dequeuer w m)
  then obtain w' d sg where reg: "AtomicWaker_register t (mode_cx m t) w (dequeuer s) (sync_signals s) = Inr (w', d, sg)"
    and s': "s' = s\<lparr>dequeuer := d, sync_signals := sg\<rparr>"
      "p' = (if w' = Reg_Done then Calls (Deq_Rechecks m) (Req_Dequeue None) else Registers_Dequeuer w' m)"
    using run by (auto simp: and_then_eq_Inr)
  show ?thesis
    unfolding s'
    by (rule dequeuer_waker_enq [OF served aw_register_signals [OF reg]])
      (simp_all add: Registers_Dequeuer enq_waker_def enq_expects_def)
next
  case (Judges f v)
  then have s': "s' = s" and p': "p' = fst (judge_capacity S (sync_queue s) f v)"
    using run by (auto split: prod.splits)
  have "\<exists>P. enq_expects S (pcs t) = Some (m, P) \<and> (P (sync_queue s) \<longrightarrow> P' (sync_queue s))"
    if "enq_expects S p' = Some (m, P')" for m P'
    using that shape Judges unfolding p'
    by (auto simp: judge_capacity_def enq_expects_def [of _ "Judges _ _"] enq_expects_def [of _ Resting] after_retry_def
        enq_expects_def [of _ "Until_Enq _ _"] enq_expects_def [of _ "Parked_Enq _ _"] queue_full_def
        split: if_splits call_mode.splits)
  then show ?thesis
    using s' Judges by (intro enq_calm_step [OF served]) (auto simp: enq_waker_def)
next
  case (Until_Enq v m)
  then show ?thesis
    using run by (intro enq_calm_step [OF served]) (auto simp: enq_waker_def enq_expects_def split: if_splits)
next
  case (Until_Deq m)
  then show ?thesis
    using run by (intro enq_calm_step [OF served]) (auto simp: enq_waker_def enq_expects_def split: if_splits)
next
  case (Parked_Enq v m)
  then show ?thesis
    using run by (intro enq_calm_step [OF served]) (auto simp: enq_waker_def split: if_splits)
next
  case (Parked_Deq m)
  then show ?thesis
    using run by (intro enq_calm_step [OF served]) (auto simp: enq_waker_def split: if_splits)
qed

theorem live_step_enq:
  assumes served: "\<And>u. enq_served S s pcs u" and inv: "live_wakers s pcs" and shape: "live_shape ok c (pcs t)"
    and step: "live_step S t ch s (pcs t) = Some (Inr (s', p', evs, sev))"
  shows "enq_served S s' (pcs(t := p')) u"
proof (cases ch)
  case (Live_Call lc)
  then have "pcs t = Resting" "s' = s" "p' = live_start lc"
    using step by (auto simp: live_step_def split: live_pc.splits call_frame.splits pc.splits)
  moreover have "enq_expects S (live_start lc) = None"
    by (cases lc) (simp_all, simp add: enq_expects_def)
  ultimately show ?thesis
    by (intro enq_calm_step [OF served]) (simp_all add: enq_waker_def wakes_enqueuers_soon_def)
next
  case (Live_Run sp b)
  then show ?thesis
    using live_run_enq [OF served inv shape] step by (simp add: live_step_def)
next
  case (Live_Handle op)
  then obtain ip where pc: "pcs t = Queue_Call Direct ip" and "handle_moves S s op ip = Some (Inr (s', p', evs, sev))"
    using step by (auto simp: live_step_def split: live_pc.splits call_frame.splits)
  then show ?thesis
    using handle_keeps_enq [OF served pc] by (auto simp: handle_moves_def and_then_eq_Inr)
next
  case Live_Cancel
  then have "s' = s" "p' = Resting" "future_dropped (pcs t)"
    using step by (auto simp: live_step_def split: if_splits)
  then show ?thesis
    by (intro enq_calm_step [OF served])
      (auto simp: enq_waker_def enq_expects_def future_dropped_def split: live_pc.splits)
qed

theorem live_reach_enq:
  assumes "live_reach S (live_allowed ok consumers) n q0 tr s pcs" and deq: "ok (Req_Dequeue None)"
  shows "enq_served S s pcs u"
  using assms(1)
proof (induction arbitrary: u rule: live_reach.induct)
  case live_init
  show ?case
    by (simp add: enq_served_def enq_expects_def)
next
  case (live_next tr s pcs t ch s' p evs sev)
  have shape: "live_shape ok (consumers t) (pcs t)"
    using live_refines [OF live_next.hyps(1) deq] by blast
  from live_step_enq [OF live_next.IH live_reach_wakers [OF live_next.hyps(1)] shape live_next.hyps(4)]
  show ?case by (simp add: fun_upd_def)
qed

end
