(* ===== verification/Live_Dequeuer.thy ===== *)
theory Live_Dequeuer
  imports Live_Enqueuers
begin

text \<open>
  The one consumer \<open>c\<close> of \<open>Synchronized_Concurrent\<close> does not miss its wake-up: every step of every
  thread keeps \<open>deq_served\<close> (\<open>live_step_deq\<close>). What its last attempt has seen is decided at two
  places, the load of the enqueuing word and the last read of a spin; \<open>decides\<close> is what the invariant of
  the interleaved queue says of them.
\<close>

section \<open>The consumer\<close>

lemma plain_calm: "plain_dequeue ip \<Longrightarrow> \<not> wakes_dequeuer_soon ip"
  by (cases ip) (simp_all add: plain_dequeue_def wakes_dequeuer_soon_def)

lemma deq_expects_calm:
  assumes "deq_expects S p = Some (m, P)" and "live_shape ok c p"
  shows "\<not> deq_waker x p" and "\<not> aw_carries x (live_aw t p)"
  using assms plain_calm
  by (auto simp: deq_expects_def deq_waker_def call_ok_def split: live_pc.splits call_frame.splits)

lemma deq_served_other:
  assumes "deq_served S s pcs c" and "t \<noteq> c"
    and sig: "\<And>m. mode_waker m c \<in> sync_signals s \<Longrightarrow> mode_waker m c \<in> sync_signals s'"
    and slot: "\<And>x. aw_ready (dequeuer s) x \<or> aw_carries x (live_aw t (pcs t)) \<Longrightarrow>
      aw_ready (dequeuer s') x \<or> aw_carries x (live_aw t p) \<or> x \<in> sync_signals s'"
    and keeps: "\<And>m P x. deq_expects S (pcs c) = Some (m, P) \<Longrightarrow> P (sync_queue s) \<Longrightarrow> P (sync_queue s') \<or> deq_waker x p"
    and owed: "\<And>x. deq_waker x (pcs t) \<Longrightarrow> deq_expects S (pcs c) \<noteq> None \<Longrightarrow>
      aw_ready (dequeuer s) x \<or> (\<exists>u. aw_carries x (live_aw u (pcs u))) \<Longrightarrow>
      deq_waker x p \<or> (\<exists>u. u \<noteq> t \<and> deq_waker x (pcs u)) \<or> x \<in> sync_signals s'"
  shows "deq_served S s' (pcs(t := p)) c"
  unfolding deq_served_def
proof (intro allI impI)
  fix m P
  let ?w = "mode_waker m c"
  assume "deq_expects S ((pcs(t := p)) c) = Some (m, P)"
  then have e: "deq_expects S (pcs c) = Some (m, P)"
    using assms(2) by simp
  show "?w \<in> sync_signals s' \<or>
      (aw_ready (dequeuer s') ?w \<or> (\<exists>u. aw_carries ?w (live_aw u ((pcs(t := p)) u)))) \<and>
      (P (sync_queue s') \<or> (\<exists>u. deq_waker ?w ((pcs(t := p)) u)))"
  proof (cases "?w \<in> sync_signals s'")
    case False
    then have old: "aw_ready (dequeuer s) ?w \<or> (\<exists>u. aw_carries ?w (live_aw u (pcs u)))"
        "P (sync_queue s) \<or> (\<exists>u. deq_waker ?w (pcs u))"
      using sig assms(1) e by (auto simp: deq_served_def)
    have "aw_ready (dequeuer s') ?w \<or> aw_carries ?w (live_aw t p) \<or> (\<exists>u. u \<noteq> t \<and> aw_carries ?w (live_aw u (pcs u)))"
      using old(1) slot False by metis
    then have "aw_ready (dequeuer s') ?w \<or> (\<exists>u. aw_carries ?w (live_aw u ((pcs(t := p)) u)))"
      by auto
    moreover have "P (sync_queue s') \<or> deq_waker ?w p \<or> (\<exists>u. u \<noteq> t \<and> deq_waker ?w (pcs u))"
      using old(2) keeps [OF e] owed [OF _ _ old(1)] e False by (metis option.distinct(1))
    then have "P (sync_queue s') \<or> (\<exists>u. deq_waker ?w ((pcs(t := p)) u))"
      by auto
    ultimately show ?thesis by blast
  qed simp
qed

lemma deq_served_self:
  assumes "deq_served S s pcs c" and shape: "live_shape ok b (pcs c)"
    and same: "dequeuer s' = dequeuer s" and sig: "sync_signals s \<subseteq> sync_signals s'"
    and sees: "\<And>m P'. deq_expects S p = Some (m, P') \<Longrightarrow> \<exists>P. deq_expects S (pcs c) = Some (m, P) \<and>
      (P (sync_queue s) \<longrightarrow> P' (sync_queue s') \<or> (\<exists>u. u \<noteq> c \<and> deq_waker (mode_waker m c) (pcs u)))"
  shows "deq_served S s' (pcs(c := p)) c"
  unfolding deq_served_def
proof (intro allI impI)
  fix m P'
  let ?w = "mode_waker m c"
  assume "deq_expects S ((pcs(c := p)) c) = Some (m, P')"
  then obtain P where e: "deq_expects S (pcs c) = Some (m, P)"
      "P (sync_queue s) \<Longrightarrow> P' (sync_queue s') \<or> (\<exists>u. u \<noteq> c \<and> deq_waker ?w (pcs u))"
    using sees by auto
  note calm = deq_expects_calm [OF e(1) shape]
  have "\<exists>u. deq_waker ?w ((pcs(c := p)) u)" if "\<exists>u. deq_waker ?w (pcs u)"
    using that calm(1) by (metis fun_upd_other)
  moreover have "\<exists>u. aw_carries ?w (live_aw u ((pcs(c := p)) u))" if "\<exists>u. aw_carries ?w (live_aw u (pcs u))"
    using that calm(2) by (metis fun_upd_other)
  moreover have "\<exists>u. deq_waker ?w ((pcs(c := p)) u)" if "\<exists>u. u \<noteq> c \<and> deq_waker ?w (pcs u)"
    using that by (metis fun_upd_other)
  ultimately show "?w \<in> sync_signals s' \<or>
      (aw_ready (dequeuer s') ?w \<or> (\<exists>u. aw_carries ?w (live_aw u ((pcs(c := p)) u)))) \<and>
      (P' (sync_queue s') \<or> (\<exists>u. deq_waker ?w ((pcs(c := p)) u)))"
    using assms(1) e sig unfolding deq_served_def same by blast
qed

text \<open>A step of another thread that is outside the \<open>AtomicWaker\<close>.\<close>

lemma deq_calm_step:
  assumes served: "deq_served S s pcs c" and t: "t \<noteq> c" and same: "dequeuer s' = dequeuer s"
    and sig: "sync_signals s \<subseteq> sync_signals s' \<or> (\<exists>m. sync_signals s' = sync_signals s - {mode_waker m t})"
    and quiet: "\<And>x. \<not> aw_carries x (live_aw t (pcs t))"
    and step: "sync_queue s' = sync_queue s \<or> (\<exists>ch ip ev f.
      thread_step S (sync_queue s) (inner (pcs t)) ch = Some (Inr (sync_queue s', ip, ev)) \<and>
      (ip \<noteq> Idle \<longrightarrow> p = Queue_Call f ip) \<and> \<not> consuming (inner (pcs t)) \<and> \<not> consuming ip)"
    and keep: "\<And>x. deq_waker x (pcs t) \<Longrightarrow> deq_waker x p"
  shows "deq_served S s' (pcs(t := p)) c"
proof (rule deq_served_other [OF served t])
  show "mode_waker m c \<in> sync_signals s \<Longrightarrow> mode_waker m c \<in> sync_signals s'" for m
    using sig t mode_waker_inject by blast
  show "P (sync_queue s') \<or> deq_waker x p" if e: "deq_expects S (pcs c) = Some (m, P)" "P (sync_queue s)" for m P x
    using step
  proof (elim disjE exE conjE)
    fix ch ip ev f
    assume st: "thread_step S (sync_queue s) (inner (pcs t)) ch = Some (Inr (sync_queue s', ip, ev))"
      and ip: "ip \<noteq> Idle \<longrightarrow> p = Queue_Call f ip" and no: "\<not> consuming (inner (pcs t))" "\<not> consuming ip"
    have "deq_waker x p" if "wakes_dequeuer_soon ip"
      using that ip by (cases "ip = Idle") (auto simp: deq_waker_def wakes_dequeuer_soon_def)
    moreover have "P (sync_queue s')" if "\<not> wakes_dequeuer_soon ip"
      by (rule deq_expects_kept [OF e]) (use idle_kept [OF st that no] in auto)
    ultimately show ?thesis by blast
  qed (use e in simp)
qed (use same quiet keep in auto)

lemma go_wakes_dequeuer:
  assumes "step_go S sp q ip = Some (Inr (q', ip', ev))" and "wakes_dequeuer_soon ip" and "\<not> notifies_dequeue ip"
  shows "wakes_dequeuer_soon ip'"
  using assms
  by (cases ip) (auto simp: wakes_dequeuer_soon_def notifies_dequeue_def go_defs split: go_splits)

section \<open>The attempt of the consumer\<close>

lemma resume_deq:
  assumes "live_resume f ip ev = Inr (lp, sev)" and "deq_expects S lp = Some (m, P)"
  shows "f = Deq_Rechecks m \<and> (P = deq_sees S ip \<or>
    (\<exists>e. ev = Ev_Dequeue_Err e \<and> (e = Empty \<or> e = Pending)) \<and> P = queue_idle S)"
proof (cases ev)
  case (Ev_Enqueue r)
  then show ?thesis
    using assms by (cases "(f, r)" rule: enqueue_returned.cases) (auto simp: live_resume_def deq_expects_def)
next
  case (Ev_Dequeue_Err e)
  have "deq_expects S (after_retry m (Until_Deq m) (Parked_Deq m)) = Some (m, queue_idle S)" for m
    by (simp add: after_retry_def deq_expects_def split: call_mode.split)
  then show ?thesis
    using assms Ev_Dequeue_Err
    by (auto simp: live_resume_def dequeue_returned_def deq_expects_def [of _ Resting] and_then_eq_Inr
        split: call_frame.splits if_splits)
qed (use assms in \<open>auto simp: live_resume_def deq_expects_def split: call_frame.splits\<close>)

lemma deq_go_sees:
  assumes go: "step_go S sp q ip = Some (Inr (q', ip', ev))" and plain: "plain_dequeue ip"
    and check: "\<And>w r nc rs ins enq. ip = Deq_Check w r nc rs ins enq \<Longrightarrow> DL_buffer_len w = 0"
    and spin: "\<And>k i len. ip = Deq_Spin k i len \<Longrightarrow> \<not> len \<le> two_get (buffers_length q) i \<Longrightarrow> waited"
    and seen: "deq_sees S ip q"
  shows "deq_sees S ip' q' \<or> waited"
    and "ev = Ev_Dequeue_Err e \<Longrightarrow> e = Empty \<or> e = Pending \<Longrightarrow> queue_idle S q'"
proof -
  have limit: "SPIN_LIMIT \<noteq> 0"
    by (simp add: SPIN_LIMIT_def)
  show "deq_sees S ip' q' \<or> waited"
    using go plain check spin seen limit
    by (cases ip) (auto simp: go_defs plain_dequeue_def deq_sees_def word_empty_def split: go_splits)
  show "queue_idle S q'" if "ev = Ev_Dequeue_Err e" "e = Empty \<or> e = Pending"
    using go plain seen that
    by (cases ip) (auto simp: go_defs plain_dequeue_def deq_sees_def queue_idle_def word_empty_def
        Queue_lock_dequeuing_def DL_try_from_atomic_def split: go_splits)
qed

text \<open>What the invariant of the queue says of the two places where a wait is decided.\<close>

definition decides :: "('b, 'n) queue \<Rightarrow> (nat \<Rightarrow> ('v, 's, 'r) live_pc) \<Rightarrow> nat \<Rightarrow> bool" where
  "decides q pcs c \<longleftrightarrow>
     (\<forall>w r nc rs ins enq. inner (pcs c) = Deq_Check w r nc rs ins enq \<longrightarrow> DL_buffer_len w = 0) \<and>
     (\<forall>k i len. inner (pcs c) = Deq_Spin k i len \<and> \<not> len \<le> two_get (buffers_length q) i \<longrightarrow>
        (\<exists>u. in_flight i (inner (pcs u))))"

lemma flight_waker: "in_flight i (inner p) \<Longrightarrow> live_shape ok b p \<Longrightarrow> deq_waker x p"
  by (cases p)
    (auto simp: in_flight_def deq_waker_def wakes_dequeuer_soon_def notifies_dequeue_def notifies_enqueue_def
      split: pc.splits)

lemma deq_moves_self:
  assumes served: "deq_served S s pcs c" and shape: "\<And>u. live_shape ok (u = c) (pcs u)"
    and fits: "frame_fits f (inner (pcs c))" and dec: "decides (sync_queue s) pcs c"
    and moves: "queue_moves s f (step_go S sp (sync_queue s) (inner (pcs c))) = Some (Inr (s', p', evs, sev))"
    and sees: "\<And>m. f = Deq_Rechecks m \<Longrightarrow> deq_expects S (pcs c) = Some (m, deq_sees S (inner (pcs c)))"
  shows "deq_served S s' (pcs(c := p')) c"
proof -
  let ?ip = "inner (pcs c)"
  obtain q ip ev where go: "step_go S sp (sync_queue s) ?ip = Some (Inr (q, ip, ev))"
    and resume: "live_resume f ip ev = Inr (p', sev)" and s': "s' = s\<lparr>sync_queue := q\<rparr>"
    using moves unfolding queue_moves_Inr by blast
  show ?thesis
  proof (rule deq_served_self [OF served shape [of c]])
    fix m P'
    assume e: "deq_expects S p' = Some (m, P')"
    note r = resume_deq [OF resume e]
    let ?waited = "\<exists>u. u \<noteq> c \<and> deq_waker (mode_waker m c) (pcs u)"
    have f: "f = Deq_Rechecks m" and plain: "plain_dequeue ?ip"
      using r fits by auto
    have check: "DL_buffer_len w = 0" if "?ip = Deq_Check w r nc rs ins enq" for w r nc rs ins enq
      using dec that by (auto simp: decides_def)
    have spin: ?waited if spins: "?ip = Deq_Spin k i len" "\<not> len \<le> two_get (buffers_length (sync_queue s)) i" for k i len
    proof -
      obtain u where u: "in_flight i (inner (pcs u))"
        using dec spins unfolding decides_def by blast
      then have "u \<noteq> c"
        using spins(1) by (auto simp: in_flight_def)
      with flight_waker [OF u shape] show ?thesis by blast
    qed
    have "deq_sees S ?ip (sync_queue s) \<longrightarrow> P' q \<or> ?waited"
      using deq_go_sees [OF go plain check spin] r by auto
    then show "\<exists>P. deq_expects S (pcs c) = Some (m, P) \<and> (P (sync_queue s) \<longrightarrow> P' (sync_queue s') \<or> ?waited)"
      using sees [OF f] s' by auto
  qed (simp_all add: s')
qed

lemma deq_moves_other:
  assumes served: "deq_served S s pcs c" and t: "t \<noteq> c"
    and moves: "queue_moves s f (step_go S sp (sync_queue s) (inner (pcs t))) = Some (Inr (s', p', evs, sev))"
    and other: "\<not> consuming (inner (pcs t))" and quiet: "\<And>x. \<not> aw_carries x (live_aw t (pcs t))"
    and waker: "\<And>x. deq_waker x (pcs t) \<Longrightarrow> wakes_dequeuer_soon (inner (pcs t)) \<and> \<not> notifies_dequeue (inner (pcs t))"
  shows "deq_served S s' (pcs(t := p')) c"
proof -
  obtain q ip ev where go: "step_go S sp (sync_queue s) (inner (pcs t)) = Some (Inr (q, ip, ev))"
    and resume: "live_resume f ip ev = Inr (p', sev)" and s': "s' = s\<lparr>sync_queue := q\<rparr>"
    using moves unfolding queue_moves_Inr by blast
  have call: "ip \<noteq> Idle \<longrightarrow> p' = Queue_Call (case ev of Ev_Sliced sl \<Rightarrow> Direct | _ \<Rightarrow> f) ip"
    by (rule resume_call [OF resume]) (use go_end [OF go] in auto)
  have st: "thread_step S (sync_queue s) (inner (pcs t)) (Go sp) = Some (Inr (q, ip, ev))"
    using go by (simp add: thread_step_def)
  show ?thesis
  proof (rule deq_calm_step [OF served t _ _ quiet])
    show "deq_waker x p'" if "deq_waker x (pcs t)" for x
    proof -
      have soon: "wakes_dequeuer_soon ip"
        using go_wakes_dequeuer [OF go] waker [OF that] by blast
      then have "ip \<noteq> Idle"
        by (auto simp: wakes_dequeuer_soon_def)
      with soon call show ?thesis
        by (auto simp: deq_waker_def)
    qed
    show "sync_queue s' = sync_queue s \<or> (\<exists>ch ip ev f.
        thread_step S (sync_queue s) (inner (pcs t)) ch = Some (Inr (sync_queue s', ip, ev)) \<and>
        (ip \<noteq> Idle \<longrightarrow> p' = Queue_Call f ip) \<and> \<not> consuming (inner (pcs t)) \<and> \<not> consuming ip)"
      using st call s' other go_consuming(1) [OF go] by auto
  qed (simp_all add: s')
qed

text \<open>Steps inside the \<open>AtomicWaker\<close>.\<close>

lemma wake_dequeuer_deq:
  assumes served: "deq_served S s pcs c" and t: "t \<noteq> c" and inv: "live_wakers s pcs"
    and shape: "\<And>u. live_shape ok (u = c) (pcs u)" and pc: "pcs t = Wakes_Dequeuer w f ip"
    and wake: "AtomicWaker_wake w (dequeuer s) (sync_signals s) = Inr (w', d, sg)"
  shows "deq_served S (s\<lparr>dequeuer := d, sync_signals := sg\<rparr>) (pcs(t := Wakes_Dequeuer w' f ip)) c"
    (is "deq_served S ?s (pcs(t := ?p)) c")
proof (rule deq_served_other [OF served t])
  have aw: "aw_inv (dequeuer s) (\<lambda>t. live_aw t (pcs t))"
    using inv by (simp add: live_wakers_def)
  show "aw_ready (dequeuer ?s) x \<or> aw_carries x (live_aw t ?p) \<or> x \<in> sync_signals ?s"
    if "aw_ready (dequeuer s) x \<or> aw_carries x (live_aw t (pcs t))" for x
    using aw_wake_keeps [OF aw, of t w "sync_signals s" w' d sg x] wake that pc by simp
  show "deq_waker x ?p \<or> (\<exists>u. u \<noteq> t \<and> deq_waker x (pcs u)) \<or> x \<in> sync_signals ?s"
    if x: "deq_waker x (pcs t)" "deq_expects S (pcs c) \<noteq> None"
      "aw_ready (dequeuer s) x \<or> (\<exists>u. aw_carries x (live_aw u (pcs u)))" for x
  proof -
    have "\<not> (\<exists>w m. pcs c = Registers_Dequeuer w m)"
      using x(2) by (auto simp: deq_expects_def)
    then have "live_aw u (pcs u) \<noteq> Aw_Reg cx r" for u cx r
      using shape [of u] by (cases "pcs u") auto
    then have "aw_delivers x (Aw_Wake w') \<or> (\<exists>u. u \<noteq> t \<and> aw_delivers x (live_aw u (pcs u))) \<or> x \<in> sg"
      using aw_wake_delivers [OF aw, of t w "sync_signals s" w' d sg x] wake x(1,3) pc by (simp add: deq_waker_def)
    moreover have "deq_waker x (pcs u)" if "aw_delivers x (live_aw u (pcs u))" for u
      using that shape [of u] by (cases "pcs u") (auto simp: deq_waker_def)
    ultimately show ?thesis
      by (auto simp: deq_waker_def)
  qed
qed (use aw_wake_signals [OF wake] in auto)

lemma register_dequeuer_deq:
  assumes shape: "\<And>u. live_shape ok (u = c) (pcs u)" and inv: "live_wakers s pcs" and pc: "pcs c = Registers_Dequeuer w m"
    and reg: "AtomicWaker_register c (mode_cx m c) w (dequeuer s) (sync_signals s) = Inr (w', d, sg)"
  shows "deq_served S (s\<lparr>dequeuer := d, sync_signals := sg\<rparr>)
    (pcs(c := if w' = Reg_Done then Calls (Deq_Rechecks m) (Req_Dequeue None) else Registers_Dequeuer w' m)) c"
proof (cases "w' = Reg_Done")
  case True
  have aw: "aw_inv (dequeuer s) (\<lambda>t. live_aw t (pcs t))"
    using inv by (simp add: live_wakers_def)
  have w: "w \<noteq> Reg_Done"
    using shape [of c] pc by simp
  have alone: "u = c" if "live_aw u (pcs u) = Aw_Reg cx r" for u cx r
    using that shape [of u] by (cases "pcs u") auto
  have "aw_ready d (Waker_new (mode_cx m c) c) \<or> Waker_new (mode_cx m c) c \<in> sg"
    by (rule aw_register_ready [OF aw _ _ w alone]) (use reg True pc in simp_all)
  then show ?thesis
    using True by (auto simp: deq_served_def deq_expects_def mode_waker_def)
qed (simp add: deq_served_def deq_expects_def)

lemma start_queue: "step_start S q req = Some (Inr (q', ip, ev)) \<Longrightarrow> q' = q"
  by (cases req) (auto split: if_splits)

lemma live_call_deq_other:
  assumes served: "deq_served S s pcs c" and t: "t \<noteq> c" and inv: "live_wakers s pcs"
    and shape: "\<And>u. live_shape ok (u = c) (pcs u)"
    and run: "live_run S t sp b s (pcs t) = Some (Inr (s', p', evs, sev))"
    and Queue_Call: "pcs t = Queue_Call f ip"
  shows "deq_served S s' (pcs(t := p')) c"
proof (cases "notifies_dequeue ip \<or> notifies_enqueue ip")
  case True
  then have "s' = s" and p': "p' = Wakes_Dequeuer Wake_Begin f ip \<or>
      p' = Wakes_Enqueuers LWake_Load f ip \<and> notifies_enqueue ip"
    using run Queue_Call by (auto split: if_splits)
  moreover have "deq_waker x p'" if "wakes_dequeuer_soon ip" for x
    using that p' by (auto simp: deq_waker_def wakes_dequeuer_soon_def notifies_enqueue_def split: pc.splits)
  ultimately show ?thesis
    using Queue_Call by (intro deq_calm_step [OF served t]) (simp_all add: deq_waker_def)
next
  case False
  then have go: "queue_moves s f (step_go S sp (sync_queue s) (inner (pcs t))) = Some (Inr (s', p', evs, sev))"
    using run Queue_Call by simp
  have "\<not> consuming ip"
    using shape [of t] Queue_Call t by (auto simp: call_ok_def consuming_def is_dequeuing_def)
  with go False show ?thesis
    by (intro deq_moves_other [OF served t, of f]) (auto simp: Queue_Call deq_waker_def)
qed

lemma live_wakes_dequeuer_deq_other:
  assumes served: "deq_served S s pcs c" and t: "t \<noteq> c" and inv: "live_wakers s pcs"
    and shape: "\<And>u. live_shape ok (u = c) (pcs u)"
    and run: "live_run S t sp b s (pcs t) = Some (Inr (s', p', evs, sev))"
    and Wakes_Dequeuer: "pcs t = Wakes_Dequeuer w f ip"
  shows "deq_served S s' (pcs(t := p')) c"
proof (cases "w = Wake_Done")
  case True
  then have go: "queue_moves s f (step_go S sp (sync_queue s) (inner (pcs t))) = Some (Inr (s', p', evs, sev))"
    using run Wakes_Dequeuer by simp
  show ?thesis
    using shape [of t] Wakes_Dequeuer t True
    by (intro deq_moves_other [OF served t go]) (auto simp: deq_waker_def call_ok_def)
next
  case False
  then obtain w' d sg where wake: "AtomicWaker_wake w (dequeuer s) (sync_signals s) = Inr (w', d, sg)"
    and s': "s' = s\<lparr>dequeuer := d, sync_signals := sg\<rparr>" "p' = Wakes_Dequeuer w' f ip"
    using run Wakes_Dequeuer by (auto simp: and_then_eq_Inr)
  show ?thesis
    unfolding s' by (rule wake_dequeuer_deq [OF served t inv shape Wakes_Dequeuer wake])
qed

lemma live_run_deq_other:
  assumes served: "deq_served S s pcs c" and t: "t \<noteq> c" and inv: "live_wakers s pcs"
    and shape: "\<And>u. live_shape ok (u = c) (pcs u)"
    and run: "live_run S t sp b s (pcs t) = Some (Inr (s', p', evs, sev))"
  shows "deq_served S s' (pcs(t := p')) c"
proof (cases "pcs t")
  case (Queue_Call f ip)
  then show ?thesis
    by (rule live_call_deq_other [OF served t inv shape run])
next
  case (Calls f req)
  then have "s' = s"
    using run start_queue [of S "sync_queue s" req] by (auto simp: queue_moves_Inr)
  then show ?thesis
    using Calls by (intro deq_calm_step [OF served t]) (simp_all add: deq_waker_def)
next
  case (Wakes_Dequeuer w f ip)
  then show ?thesis
    by (rule live_wakes_dequeuer_deq_other [OF served t inv shape run])
next
  case (Wakes_Enqueuers w f ip)
  show ?thesis
  proof (cases "w = LWake_Done")
    case True
    then have go: "queue_moves s f (step_go S sp (sync_queue s) (inner (pcs t))) = Some (Inr (s', p', evs, sev))"
      using run Wakes_Enqueuers by simp
    show ?thesis
      using shape [of t] Wakes_Enqueuers t True
      by (intro deq_moves_other [OF served t go]) (auto simp: deq_waker_def call_ok_def)
  next
    case False
    then show ?thesis
      using run Wakes_Enqueuers list_wake_moves(1) [of t w "enqueuers s" "sync_signals s"]
      by (intro deq_calm_step [OF served t]) (auto simp: deq_waker_def)
  qed
next
  case (Registers_Dequeuer w m)
  then show ?thesis
    using shape [of t] t by simp
qed (use run in \<open>(intro deq_calm_step [OF served t], auto simp: deq_waker_def split: if_splits prod.splits)[1]\<close>)+

lemma deq_served_none: "deq_expects S p = None \<Longrightarrow> deq_served S s (pcs(c := p)) c"
  by (simp add: deq_served_def)

lemma live_call_deq_self:
  assumes served: "deq_served S s pcs c" and inv: "live_wakers s pcs"
    and shape: "\<And>u. live_shape ok (u = c) (pcs u)" and dec: "decides (sync_queue s) pcs c"
    and run: "live_run S c sp b s (pcs c) = Some (Inr (s', p', evs, sev))"
    and Queue_Call: "pcs c = Queue_Call f ip"
  shows "deq_served S s' (pcs(c := p')) c"
proof (cases "notifies_dequeue ip \<or> notifies_enqueue ip")
  case True
  then have "s' = s" and "p' = Wakes_Dequeuer Wake_Begin f ip \<or> p' = Wakes_Enqueuers LWake_Load f ip"
    using run Queue_Call by (auto split: if_splits)
  then show ?thesis
    using Queue_Call by (intro deq_served_self [OF served shape [of c]]) (auto simp: deq_expects_def split: call_frame.splits)
next
  case False
  then have go: "queue_moves s f (step_go S sp (sync_queue s) (inner (pcs c))) = Some (Inr (s', p', evs, sev))"
    using run Queue_Call by simp
  then have "frame_fits f ip"
    using shape [of c] Queue_Call by (auto simp: call_ok_def queue_moves_def)
  then show ?thesis
    by (intro deq_moves_self [OF served shape _ dec go]) (simp_all add: Queue_Call deq_expects_def)
qed

lemma live_wakes_dequeuer_deq_self:
  assumes served: "deq_served S s pcs c" and inv: "live_wakers s pcs"
    and shape: "\<And>u. live_shape ok (u = c) (pcs u)" and dec: "decides (sync_queue s) pcs c"
    and run: "live_run S c sp b s (pcs c) = Some (Inr (s', p', evs, sev))"
    and Wakes_Dequeuer: "pcs c = Wakes_Dequeuer w f ip"
  shows "deq_served S s' (pcs(c := p')) c"
proof (cases "w = Wake_Done")
  case True
  then have go: "queue_moves s f (step_go S sp (sync_queue s) (inner (pcs c))) = Some (Inr (s', p', evs, sev))"
    using run Wakes_Dequeuer by simp
  show ?thesis
    using shape [of c] Wakes_Dequeuer
    by (intro deq_moves_self [OF served shape _ dec go])
      (auto simp: call_ok_def notifies_dequeue_def plain_dequeue_def split: pc.splits)
qed (use run Wakes_Dequeuer in \<open>auto simp: and_then_eq_Inr deq_expects_def intro!: deq_served_none\<close>)

lemma live_wakes_enqueuers_deq_self:
  assumes served: "deq_served S s pcs c" and inv: "live_wakers s pcs"
    and shape: "\<And>u. live_shape ok (u = c) (pcs u)" and dec: "decides (sync_queue s) pcs c"
    and run: "live_run S c sp b s (pcs c) = Some (Inr (s', p', evs, sev))"
    and Wakes_Enqueuers: "pcs c = Wakes_Enqueuers w f ip"
  shows "deq_served S s' (pcs(c := p')) c"
proof (cases "w = LWake_Done")
  case True
  then have go: "queue_moves s f (step_go S sp (sync_queue s) (inner (pcs c))) = Some (Inr (s', p', evs, sev))"
    using run Wakes_Enqueuers by simp
  show ?thesis
    using shape [of c] Wakes_Enqueuers
    by (intro deq_moves_self [OF served shape _ dec go]) (auto simp: call_ok_def deq_expects_def)
next
  case False
  then show ?thesis
    using run Wakes_Enqueuers list_wake_moves(1) [of c w "enqueuers s" "sync_signals s"]
    by (intro deq_served_self [OF served shape [of c]]) (auto simp: deq_expects_def split: call_frame.splits)
qed

lemma live_run_deq_self:
  assumes served: "deq_served S s pcs c" and inv: "live_wakers s pcs"
    and shape: "\<And>u. live_shape ok (u = c) (pcs u)" and dec: "decides (sync_queue s) pcs c"
    and run: "live_run S c sp b s (pcs c) = Some (Inr (s', p', evs, sev))"
  shows "deq_served S s' (pcs(c := p')) c"
proof -
  note none = deq_served_none
  note self = deq_served_self [OF served shape [of c]]
  show ?thesis
  proof (cases "pcs c")
    case (Queue_Call f ip)
    then show ?thesis
      by (rule live_call_deq_self [OF served inv shape dec run])
  next
    case (Calls f req)
    then obtain q ip ev where start: "step_start S (sync_queue s) req = Some (Inr (q, ip, ev))"
      and resume: "live_resume f ip ev = Inr (p', sev)" and s': "s' = s\<lparr>sync_queue := q\<rparr>"
      using run by (auto simp: queue_moves_Inr)
    have "deq_sees S ip q"
      using start by (cases req) (auto simp: deq_sees_def split: if_splits)
    moreover have "ev \<noteq> Ev_Dequeue_Err e" for e
      using start by (cases req) (auto split: if_splits)
    ultimately show ?thesis
      using resume_deq [OF resume] Calls
      by (intro self) (fastforce simp: s' start_queue [OF start] deq_expects_def)+
  next
    case (Wakes_Dequeuer w f ip)
    then show ?thesis
      by (rule live_wakes_dequeuer_deq_self [OF served inv shape dec run])
  next
    case (Wakes_Enqueuers w f ip)
    then show ?thesis
      by (rule live_wakes_enqueuers_deq_self [OF served inv shape dec run])
  next
    case (Registers_Dequeuer w m)
    then show ?thesis
      using run register_dequeuer_deq [OF shape inv Registers_Dequeuer] by (auto simp: and_then_eq_Inr)
  next
    case (Judges f v)
    then have "p' = fst (judge_capacity S (sync_queue s) f v)"
      using run by (auto split: prod.splits)
    then show ?thesis
      by (intro none)
        (auto simp: judge_capacity_def deq_expects_def [of _ Resting] after_retry_def deq_expects_def [of _ "Until_Enq _ _"]
          deq_expects_def [of _ "Parked_Enq _ _"] split: call_frame.splits call_mode.splits)
  next
    case (Until_Deq m)
    then show ?thesis
      using run by (intro self) (auto simp: deq_expects_def split: if_splits)
  next
    case (Parked_Enq v m)
    then show ?thesis
      using run by (intro none) (auto split: if_splits)
  next
    case (Parked_Deq m)
    then show ?thesis
      using run by (intro none) (auto split: if_splits)
  qed (use run in \<open>(intro none, auto simp: deq_expects_def split: if_splits)[1]\<close>)+
qed

lemma handle_keeps_deq:
  assumes served: "deq_served S s pcs c" and shape: "\<And>u. live_shape ok (u = c) (pcs u)"
    and pc: "pcs t = Queue_Call Direct ip" and step: "step_handle S (sync_queue s) op ip = Some (Inr (q, ip', ev))"
  shows "deq_served S (s\<lparr>sync_queue := q\<rparr>) (pcs(t := Queue_Call Direct ip')) c"
proof -
  have "t = c"
    using shape [of t] pc handle_shape(1) [OF step] by (auto simp: call_ok_def consuming_def is_dequeuing_def)
  then show ?thesis
    by (simp add: deq_served_def deq_expects_def)
qed

theorem live_step_deq:
  assumes served: "deq_served S s pcs c" and inv: "live_wakers s pcs"
    and shape: "\<And>u. live_shape ok (u = c) (pcs u)" and dec: "decides (sync_queue s) pcs c"
    and step: "live_step S t ch s (pcs t) = Some (Inr (s', p', evs, sev))"
  shows "deq_served S s' (pcs(t := p')) c"
proof (cases ch)
  case (Live_Call lc)
  then have pc: "pcs t = Resting" and s': "s' = s" "p' = live_start lc"
    using step by (auto simp: live_step_def split: live_pc.splits call_frame.splits pc.splits)
  have e: "deq_expects S (live_start lc) = None"
    by (cases lc) (simp_all, simp add: deq_expects_def)
  show ?thesis
  proof (cases "t = c")
    case True
    then show ?thesis
      using e s' by (simp add: deq_served_def)
  next
    case False
    show ?thesis
      by (rule deq_calm_step [OF served False]) (simp_all add: s' pc deq_waker_def wakes_dequeuer_soon_def)
  qed
next
  case (Live_Run sp b)
  then have run: "live_run S t sp b s (pcs t) = Some (Inr (s', p', evs, sev))"
    using step by (simp add: live_step_def)
  show ?thesis
  proof (cases "t = c")
    case True
    then show ?thesis
      using live_run_deq_self [OF served inv shape dec] run by simp
  next
    case False
    show ?thesis
      by (rule live_run_deq_other [OF served False inv shape run])
  qed
next
  case (Live_Handle op)
  then obtain ip where pc: "pcs t = Queue_Call Direct ip" and "handle_moves S s op ip = Some (Inr (s', p', evs, sev))"
    using step by (auto simp: live_step_def split: live_pc.splits call_frame.splits)
  then show ?thesis
    using handle_keeps_deq [OF served shape pc] by (auto simp: handle_moves_def and_then_eq_Inr)
next
  case Live_Cancel
  then have s': "s' = s" "p' = Resting" and d: "future_dropped (pcs t)"
    using step by (auto simp: live_step_def split: if_splits)
  show ?thesis
  proof (cases "t = c")
    case True
    then show ?thesis
      using s' by (simp add: deq_served_def deq_expects_def)
  next
    case False
    show ?thesis
      by (rule deq_calm_step [OF served False])
        (use d in \<open>auto simp: s' deq_waker_def future_dropped_def split: live_pc.splits\<close>)
  qed
qed

end
