(* ===== verification/Live_Safety.thy ===== *)
theory Live_Safety
  imports Live_Dequeuer
begin

text \<open>
  The consequences for every \<open>conc_system\<close>, the interface that a buffer with its closures meets: in every
  run of the threads of \<open>Synchronized_Concurrent\<close> the invariant of the interleaved queue holds
  (\<open>live_inv\<close>), no step faults (\<open>live_no_fault\<close>), and when no thread can go on by itself, a thread
  that waits to enqueue has no room (\<open>live_enqueuer_full\<close>) and the one consumer waits because all that was
  enqueued has been consumed (\<open>live_dequeuer_done\<close>). A consumer meets a conflict only with another thread that is
  past the dequeuing lock (\<open>live_conflict_other\<close>).
\<close>

section \<open>Every run\<close>

context conc_system
begin

abbreviation live_requests :: "('v, 'r) request \<Rightarrow> bool" where
  "live_requests \<equiv> \<lambda>req. choice_ok honest content good (Start req)"

lemma start_ok_requests: "start_ok live_requests = choice_ok honest content good"
proof
  show "start_ok live_requests ch = choice_ok honest content good ch" for ch
    by (cases ch) (simp_all add: start_ok_def choice_ok_def)
qed

lemma plain_request: "live_requests (Req_Dequeue None)"
  by (simp add: choice_ok_def)

lemma live_inv:
  assumes reach: "live_reach S (live_allowed live_requests consumers) n q0 tr s pcs"
    and q0: "queue_rep B rep q0 A" "\<not> aq_held A"
  shows "\<exists>A' lo xs h. inv (sync_queue s) (map (\<lambda>t. inner (pcs t)) [0..<n]) A' lo xs h \<and>
    map img ((aq_front A @ aq_back A) @ produced content inserted tr) =
      consumed img view tr @ map img (aq_front A' @ aq_back A')"
proof -
  have "sys_steps S (choice_ok honest content good) (quiescent q0 n) tr (queue_state n s pcs)"
    using live_refines [OF reach plain_request] unfolding start_ok_requests by blast
  from steps_inv [OF this initial_inv [OF q0]] show ?thesis
    by (auto simp: conc_inv_def queue_state_def)
qed

lemma live_others:
  assumes "live_reach S (live_allowed live_requests consumers) n q0 tr s pcs" and "n \<le> t"
  shows "pcs t = Resting"
  using assms by (induction rule: live_reach.induct) auto

lemma live_decides:
  assumes reach: "live_reach S (live_allowed live_requests consumers) n q0 tr s pcs"
    and q0: "queue_rep B rep q0 A" "\<not> aq_held A"
  shows "decides (sync_queue s) pcs c"
proof (cases "c < n")
  case True
  let ?ps = "map (\<lambda>t. inner (pcs t)) [0..<n]"
  obtain A' lo xs h where inv: "inv (sync_queue s) ?ps A' lo xs h"
    using live_inv [OF assms] by blast
  have c: "c < length ?ps" "?ps ! c = inner (pcs c)"
    using True by simp_all
  have "DL_buffer_len w = 0" if "inner (pcs c) = Deq_Check w r nc rs ins enq" for w r nc rs ins enq
  proof -
    have "deq_ok img view inserted (dview_of B content (sync_queue s) ?ps lo xs) A' (Deq_Check w r nc rs ins enq)"
      using inv_atD(6) [OF inv] owner(1) [OF inv c(1)] c(2) that by (simp add: is_dequeuing_def)
    then show ?thesis
      using DL_new_fields(2) [of "deq_index (sync_queue s)" 0] deq_index_bound [of "sync_queue s"] by simp
  qed
  moreover have "\<exists>u. in_flight i (inner (pcs u))"
    if "inner (pcs c) = Deq_Spin k i len" "\<not> len \<le> two_get (buffers_length (sync_queue s)) i" for k i len
    using spin_waits [OF inv c(1), of k i len] that c(2) by auto
  ultimately show ?thesis
    by (auto simp: decides_def)
next
  case False
  then show ?thesis
    using live_others [OF reach, of c] by (simp add: decides_def)
qed

theorem live_reach_deq:
  assumes "live_reach S (live_allowed live_requests (\<lambda>t. t = c)) n q0 tr s pcs"
    and q0: "queue_rep B rep q0 A" "\<not> aq_held A"
  shows "deq_served S s pcs c"
  using assms(1)
proof (induction rule: live_reach.induct)
  case live_init
  show ?case
    by (simp add: deq_served_def deq_expects_def)
next
  case (live_next tr s pcs t ch s' p evs sev)
  note reach = live_next.hyps(1)
  have shape: "live_shape live_requests (u = c) (pcs u)" for u
    using live_refines [OF reach plain_request] by blast
  from live_step_deq [OF live_next.IH live_reach_wakers [OF reach] shape live_decides [OF reach q0] live_next.hyps(4)]
  show ?case by (simp add: fun_upd_def)
qed

theorem live_no_fault:
  assumes reach: "live_reach S (live_allowed live_requests consumers) n q0 tr s pcs"
    and q0: "queue_rep B rep q0 A" "\<not> aq_held A" and t: "t < n" and ch: "live_allowed live_requests consumers t ch"
  shows "live_step S t ch s (pcs t) \<noteq> Some (Inl e)"
proof
  assume fault: "live_step S t ch s (pcs t) = Some (Inl e)"
  have shape: "live_shape live_requests (consumers t) (pcs t)"
    using live_refines [OF reach plain_request] by blast
  obtain ch' where ch': "choice_ok honest content good ch'" "thread_step S (sync_queue s) (inner (pcs t)) ch' = Some (Inl e)"
    using live_fault [OF live_reach_wakers [OF reach] shape ch fault] unfolding start_ok_requests by blast
  obtain A' lo xs h where inv: "inv (sync_queue s) (map (\<lambda>t. inner (pcs t)) [0..<n]) A' lo xs h"
    using live_inv [OF reach q0] by blast
  from thread_step_ok [OF inv _ ch'(1), of t "Inl e"] ch'(2) t show False
    by (simp add: step_ok_def)
qed

end

section \<open>When nothing moves\<close>

lemma start_Some: "step_start S q req \<noteq> None"
  by (cases req) (auto split: if_splits)

lemma queue_moves_None [simp]: "queue_moves s f r = None \<longleftrightarrow> r = None"
  by (simp add: queue_moves_def)

lemma list_register_None: "WakerList_register t cx w l = None \<longleftrightarrow> w = LReg_Done \<or> w = LReg_Lock \<and> wl_lock l \<noteq> None"
  by (cases w) auto

lemma list_wake_None: "WakerList_wake t w l sg = None \<longleftrightarrow> w = LWake_Done \<or> w = LWake_Lock \<and> wl_lock l \<noteq> None"
  by (cases w) auto

lemma live_stuck_unlocked:
  assumes inv: "live_wakers s pcs" and stuck: "live_stuck S s pcs"
  shows "wl_lock (enqueuers s) = None"
proof (rule ccontr)
  assume "wl_lock (enqueuers s) \<noteq> None"
  then obtain u where "wl_critical (live_wl u (pcs u))"
    using inv wl_invD(1) [of "enqueuers s" "\<lambda>t. live_wl t (pcs t)"] by (auto simp: live_wakers_def)
  moreover have "live_run S u False False s (pcs u) = None"
    using stuck by (simp add: live_stuck_def)
  ultimately show False
    by (cases "pcs u") (auto simp: list_register_None list_wake_None)
qed

definition at_rest :: "('v, 's, 'r) live_pc \<Rightarrow> bool" where
  "at_rest p \<longleftrightarrow> p = Resting \<or> (\<exists>sl. p = Queue_Call Direct (Holding sl)) \<or> (\<exists>it. p = Queue_Call Direct (Iterating it))"

definition live_parked :: "('v, 's, 'r) live_pc \<Rightarrow> bool" where
  "live_parked p \<longleftrightarrow> (\<exists>v m. p = Parked_Enq v m) \<or> (\<exists>m. p = Parked_Deq m)"

text \<open>About to lock the mutex of the waker list, to register or to wake.\<close>

definition awaits_mutex :: "('v, 's, 'r) live_pc \<Rightarrow> bool" where
  "awaits_mutex p \<longleftrightarrow>
     (\<exists>v m. p = Registers_Enqueuer LReg_Lock v m) \<or> (\<exists>f ip. p = Wakes_Enqueuers LWake_Lock f ip)"

lemma awaits_outside: "awaits_mutex p \<Longrightarrow> \<not> wl_critical (live_wl t p)"
  by (auto simp: awaits_mutex_def)

text \<open>A thread that cannot go on is at rest, waits, or is at the mutex while it is locked.\<close>

lemma live_blocked_pc:
  assumes run: "live_run S t sp False s p = None" and shape: "live_shape ok c p" and p: "\<not> live_parked p"
  shows "at_rest p \<or> awaits_mutex p \<and> wl_lock (enqueuers s) \<noteq> None"
proof -
  have direct: "f = Direct" if "frame_fits f ip" "ip = Idle \<or> (\<exists>sl. ip = Holding sl) \<or> (\<exists>it. ip = Iterating it)" for f ip
    using that by (cases f) (auto simp: enqueuing_pc_def plain_dequeue_def)
  show ?thesis
  proof (cases p)
    case (Queue_Call f ip)
    then have ip: "ip = Idle \<or> (\<exists>sl. ip = Holding sl) \<or> (\<exists>it. ip = Iterating it)"
      using run by (simp add: go_None split: if_splits)
    then have "f = Direct"
      using shape Queue_Call direct [of f ip] by (auto simp: call_ok_def)
    with ip Queue_Call show ?thesis
      by (auto simp: at_rest_def)
  next
    case (Calls f req)
    then show ?thesis
      using run start_Some [of S "sync_queue s" req] by simp
  qed (use run p shape in \<open>auto simp: go_None list_register_None list_wake_None notifies_dequeue_def
      notifies_enqueue_def live_parked_def awaits_mutex_def split: if_splits prod.splits\<close>)
qed


lemma live_stuck_pc:
  assumes inv: "live_wakers s pcs" and shape: "live_shape ok c (pcs t)" and stuck: "live_stuck S s pcs"
  shows "at_rest (pcs t) \<or> (\<exists>v m. pcs t = Parked_Enq v m \<and> mode_waker m t \<notin> sync_signals s) \<or>
    (\<exists>m. pcs t = Parked_Deq m \<and> mode_waker m t \<notin> sync_signals s)"
proof -
  have run: "live_run S t False False s (pcs t) = None"
    using stuck by (simp add: live_stuck_def)
  from live_blocked_pc [OF run shape] have "at_rest (pcs t) \<or> live_parked (pcs t)"
    using live_stuck_unlocked [OF inv stuck] by blast
  with run show ?thesis
    by (auto simp: live_parked_def split: if_splits)
qed

lemma rest_calm: "at_rest p \<Longrightarrow> \<not> enq_waker p \<and> \<not> deq_waker x p"
  by (auto simp: at_rest_def enq_waker_def deq_waker_def wakes_enqueuers_soon_def wakes_dequeuer_soon_def)

lemma stuck_calm:
  assumes "live_wakers s pcs" and "\<And>u. live_shape ok (consumers u) (pcs u)" and "live_stuck S s pcs"
  shows "\<not> enq_waker (pcs u)" and "\<not> deq_waker x (pcs u)"
  using live_stuck_pc [OF assms(1) assms(2) assms(3), of u] rest_calm [of "pcs u" x]
  by (auto simp: enq_waker_def deq_waker_def)

context conc_system
begin

text \<open>A thread that waits to enqueue waits for room, whoever dequeues.\<close>

theorem live_enqueuer_waits:
  assumes reach: "live_reach S (live_allowed live_requests consumers) n q0 tr s pcs"
    and stuck: "live_stuck S s pcs" and pc: "pcs t = Parked_Enq v m"
  shows "queue_full S v (sync_queue s)"
proof -
  note wk = live_reach_wakers [OF reach]
  have shape: "live_shape live_requests (consumers u) (pcs u)" for u
    using live_refines [OF reach plain_request] by blast
  have "mode_waker m t \<notin> sync_signals s"
    using live_stuck_pc [OF wk shape stuck, of t] pc by (auto simp: at_rest_def)
  moreover have "enq_expects S (pcs t) = Some (m, queue_full S v)"
    by (simp add: pc enq_expects_def)
  ultimately show ?thesis
    using live_reach_enq [OF reach plain_request, of t] stuck_calm(1) [OF wk shape stuck] unfolding enq_served_def by blast
qed

theorem live_enqueuer_full:
  assumes reach: "live_reach S (live_allowed live_requests consumers) n q0 tr s pcs"
    and stuck: "live_stuck S s pcs" and pc: "pcs t = Parked_Enq v m"
  shows "\<not> Queue_is_closed (sync_queue s)"
    and "length (content v) \<le> unat (Queue_capacity (sync_queue s))"
    and "unat (Queue_capacity (sync_queue s)) < unat (Queue_len (sync_queue s)) + length (content v)"
proof -
  let ?q = "sync_queue s"
  have full: "queue_full S v ?q"
    by (rule live_enqueuer_waits [OF assms])
  have "live_shape live_requests (consumers t) (pcs t)"
    using live_refines [OF reach plain_request] by blast
  then have v: "honest v" "length (content v) < 9223372036854775808"
    by (simp_all add: pc choice_ok_def)
  show "\<not> Queue_is_closed ?q" and fits: "length (content v) \<le> unat (Queue_capacity ?q)"
    using full size_content [OF v(1)]
    by (simp_all add: queue_full_def word_full_def Queue_is_closed_def sys_parts word_le_nat_alt)
  have "unat (EC_remaining_capacity (enqueuing_capacity ?q)) < length (content v)"
    using full EC_try_reserve_None [of "enqueuing_capacity ?q" "ins_size I v"] size_content [OF v(1)] v(2)
    by (simp add: queue_full_def word_full_def sys_parts)
  with fits show "unat (Queue_capacity ?q) < unat (Queue_len ?q) + length (content v)"
    by (simp add: Queue_len_def saturating_sub_unat)
qed

lemma live_dequeuer_waits:
  assumes reach: "live_reach S (live_allowed live_requests (\<lambda>t. t = c)) n q0 tr s pcs"
    and q0: "queue_rep B rep q0 A" "\<not> aq_held A"
    and stuck: "live_stuck S s pcs" and pc: "pcs c = Parked_Deq m"
  shows "queue_idle S (sync_queue s)"
proof -
  note wk = live_reach_wakers [OF reach]
  have shape: "live_shape live_requests (u = c) (pcs u)" for u
    using live_refines [OF reach plain_request] by blast
  have "mode_waker m c \<notin> sync_signals s"
    using live_stuck_pc [OF wk shape stuck, of c] pc by (auto simp: at_rest_def)
  moreover have "deq_expects S (pcs c) = Some (m, queue_idle S)"
    by (simp add: pc deq_expects_def)
  ultimately show ?thesis
    using live_reach_deq [OF reach q0] stuck_calm(2) [OF wk shape stuck] unfolding deq_served_def by blast
qed

text \<open>The only consumer waits when nothing is left: all that was enqueued has been consumed.\<close>

theorem live_dequeuer_done:
  assumes reach: "live_reach S (live_allowed live_requests (\<lambda>t. t = c)) n q0 tr s pcs"
    and q0: "queue_rep B rep q0 A" "\<not> aq_held A"
    and stuck: "live_stuck S s pcs" and pc: "pcs c = Parked_Deq m"
  shows "\<not> EC_is_closed (enqueuing_capacity (sync_queue s))"
    and "map img (aq_front A @ aq_back A @ produced content inserted tr) = consumed img view tr"
proof -
  let ?q = "sync_queue s" and ?ps = "map (\<lambda>t. inner (pcs t)) [0..<n]"
  note wk = live_reach_wakers [OF reach]
  have shape: "live_shape live_requests (u = c) (pcs u)" for u
    using live_refines [OF reach plain_request] by blast
  obtain A' lo xs h where inv: "inv ?q ?ps A' lo xs h"
    and hist: "map img (aq_front A @ aq_back A @ produced content inserted tr) =
      consumed img view tr @ map img (aq_front A' @ aq_back A')"
    using live_inv [OF reach q0] by auto
  have idle: "queue_idle S ?q"
    by (rule live_dequeuer_waits [OF assms])
  then show "\<not> EC_is_closed (enqueuing_capacity ?q)"
    by (simp add: queue_idle_def word_empty_def)
  have rest: "inner (pcs u) = Idle" for u
    using live_stuck_pc [OF wk shape stuck, of u] shape [of u] pc
    by (cases "u = c") (auto simp: at_rest_def call_ok_def consuming_def is_dequeuing_def)
  then have "conc_inv B rep img view honest content good inserted \<lparr>shared = ?q, threads = ?ps\<rparr> A'"
    using inv by (auto simp: conc_inv_def)
  then have rep: "queue_rep B rep ?q (A'\<lparr>aq_held := False\<rparr>)"
    using quiescent_rep [of "\<lparr>shared = ?q, threads = ?ps\<rparr>" A'] rest by auto
  note e = enq_repD [OF rep] and d = deq_repD [OF rep]
  have "unat (EC_remaining_capacity (enqueuing_capacity ?q)) = aq_capacity A'"
    using e(3) idle by (simp add: queue_idle_def word_empty_def sys_parts enq_index_def)
  then have "length (aq_back A') = 0"
    using e(5,6) by (simp del: length_0_conv)
  moreover have "aq_front A' = []"
  proof -
    have small: "length (aq_front A') < 4611686018427387903"
      using d(2-4) by simp
    then have "DL_buffer_len (dequeuing_length ?q) = of_nat (length (aq_front A'))"
      using d(6) DL_new_fields(2) [OF deq_index_bound, of "of_nat (length (aq_front A'))" ?q] by (simp add: usize_simps)
    then have "unat (of_nat (length (aq_front A')) :: usize) = 0"
      using idle by (simp add: queue_idle_def)
    with small show ?thesis
      by (simp add: usize_simps)
  qed
  ultimately show "map img (aq_front A @ aq_back A @ produced content inserted tr) = consumed img view tr"
    using hist by simp
qed

end

section \<open>Conflicts\<close>

definition conflicts :: "('v, 's) sync_event \<Rightarrow> bool" where
  "conflicts ev \<longleftrightarrow> ev = Dequeue_Fails Dequeue_Conflict \<or> ev = Try_Dequeue_Fails Conflict"

lemma resume_conflict: "live_resume f ip ev = Inr (lp, sev) \<Longrightarrow> conflicts sev \<Longrightarrow> ev = Ev_Dequeue_Err Conflict"
proof (cases ev)
  case (Ev_Enqueue r)
  then show "live_resume f ip ev = Inr (lp, sev) \<Longrightarrow> conflicts sev \<Longrightarrow> ev = Ev_Dequeue_Err Conflict"
    by (cases "(f, r)" rule: enqueue_returned.cases) (auto simp: live_resume_def conflicts_def)
next
  case (Ev_Dequeue_Err e)
  then show "live_resume f ip ev = Inr (lp, sev) \<Longrightarrow> conflicts sev \<Longrightarrow> ev = Ev_Dequeue_Err Conflict"
    by (cases e)
      (auto simp: live_resume_def dequeue_returned_def dequeue_failure_def conflicts_def
        split: call_frame.splits call_mode.splits bool.splits)
qed (auto simp: live_resume_def conflicts_def)

lemma go_conflict:
  assumes "step_go S sp q ip = Some (Inr (q', ip', Ev_Dequeue_Err Conflict))" and "pc_value ok ip"
  shows "(\<exists>r. ip = Deq_Lock r) \<and> DL_try_from_atomic (dequeuing_length q) = Inl Conflict"
  using assms
  by (cases ip) (auto simp: go_defs pc_value_def Queue_lock_dequeuing_def split: go_splits)

lemma moves_conflict:
  assumes "queue_moves s f (step_go S sp (sync_queue s) ip) = Some (Inr (s', p', evs, sev))" and "conflicts sev"
    and "pc_value ok ip"
  shows "(\<exists>r. ip = Deq_Lock r) \<and> DL_try_from_atomic (dequeuing_length (sync_queue s)) = Inl Conflict"
proof -
  obtain q ip' ev where go: "step_go S sp (sync_queue s) ip = Some (Inr (q, ip', ev))"
    and resume: "live_resume f ip' ev = Inr (p', sev)"
    using assms(1) unfolding queue_moves_Inr by blast
  with resume_conflict [OF resume assms(2)] show ?thesis
    using go_conflict [of S sp "sync_queue s" ip q ip' ok] assms(3) by simp
qed

lemma live_conflict:
  assumes step: "live_step S t ch s p = Some (Inr (s', p', evs, sev))" and shape: "live_shape ok b p"
    and sev: "conflicts sev"
  shows "(\<exists>r. inner p = Deq_Lock r) \<and> DL_try_from_atomic (dequeuing_length (sync_queue s)) = Inl Conflict"
proof -
  have no [simp]: "\<not> conflicts Sync_Tau" "\<not> conflicts (Enqueue_Returns r)" for r
    by (simp_all add: conflicts_def)
  obtain sp x where "ch = Live_Run sp x"
    using step sev
    by (cases ch) (auto simp: live_step_def handle_moves_def and_then_eq_Inr
        split: live_pc.splits call_frame.splits pc.splits if_splits)
  then have run: "live_run S t sp x s p = Some (Inr (s', p', evs, sev))"
    using step by (simp add: live_step_def)
  show ?thesis
  proof (cases p)
    case (Queue_Call f ip)
    then show ?thesis
      using run sev shape moves_conflict [of s f S sp ip s' p' evs sev ok]
      by (auto simp: call_ok_def queue_moves_def split: if_splits)
  next
    case (Calls f req)
    then show ?thesis
      using run sev resume_conflict [of f _ _ p' sev]
      by (cases req) (auto simp: queue_moves_Inr split: if_splits)
  next
    case (Wakes_Dequeuer w f ip)
    then show ?thesis
      using run sev shape moves_conflict [of s f S sp ip s' p' evs sev ok]
      by (auto simp: call_ok_def and_then_eq_Inr split: if_splits)
  next
    case (Wakes_Enqueuers w f ip)
    then show ?thesis
      using run sev shape moves_conflict [of s f S sp ip s' p' evs sev ok]
      by (auto simp: call_ok_def split: if_splits)
  qed (use run sev in \<open>auto simp: judge_capacity_def and_then_eq_Inr split: if_splits prod.splits\<close>)
qed

context conc_system
begin

text \<open>The dequeuing side is found locked only while another thread is past the lock.\<close>

theorem live_conflict_other:
  assumes reach: "live_reach S (live_allowed live_requests consumers) n q0 tr s pcs"
    and q0: "queue_rep B rep q0 A" "\<not> aq_held A"
    and step: "live_step S t ch s (pcs t) = Some (Inr (s', p', evs, sev))" and sev: "conflicts sev"
  shows "\<exists>u < n. u \<noteq> t \<and> consumers u \<and> is_dequeuing (inner (pcs u))"
proof (rule ccontr)
  assume none: "\<not> ?thesis"
  let ?q = "sync_queue s" and ?ps = "map (\<lambda>t. inner (pcs t)) [0..<n]"
  have shape: "live_shape live_requests (consumers u) (pcs u)" for u
    using live_refines [OF reach plain_request] by blast
  obtain r where pc: "inner (pcs t) = Deq_Lock r" and lock: "DL_try_from_atomic (dequeuing_length ?q) = Inl Conflict"
    using live_conflict [OF step shape sev] by blast
  obtain A' lo xs h where inv: "inv ?q ?ps A' lo xs h"
    using live_inv [OF reach q0] by blast
  have "consumers u" if "is_dequeuing (inner (pcs u))" for u
    using shape [of u] that by (cases "pcs u") (auto simp: call_ok_def consuming_def is_dequeuing_def)
  then have "\<not> is_dequeuing (inner (pcs u))" if "u < n" for u
    using none pc that by (cases "u = t") (auto simp: is_dequeuing_def)
  then have "filter is_dequeuing ?ps = []"
    by (simp add: filter_empty_conv)
  then have "h = Deq_Open (dequeuing_length ?q) None"
    using inv_atD(5) [OF inv] by (simp add: holder_def)
  then have pk: "parked (dview_of B content ?q ?ps lo xs) A'"
    and w: "dequeuing_length ?q = DL_new (deq_index ?q) (of_nat (length (aq_front A')))"
    using inv_atD(6) [OF inv] by simp_all
  from parked_word(4) [OF pk inv_atD(1) [OF inv]] w lock show False
    by (simp add: DL_try_from_atomic_def split: if_splits)
qed

end

end
