(* ===== verification/Live_Progress.thy ===== *)
theory Live_Progress
  imports Live_Safety Synchronized_Progress
begin

text \<open>
  Calls of \<open>Synchronized_Concurrent\<close> end: every step of a thread but the end of a wait makes \<open>live_left\<close>
  smaller or, when a compare-and-swap fails spuriously, leaves it as it is. So a thread that is left to run comes to rest,
  to a wait, or to the mutex of the waker list. The parts of
  \<open>live_left\<close> are the attempts still to come, the steps left in the current one (\<open>Concurrent_Progress\<close>), the stage of
  the current notification, and the wakers still to be woken.
\<close>

section \<open>Steps left in a call\<close>

primrec frame_rank :: "call_frame \<Rightarrow> nat" where
  "frame_rank Direct = 1"
| "frame_rank (Enq_Rechecks m) = 3"
| "frame_rank (Deq_Rechecks m) = 3"
| "frame_rank (Enq_Spins k m) = 5 + k"
| "frame_rank (Deq_Spins k m) = 5 + k"

text \<open>How many attempts and registrations are still to come.\<close>

primrec call_rank :: "('v, 's, 'r) live_pc \<Rightarrow> nat" where
  "call_rank (Queue_Call f p) = frame_rank f"
| "call_rank (Calls f req) = frame_rank f"
| "call_rank (Wakes_Dequeuer w f p) = frame_rank f"
| "call_rank (Wakes_Enqueuers w f p) = frame_rank f"
| "call_rank (Judges f v) = frame_rank f"
| "call_rank (Registers_Enqueuer w v m) = 4"
| "call_rank (Registers_Dequeuer w m) = 4"
| "call_rank (Until_Enq v m) = 2"
| "call_rank (Until_Deq m) = 2"
| "call_rank (Parked_Enq v m) = 0"
| "call_rank (Parked_Deq m) = 0"

text \<open>Where the current attempt or registration is.\<close>

primrec attempt_left :: "('b, 'n) queue \<Rightarrow> ('v, 's, 'r) live_pc \<Rightarrow> nat" where
  "attempt_left q (Queue_Call f p) = steps_left q p"
| "attempt_left q (Calls f req) = 2 * SPIN_LIMIT + 32"
| "attempt_left q (Wakes_Dequeuer w f p) = steps_left q p"
| "attempt_left q (Wakes_Enqueuers w f p) = steps_left q p"
| "attempt_left q (Judges f v) = 0"
| "attempt_left q (Registers_Enqueuer w v m) = list_register_left w"
| "attempt_left q (Registers_Dequeuer w m) = register_left w"
| "attempt_left q (Until_Enq v m) = 0"
| "attempt_left q (Until_Deq m) = 0"
| "attempt_left q (Parked_Enq v m) = 0"
| "attempt_left q (Parked_Deq m) = 0"

text \<open>Where the current notification is.\<close>

definition notify_left :: "('v, 's, 'r) live_pc \<Rightarrow> nat" where
  "notify_left p =
     (case p of
        Wakes_Dequeuer w f p \<Rightarrow> if w = Wake_Done then 0 else wake_left w
      | Wakes_Enqueuers w f p \<Rightarrow> if w = LWake_Done then 0 else list_wake_left w
      | Queue_Call f p \<Rightarrow> 5
      | _ \<Rightarrow> 0)"

definition live_left :: "('b, 'n) queue sync_shared \<Rightarrow> ('v, 's, 'r) live_pc \<Rightarrow> nat \<times> nat \<times> nat \<times> nat" where
  "live_left s p = (call_rank p, attempt_left (sync_queue s) p, notify_left p, length (wl_wakers (enqueuers s)))"

definition sooner :: "(nat \<times> nat \<times> nat \<times> nat) rel" where
  "sooner = less_than <*lex*> less_than <*lex*> less_than <*lex*> less_than"

lemma wf_sooner: "wf sooner"
  by (auto simp: sooner_def)

lemma next_rank: "call_rank (next_enqueue k v m) < 5 + k" "call_rank (next_dequeue k m) < 5 + k"
  by (auto simp: next_enqueue_def next_dequeue_def split: nat.split)

lemma after_retry_rank: "call_rank (after_retry m (Until_Enq v m) (Parked_Enq v m)) < 3"
   "call_rank (after_retry m (Until_Deq m) (Parked_Deq m)) < 3"
  by (auto simp: after_retry_def split: call_mode.split)

lemma frame_rank_pos: "0 < frame_rank f"
  by (cases f) simp_all

lemma enqueue_returned_left:
  assumes "enqueue_returned f r = (lp, sev)"
  shows "call_rank lp < frame_rank f \<or> call_rank lp = frame_rank f \<and> attempt_left q lp = 0"
  using assms frame_rank_pos [of f] by (cases "(f, r)" rule: enqueue_returned.cases) auto

lemma dequeue_returned_left:
  assumes "dequeue_returned f e = Inr (lp, sev)"
  shows "call_rank lp < frame_rank f \<or> call_rank lp = frame_rank f \<and> attempt_left q lp = 0"
  using assms next_rank(2) after_retry_rank(2)
  by (cases f) (auto simp: dequeue_returned_def and_then_eq_Inr split: if_splits)

text \<open>After a step of the queue that left \<open>p\<close>, either the attempt goes on at \<open>p\<close> or the call is further.\<close>

lemma live_resume_left:
  assumes "live_resume f p ev = Inr (lp, sev)"
  shows "call_rank lp < frame_rank f \<or> call_rank lp = frame_rank f \<and> attempt_left q lp \<le> steps_left q p"
proof (cases ev)
  case (Ev_Enqueue r)
  then show ?thesis
    using assms enqueue_returned_left [of f r lp sev q] by (auto simp: live_resume_def)
next
  case (Ev_Dequeue_Err e)
  then show ?thesis
    using assms dequeue_returned_left [of f e lp sev q] by (auto simp: live_resume_def)
next
  case (Ev_Sliced sl)
  then show ?thesis
    using assms by (cases f) (auto simp: live_resume_def)
qed (use assms in \<open>auto simp: live_resume_def\<close>)

lemma queue_moves_left:
  assumes "queue_moves s f r = Some (Inr (s', lp, evs, sev))"
    and "\<forall>q p ev. r = Some (Inr (q, p, ev)) \<longrightarrow> steps_left q p < k"
  shows "call_rank lp < frame_rank f \<or> call_rank lp = frame_rank f \<and> attempt_left (sync_queue s') lp < k"
proof -
  obtain q p ev where r: "r = Some (Inr (q, p, ev))" and resume: "live_resume f p ev = Inr (lp, sev)"
    and s': "s' = s\<lparr>sync_queue := q\<rparr>"
    using assms(1) unfolding queue_moves_Inr by blast
  from live_resume_left [OF resume, of q] assms(2) r s' show ?thesis
    by auto
qed


lemma judge_capacity_left:
  assumes "judge_capacity S q f v = (lp, sev)" and "(\<exists>k m. f = Enq_Spins k m) \<or> (\<exists>m. f = Enq_Rechecks m)"
  shows "call_rank lp < frame_rank f"
  using assms next_rank(1) after_retry_rank(1) by (auto simp: judge_capacity_def split: if_splits)

lemma sooner_iff:
  "((a', b', c', d'), a, b, c, d) \<in> sooner \<longleftrightarrow>
     a' < a \<or> a' = a \<and> (b' < b \<or> b' = b \<and> (c' < c \<or> c' = c \<and> d' < d))"
  by (auto simp: sooner_def)

lemma wake_left_pos: "0 < wake_left w" "0 < list_wake_left l"
  by (cases w; simp) (cases l; simp)

lemma wake_left_bound: "wake_left w < 5" "list_wake_left l < 5"
  by (cases w; simp) (cases l; simp)

lemma queue_step_left:
  assumes "queue_moves s f (step_go S False (sync_queue s) ip) = Some (Inr (s', p', evs, sev))"
    and "call_rank p = frame_rank f" and "attempt_left (sync_queue s) p = steps_left (sync_queue s) ip"
  shows "(live_left s' p', live_left s p) \<in> sooner"
proof -
  have "\<forall>q ip' ev. step_go S False (sync_queue s) ip = Some (Inr (q, ip', ev)) \<longrightarrow>
      steps_left q ip' < steps_left (sync_queue s) ip"
    using step_go_left by blast
  from queue_moves_left [OF assms(1) this] assms(2,3) show ?thesis
    by (auto simp: live_left_def sooner_iff)
qed

text \<open>Every step but the end of a wait brings a call nearer to its return or its next wait.\<close>

theorem live_run_left:
  assumes step: "live_run S t False b s p = Some (Inr (s', p', evs, sev))" and p: "\<not> live_parked p"
    and shape: "live_shape ok c p"
  shows "(live_left s' p', live_left s p) \<in> sooner"
proof (cases p)
  case (Queue_Call f ip)
  show ?thesis
  proof (cases "notifies_dequeue ip \<or> notifies_enqueue ip")
    case True
    then show ?thesis
      using step Queue_Call by (auto simp: live_left_def sooner_iff notify_left_def stays_def split: if_splits)
  next
    case False
    then show ?thesis
      using step queue_step_left [of s f S ip s' p' evs sev p] by (simp add: Queue_Call)
  qed
next
  case (Calls f req)
  have "queue_moves s f (step_start S (sync_queue s) req) = Some (Inr (s', p', evs, sev))"
    using step by (simp add: Calls)
  moreover have "\<forall>q ip ev. step_start S (sync_queue s) req = Some (Inr (q, ip, ev)) \<longrightarrow> steps_left q ip < 2 * SPIN_LIMIT + 32"
    using step_start_left by blast
  ultimately show ?thesis
    using queue_moves_left [of s f _ s' p' evs sev]
    by (fastforce simp: Calls live_left_def sooner_iff)
next
  case (Wakes_Dequeuer w f ip)
  show ?thesis
  proof (cases "w = Wake_Done")
    case True
    then show ?thesis
      using step queue_step_left [of s f S ip s' p' evs sev p] by (simp add: Wakes_Dequeuer)
  next
    case False
    then show ?thesis
      using step wake_left_step [of w "dequeuer s" "sync_signals s"] wake_left_pos(1) [of w]
      by (auto simp: Wakes_Dequeuer live_left_def sooner_iff notify_left_def stays_def and_then_eq_Inr split: if_splits)
  qed
next
  case (Wakes_Enqueuers w f ip)
  show ?thesis
  proof (cases "w = LWake_Done")
    case True
    then show ?thesis
      using step queue_step_left [of s f S ip s' p' evs sev p] by (simp add: Wakes_Enqueuers)
  next
    case False
    then show ?thesis
      using step by (cases w)
        (auto simp: Wakes_Enqueuers live_left_def sooner_iff notify_left_def stays_def split: if_splits list.splits)
  qed
next
  case (Judges f v)
  then show ?thesis
    using step shape judge_capacity_left [of S "sync_queue s" f v p' sev]
    by (auto simp: live_left_def sooner_iff split: prod.splits)
next
  case (Registers_Enqueuer w v m)
  then show ?thesis
    using step by (cases w) (auto simp: live_left_def sooner_iff stays_def split: if_splits)
next
  case (Registers_Dequeuer w m)
  then show ?thesis
    using step register_left_step [of t "mode_cx m t" w "dequeuer s" "sync_signals s"]
    by (auto simp: live_left_def sooner_iff stays_def and_then_eq_Inr split: if_splits)
qed (use step p in \<open>auto simp: live_left_def sooner_iff stays_def live_parked_def split: if_splits\<close>)

text \<open>A spurious failure of a compare-and-swap takes a call no further from its end.\<close>

lemma notifier_go: "notifies_dequeue p \<or> notifies_enqueue p \<Longrightarrow> step_go S sp q p = step_go S False q p"
  by (cases p) (simp_all add: notifies_dequeue_def notifies_enqueue_def)

lemma live_run_spurious:
  assumes run: "live_run S t sp b s p = Some (Inr (s', p', evs, sev))" and shape: "live_shape ok c p"
  shows "live_run S t False b s p = live_run S t sp b s p \<or>
    (live_left s' p', live_left s p) \<in> sooner \<or> live_left s' p' = live_left s p"
proof (cases p)
  case (Queue_Call f ip)
  show ?thesis
  proof (cases "step_go S sp (sync_queue s) ip = step_go S False (sync_queue s) ip")
    case True
    with Queue_Call show ?thesis by simp
  next
    case False
    then obtain ip' where go: "step_go S sp (sync_queue s) ip = Some (Inr (sync_queue s, ip', Tau))"
      "steps_left (sync_queue s) ip' \<le> steps_left (sync_queue s) ip"
      using step_go_spurious [of S sp "sync_queue s" ip] by blast
    have "\<not> notifies_dequeue ip" "\<not> notifies_enqueue ip"
      using False notifier_go [of ip S sp "sync_queue s"] by blast+
    with go Queue_Call run show ?thesis
      by (auto simp: queue_moves_def live_resume_def live_left_def sooner_iff notify_left_def)
  qed
next
  case (Wakes_Dequeuer w f ip)
  with shape notifier_go [of ip S sp "sync_queue s"] show ?thesis by simp
next
  case (Wakes_Enqueuers w f ip)
  with shape notifier_go [of ip S sp "sync_queue s"] show ?thesis by simp
qed simp_all

lemma live_run_nearer:
  assumes run: "live_run S t sp b s p = Some (Inr (s', p', evs, sev))" and p: "\<not> live_parked p"
    and shape: "live_shape ok c p"
  shows "(live_left s' p', live_left s p) \<in> sooner \<or> sp \<and> live_left s' p' = live_left s p"
proof (cases "live_run S t False b s p = live_run S t sp b s p")
  case True
  with run have "live_run S t False b s p = Some (Inr (s', p', evs, sev))" by simp
  from live_run_left [OF this p shape] show ?thesis ..
next
  case False
  then have sp by (cases sp) simp_all
  with False live_run_spurious [OF run shape] show ?thesis by blast
qed

section \<open>Operations that do not wait\<close>

text \<open>A thread inside a plain operation of the queue, or the last attempt of a call whose deadline has passed.\<close>

primrec plain_call :: "('v, 's, 'r) live_pc \<Rightarrow> bool" where
  "plain_call (Queue_Call f p) = (f = Direct)"
| "plain_call (Calls f req) = (f = Direct)"
| "plain_call (Wakes_Dequeuer w f p) = (f = Direct)"
| "plain_call (Wakes_Enqueuers w f p) = (f = Direct)"
| "plain_call (Judges f v) = False"
| "plain_call (Registers_Enqueuer w v m) = False"
| "plain_call (Registers_Dequeuer w m) = False"
| "plain_call (Until_Enq v m) = False"
| "plain_call (Until_Deq m) = False"
| "plain_call (Parked_Enq v m) = False"
| "plain_call (Parked_Deq m) = False"

lemma live_resume_plain: "live_resume Direct p ev = Inr (lp, sev) \<Longrightarrow> plain_call lp"
  by (cases ev) (auto simp: live_resume_def dequeue_returned_def)

lemma live_run_plain:
  assumes "live_run S t sp b s p = Some (Inr (s', p', evs, sev))" and "plain_call p"
  shows "plain_call p'"
  using assms live_resume_plain
  by (cases p) (auto simp: queue_moves_Inr stays_def and_then_eq_Inr split: if_splits)

lemma live_run_rest: "live_step S t (Live_Run sp b) s p = live_run S t sp b s p"
  by (simp add: live_step_def)

text \<open>
  Where a call that is left to run stops: at rest, at a wait, or at the mutex of the waker list while another thread
  holds it.
\<close>

definition live_stops :: "nat \<Rightarrow> ('b, 'n) queue sync_shared \<Rightarrow> ('v, 's, 'r) live_pc \<Rightarrow> bool" where
  "live_stops t s p \<longleftrightarrow>
     at_rest p \<or> live_parked p \<or> awaits_mutex p \<and> (\<exists>u. u \<noteq> t \<and> wl_lock (enqueuers s) = Some u)"

text \<open>
  A thread runs alone for \<open>k\<close> steps; \<open>sps i\<close> says whether a compare-and-swap fails spuriously at step \<open>i\<close>.
\<close>

definition alone :: "nat \<Rightarrow> (nat \<Rightarrow> bool) \<Rightarrow> nat \<Rightarrow> (nat \<times> ('v, 'r) live_choice) list" where
  "alone t sps k = map (\<lambda>i. (t, Live_Run (sps i) False)) [0..<k]"

lemma alone_simps [simp]:
  "alone t sps 0 = []" "alone t sps (Suc k) = (t, Live_Run (sps 0) False) # alone t (\<lambda>i. sps (Suc i)) k"
  by (simp_all add: alone_def upt_conv_Cons map_Suc_upt [symmetric] del: upt_Suc)

context conc_system
begin

lemma live_goes_on:
  assumes reach: "live_reach S (live_allowed live_requests consumers) n q0 tr s pcs"
    and q0: "queue_rep B rep q0 A" "\<not> aq_held A" and t: "t < n" and on: "\<not> live_stops t s (pcs t)"
  obtains s' p evs sev where "live_run S t sp False s (pcs t) = Some (Inr (s', p, evs, sev))"
    and "live_reach S (live_allowed live_requests consumers) n q0 (tr @ evs) s' (pcs(t := p))"
    and "(live_left s' p, live_left s (pcs t)) \<in> sooner \<or> sp \<and> live_left s' p = live_left s (pcs t)"
proof -
  have shape: "live_shape live_requests (consumers t) (pcs t)"
    using live_refines [OF reach plain_request] by blast
  have crit: "wl_critical (live_wl t (pcs t)) \<longleftrightarrow> wl_lock (enqueuers s) = Some t"
    using live_reach_wakers [OF reach] wl_invD(1) [of "enqueuers s" "\<lambda>t. live_wl t (pcs t)" t]
    by (simp add: live_wakers_def)
  have "live_run S t sp False s (pcs t) \<noteq> None"
    using live_blocked_pc [OF _ shape, of S t sp s] on crit awaits_outside [of "pcs t" t]
    unfolding live_stops_def by (metis option.exhaust)
  moreover have ok: "live_allowed live_requests consumers t (Live_Run sp False)"
    by (simp add: live_allowed_def)
  ultimately obtain s' p evs sev where run: "live_run S t sp False s (pcs t) = Some (Inr (s', p, evs, sev))"
    using live_no_fault [OF reach q0 t ok] by (auto simp: live_run_rest) (metis sumE prod_cases4)
  moreover have "live_reach S (live_allowed live_requests consumers) n q0 (tr @ evs) s' (pcs(t := p))"
    using live_next [OF reach t ok] run by (simp add: live_run_rest)
  moreover have "\<not> live_parked (pcs t)"
    using on by (simp add: live_stops_def)
  ultimately show thesis
    using that live_run_nearer [OF run _ shape] by blast
qed

text \<open>A thread that is left to run stops, unless every compare-and-swap fails spuriously from some step on.\<close>

theorem live_call_ends:
  assumes reach: "live_reach S (live_allowed live_requests consumers) n q0 tr s pcs"
    and q0: "queue_rep B rep q0 A" "\<not> aq_held A" and t: "t < n" and fair: "\<forall>i. \<exists>j \<ge> i. \<not> sps j"
  shows "\<exists>k tr' s' pcs'. live_exec S (alone t sps k) s pcs = Inr (tr', s', pcs') \<and> live_stops t s' (pcs' t) \<and>
    (plain_call (pcs t) \<longrightarrow> plain_call (pcs' t))"
  using reach fair
proof (induction "(live_left s (pcs t), LEAST i. \<not> sps i)" arbitrary: s pcs tr sps
    rule: wf_induct_rule [OF wf_lex_prod [OF wf_sooner wf_less_than]])
  case (1 s pcs sps tr)
  show ?case
  proof (cases "live_stops t s (pcs t)")
    case True
    then show ?thesis
      by (intro exI [of _ 0] exI [of _ "[]"] exI [of _ s] exI [of _ pcs]) simp
  next
    case False
    let ?sps = "\<lambda>i. sps (Suc i)"
    from 1(2) q0 t False obtain s1 p evs sev where run: "live_run S t (sps 0) False s (pcs t) = Some (Inr (s1, p, evs, sev))"
      and reach1: "live_reach S (live_allowed live_requests consumers) n q0 (tr @ evs) s1 (pcs(t := p))"
      and left: "(live_left s1 p, live_left s (pcs t)) \<in> sooner \<or> sps 0 \<and> live_left s1 p = live_left s (pcs t)"
      by (rule live_goes_on)
    obtain j where "\<not> sps j"
      using 1(3) by blast
    then have "(LEAST i. \<not> sps i) = Suc (LEAST i. \<not> ?sps i)" if "sps 0"
      using Least_Suc [of "\<lambda>i. \<not> sps i" j] that by simp
    with left have dec: "((live_left s1 ((pcs(t := p)) t), LEAST i. \<not> ?sps i), (live_left s (pcs t), LEAST i. \<not> sps i))
        \<in> sooner <*lex*> less_than"
      by auto
    have "\<forall>i. \<exists>j \<ge> i. \<not> ?sps j"
      using 1(3) by (metis Suc_le_D Suc_le_mono)
    from 1(1) [OF dec reach1 this] obtain k tr' s' pcs' where
      "live_exec S (alone t ?sps k) s1 (pcs(t := p)) = Inr (tr', s', pcs')" "live_stops t s' (pcs' t)"
      "plain_call p \<longrightarrow> plain_call (pcs' t)"
      by auto
    with live_run_plain [OF run] show ?thesis
      by (intro exI [of _ "Suc k"] exI [of _ "evs @ tr'"] exI [of _ s'] exI [of _ pcs']) (simp add: live_run_rest run)
  qed
qed

end

end
