(* ===== verification/Live_Properties.thy ===== *)
theory Live_Properties
  imports Live_Progress
begin

text \<open>
  What holds of a \<open>SynchronizedQueue\<close> when everything interleaves at single atomic accesses
  (\<open>Synchronized_Concurrent\<close>), over \<open>VecBuffer\<close>. The first part shows that a schedule run by
  \<open>live_exec\<close> is a run of \<open>live_reach\<close>, the second builds the runs of the witnesses: a consumer
  spins, registers and parks, a producer wakes it, it takes the value; and a consumer meets a closed queue.
  The spinning attempts are composed by \<open>live_exec_append\<close> instead of being evaluated one by one.
\<close>

section \<open>Schedules are runs\<close>

lemma live_exec_append:
  "live_exec S (a @ b) s pcs =
   and_then (live_exec S a s pcs) (\<lambda>(tr, s', pcs'). and_then (live_exec S b s' pcs') (\<lambda>(tr', x). Inr (tr @ tr', x)))"
proof (induction a arbitrary: s pcs)
  case Nil
  show ?case
    by (cases "live_exec S b s pcs") auto
next
  case (Cons c a)
  obtain t ch where c: "c = (t, ch)"
    by (cases c)
  show ?case
  proof (cases "live_step S t ch s (pcs t)")
    case (Some r)
    show ?thesis
    proof (cases r)
      case (Inr y)
      obtain s' p evs sev where y: "y = (s', p, evs, sev)"
        by (cases y)
      show ?thesis
        using Some by (simp add: c Inr y Cons.IH and_then_assoc split_def fun_upd_def)
    qed (simp add: c Some)
  qed (simp add: c Cons.IH)
qed

lemma live_exec_reach:
  assumes "live_exec S sched s pcs = Inr (tr', s', pcs')" and "live_reach S allowed n q0 tr s pcs"
    and "\<forall>(t, ch) \<in> set sched. t < n \<and> allowed t ch"
  shows "live_reach S allowed n q0 (tr @ tr') s' pcs'"
  using assms
proof (induction sched arbitrary: s pcs tr tr')
  case (Cons c sched)
  obtain t ch where c: "c = (t, ch)"
    by (cases c)
  have ok: "t < n" "allowed t ch" "\<forall>(t, ch) \<in> set sched. t < n \<and> allowed t ch"
    using Cons.prems(3) c by auto
  show ?case
  proof (cases "live_step S t ch s (pcs t)")
    case None
    then show ?thesis
      using Cons.IH [OF _ Cons.prems(2) ok(3)] Cons.prems(1) by (simp add: c)
  next
    case (Some r)
    then obtain s1 p evs sev tr1 where r: "r = Inr (s1, p, evs, sev)"
      and run: "live_exec S sched s1 (pcs(t := p)) = Inr (tr1, s', pcs')" and tr': "tr' = evs @ tr1"
      using Cons.prems(1) c by (cases r) (auto simp: and_then_eq_Inr)
    have "live_reach S allowed n q0 (tr @ evs) s1 (pcs(t := p))"
      using live_next [OF Cons.prems(2) ok(1,2), of s1 p evs sev] Some r by simp
    from Cons.IH [OF run this ok(3)] tr' show ?thesis
      by simp
  qed
qed simp

section \<open>Runs for the witnesses\<close>

definition live_example :: "(nat cells, unit) queue" where
  "live_example = \<lparr>enqueuing_capacity = 2, dequeuing_length = 1, buffers = ([None], [None]),
     buffers_length = (0, 0), capacity = 1, notify = ()\<rparr>"

lemma live_example_new: "Queue_with_capacity VecBuffer VecBuffer_resize () 1 = Inr live_example"
  by code_simp

abbreviation live_locked :: "(nat cells, unit) queue" where
  "live_locked \<equiv> live_example\<lparr>dequeuing_length := DEQUEUING_LOCKED\<rparr>"

abbreviation live_vec :: "(nat cells, nat list, unit, nat list, nat, nat list resize_request) sys" where
  "live_vec \<equiv> VecSystem unit_notify"

lemma empty_attempt_steps:
  "step_go live_vec False live_example (Deq_Lock None) = Some (Inr (live_locked, Deq_Open 1 None, Tau))"
  "step_go live_vec False live_locked (Deq_Open 1 None) = Some (Inr (live_locked, Deq_Add 1 None 1 False 0, Tau))"
  "step_go live_vec False live_locked (Deq_Add 1 None 1 False 0) = Some (Inr (live_locked, Deq_Load 1 None 1 False 0, Tau))"
  "step_go live_vec False live_locked (Deq_Load 1 None 1 False 0) = Some (Inr (live_locked, Deq_Check 1 None 1 False 0 2, Tau))"
  "step_go live_vec False live_locked (Deq_Check 1 None 1 False 0 2) = Some (Inr (live_locked, Deq_Store 1 Empty, Tau))"
  "step_go live_vec False live_locked (Deq_Store 1 Empty) = Some (Inr (live_example, Idle, Ev_Dequeue_Err Empty))"
  by code_simp+

text \<open>One attempt on the empty queue, run by thread \<open>0\<close> alone.\<close>

lemma empty_attempt:
  assumes q: "sync_queue s = live_example" and pc: "pcs 0 = Calls f (Req_Dequeue None)"
    and ret: "dequeue_returned f Empty = Inr (p, sev)"
  shows "\<exists>tr. live_exec live_vec (replicate 7 (0, Live_Run False b)) s pcs = Inr (tr, s, pcs(0 := p)) \<and>
    produced (\<lambda>xs. xs) vec_inserted tr = [] \<and> consumed (\<lambda>x. x) (\<lambda>xs. xs) tr = []"
proof -
  have sq: "s\<lparr>sync_queue := live_example\<rparr> = s"
    using q by (cases s) simp
  show ?thesis
    using q pc ret sq
    by (simp add: eval_nat_numeral live_step_def queue_moves_def live_resume_def notifies_dequeue_def notifies_enqueue_def
        empty_attempt_steps produced_def consumed_def del: step_go.simps)
qed

lemma empty_spins:
  assumes "sync_queue s = live_example" and "pcs 0 = next_dequeue k m"
  shows "\<exists>tr. live_exec live_vec (replicate (7 * k) (0, Live_Run False b)) s pcs = Inr (tr, s, pcs(0 := next_dequeue 0 m)) \<and>
    produced (\<lambda>xs. xs) vec_inserted tr = [] \<and> consumed (\<lambda>x. x) (\<lambda>xs. xs) tr = []"
  using assms(2)
proof (induction k arbitrary: pcs)
  case 0
  then show ?case
    by (auto simp: fun_upd_idem)
next
  case (Suc k)
  let ?r = "(0, Live_Run False b) :: nat \<times> (nat list, nat list resize_request) live_choice"
  have "pcs 0 = Calls (Deq_Spins k m) (Req_Dequeue None)"
    using Suc.prems by (simp add: next_dequeue_def)
  with empty_attempt [of s pcs "Deq_Spins k m" "next_dequeue k m" Sync_Tau b] assms(1) obtain tr1 where
    one: "live_exec live_vec (replicate 7 ?r) s pcs = Inr (tr1, s, pcs(0 := next_dequeue k m))"
      "produced (\<lambda>xs. xs) vec_inserted tr1 = []" "consumed (\<lambda>x. x) (\<lambda>xs. xs) tr1 = []"
    by (auto simp: dequeue_returned_def)
  have "\<exists>tr. live_exec live_vec (replicate (7 * k) ?r) s (pcs(0 := next_dequeue k m)) =
        Inr (tr, s, (pcs(0 := next_dequeue k m))(0 := next_dequeue 0 m)) \<and>
      produced (\<lambda>xs. xs) vec_inserted tr = [] \<and> consumed (\<lambda>x. x) (\<lambda>xs. xs) tr = []"
    by (rule Suc.IH) simp
  then obtain tr2 where
    rest: "live_exec live_vec (replicate (7 * k) ?r) s (pcs(0 := next_dequeue k m)) =
        Inr (tr2, s, pcs(0 := next_dequeue 0 m))"
      "produced (\<lambda>xs. xs) vec_inserted tr2 = []" "consumed (\<lambda>x. x) (\<lambda>xs. xs) tr2 = []"
    unfolding fun_upd_upd by blast
  have "replicate (7 * Suc k) ?r = replicate 7 ?r @ replicate (7 * k) ?r"
    by (simp only: replicate_add [symmetric] mult_Suc_right)
  with one rest show ?case
    by (auto simp: live_exec_append produced_def consumed_def)
qed

text \<open>The consumer spins, registers, tries again and parks.\<close>

definition live_park :: "(nat \<times> (nat list, nat list resize_request) live_choice) list" where
  "live_park = (0, Live_Call (Wait_Dequeue (Sync_Call False))) #
     replicate (7 * SPIN_LIMIT) (0, Live_Run False False) @ replicate 3 (0, Live_Run False False) @
     replicate 7 (0, Live_Run False False) @ [(0, Live_Run False False)]"

definition live_asleep :: "(nat cells, unit) queue sync_shared" where
  "live_asleep = \<lparr>enqueuers = WakerList_default, dequeuer = \<lparr>aw_state = 0, aw_waker = Some (Sync 0)\<rparr>,
     sync_queue = live_example, sync_signals = {}\<rparr>"

lemma live_park_run:
  "\<exists>tr. live_exec live_vec live_park (sync_initial live_example) (\<lambda>_. Resting) =
     Inr (tr, live_asleep, (\<lambda>_. Resting)(0 := Parked_Deq (Sync_Call False))) \<and>
   produced (\<lambda>xs. xs) vec_inserted tr = [] \<and> consumed (\<lambda>x. x) (\<lambda>xs. xs) tr = []"
proof -
  let ?m = "Sync_Call False" and ?r = "(0, Live_Run False False) :: nat \<times> (nat list, nat list resize_request) live_choice"
  let ?rest = "(\<lambda>_. Resting) :: nat \<Rightarrow> (nat list, nat list, nat list resize_request) live_pc"
  let ?s = "sync_initial live_example :: (nat cells, unit) queue sync_shared"
  let ?no = "\<lambda>tr :: (nat list, nat list, nat, nat list resize_request) event list.
    produced (\<lambda>xs. xs) vec_inserted tr = [] \<and> consumed (\<lambda>x. x) (\<lambda>xs. xs) tr = []"
  obtain tr1 where spins: "live_exec live_vec (replicate (7 * SPIN_LIMIT) ?r) ?s (?rest(0 := next_dequeue SPIN_LIMIT ?m)) =
      Inr (tr1, ?s, ?rest(0 := next_dequeue 0 ?m))" "?no tr1"
    using empty_spins [of ?s "?rest(0 := next_dequeue SPIN_LIMIT ?m)" SPIN_LIMIT ?m False] by (auto simp: sync_initial_def)
  have reg: "live_exec live_vec (replicate 3 ?r) ?s (?rest(0 := next_dequeue 0 ?m)) =
      Inr ([], live_asleep, ?rest(0 := Calls (Deq_Rechecks ?m) (Req_Dequeue None)))"
    by (simp add: eval_nat_numeral live_step_def next_dequeue_def sync_initial_def AtomicWaker_new_def aw_constants
        mode_cx_def Waker_new_def live_asleep_def stays_def)
  obtain tr2 where again: "live_exec live_vec (replicate 7 ?r) live_asleep (?rest(0 := Calls (Deq_Rechecks ?m) (Req_Dequeue None))) =
      Inr (tr2, live_asleep, ?rest(0 := Until_Deq ?m))" "?no tr2"
    using empty_attempt [of live_asleep "?rest(0 := Calls (Deq_Rechecks ?m) (Req_Dequeue None))" "Deq_Rechecks ?m"
        "Until_Deq ?m" Sync_Tau False]
    by (auto simp: dequeue_returned_def after_retry_def live_asleep_def)
  have park: "live_exec live_vec [?r] live_asleep (?rest(0 := Until_Deq ?m)) =
      Inr ([], live_asleep, ?rest(0 := Parked_Deq ?m))"
    by (simp add: live_step_def wait_until_def stays_def)
  have call: "live_exec live_vec [(0, Live_Call (Wait_Dequeue ?m))] ?s ?rest = Inr ([], ?s, ?rest(0 := next_dequeue SPIN_LIMIT ?m))"
    by (simp add: live_step_def stays_def)
  have eq: "live_park = [(0, Live_Call (Wait_Dequeue ?m))] @ replicate (7 * SPIN_LIMIT) ?r @ replicate 3 ?r @ replicate 7 ?r @ [?r]"
    by (simp add: live_park_def)
  have "live_exec live_vec live_park ?s ?rest = Inr (tr1 @ tr2, live_asleep, ?rest(0 := Parked_Deq ?m))"
    by (simp only: eq live_exec_append call spins(1) reg again(1) park and_then_Inr case_prod_conv append_Nil append_Nil2)
  moreover have "?no (tr1 @ tr2)"
    using spins(2) again(2) by (simp add: produced_def consumed_def)
  ultimately show ?thesis by blast
qed

text \<open>
  A producer enqueues the value 7 and wakes the consumer, which swaps the buffers, gets the slice and drops it.
\<close>

definition live_wake :: "(nat \<times> (nat list, nat list resize_request) live_choice) list" where
  "live_wake = (1, Live_Call (Request (Req_Enqueue [7]))) # replicate 11 (1, Live_Run False False)"

definition live_take :: "(nat \<times> (nat list, nat list resize_request) live_choice) list" where
  "live_take = replicate 14 (0, Live_Run False False) @ [(0, Live_Handle Op_Drop)] @ replicate 3 (0, Live_Run False False)"

lemma live_wake_run:
  "map_sum (\<lambda>e. e) (\<lambda>(tr, s, pcs). (sync_signals s, pcs 0, pcs 1))
     (live_exec live_vec live_wake live_asleep ((\<lambda>_. Resting)(0 := Parked_Deq (Sync_Call False)))) =
   Inr ({Sync 0}, Parked_Deq (Sync_Call False), Resting)"
  by code_simp

lemma live_take_run:
  "map_sum (\<lambda>e. e) (\<lambda>(tr, s, pcs). (pcs 0, produced (\<lambda>xs. xs) vec_inserted tr, consumed (\<lambda>x. x) (\<lambda>xs. xs) tr))
     (live_exec live_vec (live_wake @ live_take) live_asleep ((\<lambda>_. Resting)(0 := Parked_Deq (Sync_Call False)))) =
   Inr (Resting, [7], [7])"
  by code_simp

abbreviation vec_allowed ::
    "(nat \<Rightarrow> bool) \<Rightarrow> nat \<Rightarrow> ('a list, 'a list resize_request) live_choice \<Rightarrow> bool" where
  "vec_allowed \<equiv> live_allowed (\<lambda>req. vec_choice_ok (Start req))"

lemma vec_new:
  fixes q0 :: "('a cells, unit) queue"
  assumes "Queue_with_capacity VecBuffer VecBuffer_resize () c = Inr q0"
  shows "queue_rep VecBuffer cells_rep q0 (spec_new (unat c))" and "\<not> aq_held (spec_new (unat c) :: 'a aqueue)"
    and "aq_front (spec_new (unat c) :: 'a aqueue) = []" and "aq_back (spec_new (unat c) :: 'a aqueue) = []"
proof -
  have "unat c < 4611686018427387903"
    using assms EC_check_overflow_iff [of c] by (auto simp: Queue_with_capacity_def and_then_eq_Inr)
  then obtain q :: "('a cells, unit) queue" where "Queue_with_capacity VecBuffer VecBuffer_resize () c = Inr q"
    "queue_rep VecBuffer cells_rep q (spec_new (unat c))"
    using vec_buf.with_capacity_refines [of c "()"] by auto
  with assms show "queue_rep VecBuffer cells_rep q0 (spec_new (unat c))"
    by simp
qed (simp_all add: spec_new_def)

text \<open>These schedules are allowed when thread \<open>0\<close> is a consumer.\<close>

definition live_schedule_ok :: "(nat \<Rightarrow> bool) \<Rightarrow> (nat \<times> (nat list, nat list resize_request) live_choice) list \<Rightarrow> bool" where
  "live_schedule_ok consumers sched \<longleftrightarrow> list_all (\<lambda>(t, ch). t < 2 \<and> vec_allowed consumers t ch) sched"

lemma live_choices:
  assumes "consumers 0"
  shows "live_schedule_ok consumers live_park"
    and "live_schedule_ok consumers (live_park @ live_wake @ live_take)"
  using assms
  by (simp_all add: live_schedule_ok_def live_park_def live_wake_def live_take_def live_allowed_def request_ok_def
      vec_choice_ok_def choice_ok_def list_all_iff)

lemma live_run_reach:
  assumes "live_exec live_vec sched (sync_initial live_example) (\<lambda>_. Resting) = Inr (tr, s, pcs)"
    and "live_schedule_ok consumers sched"
  shows "live_reach live_vec (vec_allowed consumers) 2 live_example tr s pcs"
  using live_exec_reach [OF assms(1) live_init [of live_vec "vec_allowed consumers" 2 live_example]] assms(2)
  by (auto simp: live_schedule_ok_def list_all_iff)

text \<open>What thread \<open>0\<close> shows when the runs above are put together.\<close>

lemma live_full_run:
  "\<exists>tr s pcs. live_exec live_vec (live_park @ live_wake @ live_take) (sync_initial live_example) (\<lambda>_. Resting) = Inr (tr, s, pcs) \<and>
     produced (\<lambda>xs. xs) vec_inserted tr = [7] \<and> consumed (\<lambda>x. x) (\<lambda>xs. xs) tr = [7] \<and> pcs 0 = Resting"
proof -
  obtain tr1 where park: "live_exec live_vec live_park (sync_initial live_example) (\<lambda>_. Resting) =
      Inr (tr1, live_asleep, (\<lambda>_. Resting)(0 := Parked_Deq (Sync_Call False)))"
    and no: "produced (\<lambda>xs. xs) vec_inserted tr1 = []" "consumed (\<lambda>x. x) (\<lambda>xs. xs) tr1 = []"
    using live_park_run by blast
  obtain tr2 s pcs where take: "live_exec live_vec (live_wake @ live_take) live_asleep
      ((\<lambda>_. Resting)(0 := Parked_Deq (Sync_Call False))) = Inr (tr2, s, pcs)"
    and shown: "produced (\<lambda>xs. xs) vec_inserted tr2 = [7]" "consumed (\<lambda>x. x) (\<lambda>xs. xs) tr2 = [7]" "pcs 0 = Resting"
    using live_take_run
    by (cases "live_exec live_vec (live_wake @ live_take) live_asleep ((\<lambda>_. Resting)(0 := Parked_Deq (Sync_Call False)))") auto
  have "live_exec live_vec (live_park @ live_wake @ live_take) (sync_initial live_example) (\<lambda>_. Resting) = Inr (tr1 @ tr2, s, pcs)"
    by (simp only: live_exec_append [of _ live_park] park take and_then_Inr case_prod_conv)
  with no shown show ?thesis
    by (auto simp: produced_def consumed_def)
qed

section \<open>Every run over \<open>VecBuffer\<close>\<close>

text \<open>
  C11: No wake-up is lost, however the accesses of any number of threads to the queue, to the
  \<open>AtomicWaker\<close> and to the \<open>WakerList\<close> interleave, and whichever pending futures are dropped. When no
  thread of a \<open>SynchronizedQueue\<close> over \<open>VecBuffer\<close> can go on by itself, each is idle or holds a slice or
  an iterator, or it waits to enqueue a value into an open queue whose buffer has no room for it at that
  moment but would have when empty, or it waits to dequeue; and a sole consumer waits only while the queue is open and all
  that was enqueued has been consumed. The producers' part holds whatever the number of consumers.
\<close>

theorem live_vec_no_lost_wakeup:
  fixes q0 :: "('a cells, unit) queue"
  assumes "Queue_with_capacity VecBuffer VecBuffer_resize () c = Inr q0"
    and "live_reach (VecSystem unit_notify) (vec_allowed consumers) n q0 tr s pcs"
    and "live_stuck (VecSystem unit_notify) s pcs"
  shows "at_rest (pcs t) \<or>
    \<not> Queue_is_closed (sync_queue s) \<and> (\<exists>v m. pcs t = Parked_Enq v m \<and>
      length v \<le> unat (Queue_capacity (sync_queue s)) \<and>
      unat (Queue_capacity (sync_queue s)) < unat (Queue_len (sync_queue s)) + length v) \<or>
    (\<exists>m. pcs t = Parked_Deq m) \<and> (consumers = (\<lambda>u. u = t) \<longrightarrow>
      \<not> Queue_is_closed (sync_queue s) \<and>
      produced (\<lambda>xs. xs) vec_inserted tr = consumed (\<lambda>x. x) (\<lambda>xs. xs) tr)"
proof -
  note reach = assms(2) [unfolded vec_choice_ok_def] and new = vec_new [OF assms(1)]
  have "live_shape (\<lambda>req. vec_choice_ok (Start req)) (consumers t) (pcs t)"
    using live_refines [OF reach vec_conc.plain_request] by (simp add: vec_choice_ok_def)
  from live_stuck_pc [OF live_reach_wakers [OF assms(2)] this assms(3)] show ?thesis
  proof (elim disjE exE conjE)
    fix v m
    assume pc: "pcs t = Parked_Enq v m"
    show ?thesis
      using vec_conc.live_enqueuer_full [OF reach assms(3) pc] pc by blast
  next
    fix m
    assume pc: "pcs t = Parked_Deq m"
    have "\<not> Queue_is_closed (sync_queue s) \<and> produced (\<lambda>xs. xs) vec_inserted tr = consumed (\<lambda>x. x) (\<lambda>xs. xs) tr"
      if one: "consumers = (\<lambda>u. u = t)"
      using vec_conc.live_dequeuer_done [OF reach [unfolded one] new(1,2) assms(3) pc] new(3,4)
      by (simp add: Queue_is_closed_def)
    with pc show ?thesis by blast
  qed simp
qed

theorem live_vec_no_lost_wakeup_witness:
  "\<exists>tr s pcs. live_exec live_vec live_park (sync_initial live_example) (\<lambda>_. Resting) = Inr (tr, s, pcs) \<and>
     live_stuck live_vec s pcs \<and> pcs 0 = Parked_Deq (Sync_Call False) \<and> \<not> Queue_is_closed (sync_queue s)"
proof -
  let ?pcs = "(\<lambda>_. Resting)(0 := Parked_Deq (Sync_Call False))"
  obtain tr where run: "live_exec live_vec live_park (sync_initial live_example) (\<lambda>_. Resting) = Inr (tr, live_asleep, ?pcs)"
    using live_park_run by blast
  have stuck: "live_stuck live_vec live_asleep ?pcs"
    by (auto simp: live_stuck_def live_asleep_def notifies_dequeue_def notifies_enqueue_def queue_moves_def)
  from live_vec_no_lost_wakeup [OF live_example_new live_run_reach [OF run live_choices(1)] stuck, of "\<lambda>u. u = 0" 0] run stuck
  show ?thesis
    by (auto simp: at_rest_def)
qed

text \<open>
  C12: Values are shorter than \<open>2^63\<close>, and a resize asks for a legal capacity with room for all that it inserts, or
  inserts nothing (\<open>vec_choice_ok\<close>). Then, whatever blocking, timed, asynchronous and plain calls any number of threads make on a \<open>SynchronizedQueue\<close>
  over \<open>VecBuffer\<close> of any capacity, whatever futures are dropped and however the single accesses interleave, no step
  faults: no assertion of \<open>AtomicWaker\<close> or of the queue fails, no cell is read uninitialised, no arithmetic overflows and \<open>dequeue_err\<close> does not reach its \<open>unreachable!\<close>. Several
  threads may dequeue at once.
\<close>

theorem live_vec_no_fault:
  fixes q0 :: "('a cells, unit) queue"
  assumes "Queue_with_capacity VecBuffer VecBuffer_resize () c = Inr q0"
    and "live_reach (VecSystem unit_notify) (vec_allowed consumers) n q0 tr s pcs"
    and "t < n" and "vec_allowed consumers t ch"
  shows "live_step (VecSystem unit_notify) t ch s (pcs t) \<noteq> Some (Inl e)"
  using vec_conc.live_no_fault [OF _ vec_new(1,2) [OF assms(1)] assms(3)] assms(2,4) by (simp add: vec_choice_ok_def)

theorem live_vec_no_fault_witness:
  "\<exists>tr s pcs. live_exec live_vec live_park (sync_initial live_example) (\<lambda>_. Resting) = Inr (tr, s, pcs) \<and>
     (\<forall>e. live_step live_vec 1 (Live_Call (Wait_Dequeue Async_Task)) s (pcs 1) \<noteq> Some (Inl e)) \<and>
     live_step live_vec 0 (Live_Run False True) s (pcs 0) \<noteq> Some (Inl Unreachable)"
proof -
  obtain tr s pcs where run: "live_exec live_vec live_park (sync_initial live_example) (\<lambda>_. Resting) = Inr (tr, s, pcs)"
    using live_park_run by blast
  have "live_reach live_vec (vec_allowed (\<lambda>t. True)) 2 live_example tr s pcs"
    by (rule live_run_reach [OF run]) (simp add: live_choices)
  note ok = live_vec_no_fault [OF live_example_new this]
  from ok [of 1 "Live_Call (Wait_Dequeue Async_Task)"] ok [of 0 "Live_Run False True" Unreachable] run show ?thesis
    by (auto simp: live_allowed_def)
qed

text \<open>
  C13: Waiting adds nothing to the queue: every run of calls that spin, register, wait, are woken, time
  out or are dropped is, for the queue, a run of plain operations interleaved as in
  \<open>Queue_Concurrent\<close>, with the same events and the same shared memory. In particular the values consumed
  are a prefix of those reserved, in the same order.
\<close>

theorem live_vec_refines:
  fixes q0 :: "('a cells, unit) queue"
  assumes "Queue_with_capacity VecBuffer VecBuffer_resize () c = Inr q0"
    and "live_reach (VecSystem unit_notify) (vec_allowed consumers) n q0 tr s pcs"
  shows "vec_steps unit_notify (quiescent q0 n) tr (queue_state n s pcs) \<and>
    (\<exists>rest. produced (\<lambda>xs. xs) vec_inserted tr = consumed (\<lambda>x. x) (\<lambda>xs. xs) tr @ rest)"
proof -
  note reach = assms(2) [unfolded vec_choice_ok_def]
  have steps: "vec_steps unit_notify (quiescent q0 n) tr (queue_state n s pcs)"
    using live_refines [OF reach vec_conc.plain_request]
    unfolding vec_conc.start_ok_requests vec_choice_ok_def by blast
  then show ?thesis
    using vec_reach [OF vec_new(1,2) [OF assms(1)] steps] vec_new(3,4) [OF assms(1)] by auto
qed

theorem live_vec_refines_witness:
  "\<exists>tr s pcs. live_exec live_vec (live_park @ live_wake @ live_take) (sync_initial live_example) (\<lambda>_. Resting) = Inr (tr, s, pcs) \<and>
     produced (\<lambda>xs. xs) vec_inserted tr = [7] \<and> consumed (\<lambda>x. x) (\<lambda>xs. xs) tr = [7] \<and>
     vec_steps unit_notify (quiescent live_example 2) tr (queue_state 2 s pcs)"
proof -
  obtain tr s pcs where run: "live_exec live_vec (live_park @ live_wake @ live_take) (sync_initial live_example) (\<lambda>_. Resting) =
      Inr (tr, s, pcs)" "produced (\<lambda>xs. xs) vec_inserted tr = [7]" "consumed (\<lambda>x. x) (\<lambda>xs. xs) tr = [7]"
    using live_full_run by blast
  have "live_reach live_vec (vec_allowed (\<lambda>t. t = 0)) 2 live_example tr s pcs"
    by (rule live_run_reach [OF run(1)]) (simp add: live_choices)
  from live_vec_refines [OF live_example_new this] run show ?thesis
    by blast
qed

text \<open>
  C26: However calls overlap on a \<open>SynchronizedQueue\<close> over \<open>VecBuffer\<close>, an attempt of a thread returns \<open>Conflict\<close> only
  while another thread of the model is past the dequeuing lock: dequeuing, or holding a slice or an iterator. (A program
  thread that calls while it holds a slice itself counts as two.) \<open>dequeue\<close> and \<open>dequeue_async\<close> fail with \<open>Closed\<close>, or
  with \<open>Conflict\<close> in that case. So a consumer that is alone, and gives its slice back before it calls again, only
  fails with \<open>Closed\<close>.
\<close>

theorem live_vec_only_closed:
  fixes q0 :: "('a cells, unit) queue"
  assumes "Queue_with_capacity VecBuffer VecBuffer_resize () c = Inr q0"
    and "live_reach (VecSystem unit_notify) (vec_allowed consumers) n q0 tr s pcs"
    and "live_step (VecSystem unit_notify) t ch s (pcs t) = Some (Inr (s', p, evs, sev))"
  shows "(sev = Try_Dequeue_Fails Conflict \<longrightarrow> (\<exists>u < n. u \<noteq> t \<and> consumers u \<and> is_dequeuing (inner (pcs u)))) \<and>
    (sev = Dequeue_Fails e \<longrightarrow>
      e = Dequeue_Closed \<or> (\<exists>u < n. u \<noteq> t \<and> consumers u \<and> is_dequeuing (inner (pcs u))))"
proof -
  have "\<exists>u < n. u \<noteq> t \<and> consumers u \<and> is_dequeuing (inner (pcs u))" if "conflicts sev"
    by (rule vec_conc.live_conflict_other [OF assms(2) [unfolded vec_choice_ok_def] vec_new(1,2) [OF assms(1)] assms(3) that])
  then show ?thesis
    by (cases e) (auto simp: conflicts_def)
qed

text \<open>Thread \<open>1\<close> closes the queue, then thread \<open>0\<close> calls \<open>dequeue\<close>.\<close>

definition live_closing :: "(nat \<times> (nat list, nat list resize_request) live_choice) list" where
  "live_closing = (1, Live_Call (Request Req_Close)) # replicate 12 (1, Live_Run False False) @
     (0, Live_Call (Wait_Dequeue (Sync_Call False))) # replicate 6 (0, Live_Run False False)"

lemma live_closing_run:
  "map_sum (\<lambda>e. e) (\<lambda>(tr, s, pcs). (enqueuing_capacity (sync_queue s), pcs 0, pcs 1))
     (live_exec live_vec live_closing (sync_initial live_example) (\<lambda>_. Resting)) =
   Inr (EC_close 2, Queue_Call (Deq_Spins 63 (Sync_Call False)) (Deq_Store 1 Closed), Resting)"
  by code_simp

lemma live_closing_reach:
  "\<exists>tr s pcs. live_exec live_vec live_closing (sync_initial live_example) (\<lambda>_. Resting) = Inr (tr, s, pcs) \<and>
     pcs 0 = Queue_Call (Deq_Spins 63 (Sync_Call False)) (Deq_Store 1 Closed) \<and>
     live_reach live_vec (vec_allowed (\<lambda>u. u = 0)) 2 live_example tr s pcs"
proof -
  obtain tr s pcs where run: "live_exec live_vec live_closing (sync_initial live_example) (\<lambda>_. Resting) = Inr (tr, s, pcs)"
    and pc: "pcs 0 = Queue_Call (Deq_Spins 63 (Sync_Call False)) (Deq_Store 1 Closed)"
    using live_closing_run
    by (cases "live_exec live_vec live_closing (sync_initial live_example) (\<lambda>_. Resting)") auto
  have "live_reach live_vec (vec_allowed (\<lambda>u. u = 0)) 2 live_example tr s pcs"
    by (rule live_run_reach [OF run])
      (simp add: live_schedule_ok_def live_closing_def live_allowed_def request_ok_def vec_choice_ok_def choice_ok_def list_all_iff)
  with run pc show ?thesis by blast
qed

theorem live_vec_only_closed_witness:
  "\<exists>tr s pcs s' p evs. live_exec live_vec live_closing (sync_initial live_example) (\<lambda>_. Resting) = Inr (tr, s, pcs) \<and>
     live_step live_vec 0 (Live_Run False False) s (pcs 0) = Some (Inr (s', p, evs, Dequeue_Fails Dequeue_Closed)) \<and>
     Dequeue_Fails Dequeue_Closed \<noteq> (Dequeue_Fails Dequeue_Conflict :: (nat list, nat list) sync_event)"
proof -
  obtain tr s pcs where run: "live_exec live_vec live_closing (sync_initial live_example) (\<lambda>_. Resting) = Inr (tr, s, pcs)"
    and pc: "pcs 0 = Queue_Call (Deq_Spins 63 (Sync_Call False)) (Deq_Store 1 Closed)"
    and reach: "live_reach live_vec (vec_allowed (\<lambda>u. u = 0)) 2 live_example tr s pcs"
    using live_closing_reach by blast
  obtain s' p evs sev where step: "live_step live_vec 0 (Live_Run False False) s (pcs 0) = Some (Inr (s', p, evs, sev))"
    and sev: "sev = Dequeue_Fails Dequeue_Closed"
    unfolding pc by (simp add: live_step_def queue_moves_def live_resume_def dequeue_returned_def dequeue_failure_def
        notifies_dequeue_def notifies_enqueue_def)
  from live_vec_only_closed [OF live_example_new reach step, of Dequeue_Conflict] run step sev show ?thesis
    by auto
qed

section \<open>Calls end\<close>

text \<open>
  C28: Every call on a \<open>SynchronizedQueue\<close> over \<open>VecBuffer\<close>, left to run from any state that the calls of any
  number of threads can reach, comes in finitely many of its own steps to a point where it stops: it has returned, or it
  waits for a wake-up, or it is at the mutex of the waker list while another thread holds it. \<open>sps\<close> says at which steps a
  \<open>compare_exchange_weak\<close> fails spuriously; all that is asked is that it does not do so for ever. An operation of the
  queue that does not wait, and the last attempt of a call whose deadline has passed, do not come to a wait.
\<close>

theorem live_vec_call_ends:
  fixes q0 :: "('a cells, unit) queue"
  assumes "Queue_with_capacity VecBuffer VecBuffer_resize () c = Inr q0"
    and "live_reach (VecSystem unit_notify) (vec_allowed consumers) n q0 tr s pcs" and "t < n"
    and "\<forall>i. \<exists>j \<ge> i. \<not> sps j"
  shows "\<exists>k tr' s' pcs'. live_exec (VecSystem unit_notify) (alone t sps k) s pcs = Inr (tr', s', pcs') \<and>
    (at_rest (pcs' t) \<or> live_parked (pcs' t) \<or>
     awaits_mutex (pcs' t) \<and> (\<exists>u. u \<noteq> t \<and> wl_lock (enqueuers s') = Some u)) \<and>
    (plain_call (pcs t) \<longrightarrow> \<not> live_parked (pcs' t))"
proof -
  have wait: "\<not> live_parked p" if "plain_call p" for p :: "('a list, 'a list, 'a list resize_request) live_pc"
    using that by (cases p) (simp_all add: live_parked_def)
  obtain k tr' s' pcs' where "live_exec (VecSystem unit_notify) (alone t sps k) s pcs = Inr (tr', s', pcs')"
    "live_stops t s' (pcs' t)" "plain_call (pcs t) \<longrightarrow> plain_call (pcs' t)"
    using vec_conc.live_call_ends [OF assms(2) [unfolded vec_choice_ok_def] vec_new(1,2) [OF assms(1)] assms(3,4)] by blast
  with wait show ?thesis
    unfolding live_stops_def by blast
qed

theorem live_vec_call_ends_witness:
  "\<exists>tr s pcs k tr' s' pcs'. live_exec live_vec live_closing (sync_initial live_example) (\<lambda>_. Resting) = Inr (tr, s, pcs) \<and>
     \<not> at_rest (pcs 0) \<and> live_exec live_vec (alone 0 (\<lambda>i. i < 3) k) s pcs = Inr (tr', s', pcs') \<and>
     (at_rest (pcs' 0) \<or> live_parked (pcs' 0) \<or>
      awaits_mutex (pcs' 0) \<and> (\<exists>u. u \<noteq> 0 \<and> wl_lock (enqueuers s') = Some u))"
proof -
  obtain tr s pcs where run: "live_exec live_vec live_closing (sync_initial live_example) (\<lambda>_. Resting) = Inr (tr, s, pcs)"
    and pc: "pcs 0 = Queue_Call (Deq_Spins 63 (Sync_Call False)) (Deq_Store 1 Closed)"
    and reach: "live_reach live_vec (vec_allowed (\<lambda>u. u = 0)) 2 live_example tr s pcs"
    using live_closing_reach by blast
  have "\<not> at_rest (pcs 0)"
    by (simp add: pc at_rest_def)
  moreover have "\<forall>i :: nat. \<exists>j \<ge> i. \<not> j < 3"
    by (meson le_cases not_less)
  ultimately show ?thesis
    using live_vec_call_ends [OF live_example_new reach, of 0 "\<lambda>i. i < 3"] run by (meson zero_less_numeral)
qed

end
