(* ===== verification/Waker_Notification.thy ===== *)
theory Waker_Notification
  imports Waker_Delivery
begin

text \<open>
  \<open>basic_notification\<close>, the test of \<open>AtomicWaker\<close> (\<open>src/src/synchronized/atomic_waker.rs\<close>), for every number of
  notifying threads and every interleaving of the single actions of \<open>register\<close> and \<open>wake\<close>. The test has two
  notifiers and passes when \<open>block_on\<close> returns in each of the interleavings that \<open>loom\<close> explores.
\<close>

section \<open>The channel of the test\<close>

text \<open>
  Thread \<open>0\<close> runs \<open>block_on\<close>: it polls, which registers and compares the counter with \<open>NUM_NOTIFY\<close>, and
  when that is pending it waits for its task to be woken. The other threads add one and wake.
\<close>

record chan =
  chan_num :: usize
  chan_task :: atomic_waker
  chan_signals :: "waker set"

datatype chan_pc =
    Poll_Register register_pc
  | Poll_Load
  | Poll_Pending
  | Poll_Ready
  | Notifier_Add
  | Notifier_Wake wake_pc
  | Notifier_End

definition chan_initial :: chan where
  "chan_initial = \<lparr>chan_num = 0, chan_task = AtomicWaker_new, chan_signals = {}\<rparr>"

definition chan_threads :: "nat \<Rightarrow> nat \<Rightarrow> chan_pc" where
  "chan_threads num_notify t =
     (if t = 0 then Poll_Register Reg_Begin else if t \<le> num_notify then Notifier_Add else Notifier_End)"

text \<open>The boolean says whether the executor polls a pending task that nobody has woken.\<close>

primrec chan_step :: "nat \<Rightarrow> nat \<Rightarrow> bool \<Rightarrow> chan \<Rightarrow> chan_pc \<Rightarrow> (chan \<times> chan_pc) exec option" where
  "chan_step num_notify t b s (Poll_Register p) =
     Some (and_then (AtomicWaker_register t (Some 0) p (chan_task s) (chan_signals s)) (\<lambda>(p', w, sg).
       Inr (s\<lparr>chan_task := w, chan_signals := sg\<rparr>, if p' = Reg_Done then Poll_Load else Poll_Register p')))"
| "chan_step num_notify t b s Poll_Load =
     Some (Inr (s, if of_nat num_notify = chan_num s then Poll_Ready else Poll_Pending))"
| "chan_step num_notify t b s Poll_Pending =
     (if b \<or> Async 0 \<in> chan_signals s
      then Some (Inr (s\<lparr>chan_signals := chan_signals s - {Async 0}\<rparr>, Poll_Register Reg_Begin))
      else None)"
| "chan_step num_notify t b s Poll_Ready = None"
| "chan_step num_notify t b s Notifier_Add = Some (Inr (s\<lparr>chan_num := chan_num s + 1\<rparr>, Notifier_Wake Wake_Begin))"
| "chan_step num_notify t b s (Notifier_Wake p) =
     Some (and_then (AtomicWaker_wake p (chan_task s) (chan_signals s)) (\<lambda>(p', w, sg).
       Inr (s\<lparr>chan_task := w, chan_signals := sg\<rparr>, if p' = Wake_Done then Notifier_End else Notifier_Wake p')))"
| "chan_step num_notify t b s Notifier_End = None"

inductive chan_reach :: "nat \<Rightarrow> chan \<Rightarrow> (nat \<Rightarrow> chan_pc) \<Rightarrow> bool" for num_notify where
  chan_start: "chan_reach num_notify chan_initial (chan_threads num_notify)"
| chan_next: "chan_reach num_notify s pcs \<Longrightarrow> chan_step num_notify t b s (pcs t) = Some (Inr (s', p)) \<Longrightarrow>
    chan_reach num_notify s' (pcs(t := p))"

definition chan_stuck :: "nat \<Rightarrow> chan \<Rightarrow> (nat \<Rightarrow> chan_pc) \<Rightarrow> bool" where
  "chan_stuck num_notify s pcs \<longleftrightarrow> (\<forall>t. chan_step num_notify t False s (pcs t) = None)"

section \<open>The invariant\<close>

primrec chan_aw :: "chan_pc \<Rightarrow> aw_act" where
  "chan_aw (Poll_Register p) = Aw_Reg (Some 0) p"
| "chan_aw Poll_Load = Aw_Idle"
| "chan_aw Poll_Pending = Aw_Idle"
| "chan_aw Poll_Ready = Aw_Idle"
| "chan_aw Notifier_Add = Aw_Idle"
| "chan_aw (Notifier_Wake p) = Aw_Wake p"
| "chan_aw Notifier_End = Aw_Idle"

abbreviation chan_acts :: "(nat \<Rightarrow> chan_pc) \<Rightarrow> nat \<Rightarrow> aw_act" where
  "chan_acts pcs \<equiv> \<lambda>t. chan_aw (pcs t)"

primrec polls :: "chan_pc \<Rightarrow> bool" where
  "polls (Poll_Register p) = True"
| "polls Poll_Load = True"
| "polls Poll_Pending = True"
| "polls Poll_Ready = True"
| "polls Notifier_Add = False"
| "polls (Notifier_Wake p) = False"
| "polls Notifier_End = False"

text \<open>Who has added.\<close>

definition added :: "nat \<Rightarrow> (nat \<Rightarrow> chan_pc) \<Rightarrow> nat set" where
  "added num_notify pcs = {t \<in> {1..num_notify}. pcs t \<noteq> Notifier_Add}"

text \<open>Once registered, the waker of the task is in the slot, on its way, or used.\<close>

definition chan_served :: "chan \<Rightarrow> (nat \<Rightarrow> chan_pc) \<Rightarrow> bool" where
  "chan_served s pcs \<longleftrightarrow>
     aw_ready (chan_task s) (Async 0) \<or> (\<exists>u. aw_carries (Async 0) (chan_acts pcs u)) \<or> Async 0 \<in> chan_signals s"

definition chan_inv :: "nat \<Rightarrow> chan \<Rightarrow> (nat \<Rightarrow> chan_pc) \<Rightarrow> bool" where
  "chan_inv num_notify s pcs \<longleftrightarrow>
     aw_inv (chan_task s) (chan_acts pcs) \<and>
     (\<forall>t. polls (pcs t) \<longleftrightarrow> t = 0) \<and> pcs 0 \<noteq> Poll_Register Reg_Done \<and>
     (\<forall>t. pcs t = Notifier_Add \<longrightarrow> t \<in> {1..num_notify}) \<and>
     chan_num s = of_nat (card (added num_notify pcs)) \<and>
     (pcs 0 = Poll_Load \<or> pcs 0 = Poll_Pending \<longrightarrow> chan_served s pcs) \<and>
     (pcs 0 = Poll_Pending \<longrightarrow> Async 0 \<in> chan_signals s \<or> (\<exists>t. pcs t = Notifier_Add) \<or>
        (\<exists>u. aw_delivers (Async 0) (chan_acts pcs u))) \<and>
     (pcs 0 = Poll_Ready \<longrightarrow> (\<forall>t. pcs t \<noteq> Notifier_Add))"

lemma chan_invD:
  assumes "chan_inv num_notify s pcs"
  shows "aw_inv (chan_task s) (chan_acts pcs)" and "(polls (pcs t) \<longleftrightarrow> t = 0) \<and> pcs 0 \<noteq> Poll_Register Reg_Done"
    and "pcs t = Notifier_Add \<Longrightarrow> 1 \<le> t \<and> t \<le> num_notify"
    and "chan_num s = of_nat (card (added num_notify pcs))"
    and "pcs 0 = Poll_Load \<or> pcs 0 = Poll_Pending \<Longrightarrow> chan_served s pcs"
    and "pcs 0 = Poll_Pending \<Longrightarrow> Async 0 \<in> chan_signals s \<or> (\<exists>t. pcs t = Notifier_Add) \<or>
        (\<exists>u. aw_delivers (Async 0) (chan_acts pcs u))"
    and "pcs 0 = Poll_Ready \<Longrightarrow> pcs t \<noteq> Notifier_Add"
  using assms by (auto simp: chan_inv_def)


lemma added_upd:
  "pcs t \<noteq> Notifier_Add \<Longrightarrow> p \<noteq> Notifier_Add \<Longrightarrow> added k (pcs(t := p)) = added k pcs"
  "pcs t = Notifier_Add \<Longrightarrow> p \<noteq> Notifier_Add \<Longrightarrow> 1 \<le> t \<and> t \<le> k \<Longrightarrow> added k (pcs(t := p)) = insert t (added k pcs)"
  by (auto simp: added_def split: if_splits)

lemma all_added:
  assumes "of_nat k = (of_nat (card (added k pcs)) :: usize)" and "k < 18446744073709551616" and "1 \<le> t \<and> t \<le> k"
  shows "pcs t \<noteq> Notifier_Add"
proof -
  have "added k pcs \<subseteq> {1..k}"
    by (auto simp: added_def)
  moreover from card_mono [OF _ this] have "card (added k pcs) \<le> k"
    by simp
  with assms(1,2) have "card (added k pcs) = card {1..k}"
    by (simp add: usize_eq_iff unat_of_nat_usize)
  ultimately have "added k pcs = {1..k}"
    by (simp add: card_subset_eq)
  with assms(3) have "t \<in> added k pcs"
    by simp
  then show ?thesis
    by (simp add: added_def)
qed

lemma chan_acts_upd: "chan_acts (pcs(t := p)) = (chan_acts pcs)(t := chan_aw p)"
  by auto


lemma chan_register_keeps:
  assumes inv: "chan_inv k s pcs" and pc: "pcs t = Poll_Register p"
    and step: "chan_step k t b s (pcs t) = Some (Inr (s', lp))"
  shows "chan_inv k s' (pcs(t := lp))"
proof -
  note i = chan_invD [OF inv]
  let ?acts = "chan_acts pcs"
  obtain p' w sg where reg: "AtomicWaker_register t (Some 0) p (chan_task s) (chan_signals s) = Inr (p', w, sg)"
    and s': "s' = s\<lparr>chan_task := w, chan_signals := sg\<rparr>"
    and lp: "lp = (if p' = Reg_Done then Poll_Load else Poll_Register p')"
    using step by (auto simp: pc and_then_eq_Inr)
  have awk: "aw_inv w (?acts(t := Aw_Reg (Some 0) p'))"
    using aw_register_step [OF i(1), of t "Some 0" p "chan_signals s"] reg pc by auto
  have t: "t = 0 \<and> p \<noteq> Reg_Done"
    using i(2) [of t] pc by auto
  have aw: "aw_inv w (?acts(t := chan_aw lp))"
  proof (cases "p' = Reg_Done")
    case True
    then show ?thesis
      using aw_entry_move [OF awk, of t Aw_Idle] lp by (simp add: aw_owns_def aw_entry_def)
  qed (use awk lp in simp)
  have "aw_ready w (Async 0) \<or> Async 0 \<in> sg" if "p' = Reg_Done"
  proof -
    have alone: "u = t" if "chan_acts pcs u = Aw_Reg cx q" for u cx q
      using that i(2) [of u] t by (cases "pcs u") auto
    show ?thesis
      using aw_register_ready [OF i(1) _ reg [unfolded that]] pc t alone by (simp add: Waker_new_def)
  qed
  then show ?thesis
    unfolding chan_inv_def chan_acts_upd using aw i(2-4) t lp pc s' added_upd(1) [of pcs t lp k]
    by (auto simp: chan_served_def)
qed


lemma chan_load_keeps:
  assumes inv: "chan_inv k s pcs" and k: "k < 18446744073709551616" and pc: "pcs t = Poll_Load"
    and step: "chan_step k t b s (pcs t) = Some (Inr (s', lp))"
  shows "chan_inv k s' (pcs(t := lp))"
proof -
  note i = chan_invD [OF inv]
  have t: "t = 0"
    using i(2) [of t] pc by simp
  have served: "chan_served s pcs"
    using i(5) pc t by simp
  have all: "pcs u \<noteq> Notifier_Add" if "of_nat k = chan_num s" for u
    using all_added [OF _ k, of pcs u] that i(3) [of u] i(4) by metis
  have some: "\<exists>u. pcs u = Notifier_Add" if "of_nat k \<noteq> chan_num s"
  proof (rule ccontr)
    assume "\<nexists>u. pcs u = Notifier_Add"
    then have "added k pcs = {1..k}"
      by (auto simp: added_def)
    with that i(4) show False by simp
  qed
  have s': "s' = s" and lp: "lp = (if of_nat k = chan_num s then Poll_Ready else Poll_Pending)"
    using step pc by auto
  then have same: "chan_aw ((pcs(t := lp)) u) = chan_aw (pcs u)" "polls lp" "lp \<noteq> Notifier_Add" "lp \<noteq> Poll_Register Reg_Done"
    "lp \<noteq> Poll_Load" for u
    using pc by auto
  have adds: "(pcs(t := lp)) u = Notifier_Add \<longleftrightarrow> pcs u = Notifier_Add" for u
    using same(3) pc by simp
  have "chan_served s (pcs(t := lp))"
    using served unfolding chan_served_def same(1) .
  moreover have "lp = Poll_Pending \<Longrightarrow> \<exists>u. pcs u = Notifier_Add" "lp = Poll_Ready \<Longrightarrow> pcs u \<noteq> Notifier_Add" for u
    using some all lp by (auto split: if_splits)
  ultimately show ?thesis
    using i(1-4) t same(2-) pc added_upd(1) [of pcs t lp k] unfolding chan_inv_def same(1) s' adds by (simp, metis)
qed

lemma chan_pending_keeps:
  assumes inv: "chan_inv k s pcs" and pc: "pcs t = Poll_Pending"
    and step: "chan_step k t b s (pcs t) = Some (Inr (s', lp))"
  shows "chan_inv k s' (pcs(t := lp))"
proof -
  note i = chan_invD [OF inv]
  have t: "t = 0"
    using i(2) [of t] pc by simp
  have s': "s' = s\<lparr>chan_signals := chan_signals s - {Async 0}\<rparr>" and lp: "lp = Poll_Register Reg_Begin"
    using step pc by (auto split: if_splits)
  have "aw_inv (chan_task s) ((chan_acts pcs)(t := Aw_Reg (Some 0) Reg_Begin))"
    using aw_entry_move [OF i(1), of t "Aw_Reg (Some 0) Reg_Begin"] pc by (simp add: aw_owns_def aw_entry_def)
  then show ?thesis
    using i(2-4) t pc s' lp added_upd(1) [of pcs t lp k] unfolding chan_inv_def chan_acts_upd by auto
qed

lemma chan_add_keeps:
  assumes inv: "chan_inv k s pcs" and pc: "pcs t = Notifier_Add"
    and step: "chan_step k t b s (pcs t) = Some (Inr (s', lp))"
  shows "chan_inv k s' (pcs(t := lp))"
proof -
  note i = chan_invD [OF inv]
  have t: "t \<noteq> 0" "1 \<le> t \<and> t \<le> k"
    using i(2) [of t] i(3) [of t] pc by auto
  have s': "s' = s\<lparr>chan_num := chan_num s + 1\<rparr>" and lp: "lp = Notifier_Wake Wake_Begin"
    using step pc by auto
  have "aw_inv (chan_task s) ((chan_acts pcs)(t := Aw_Wake Wake_Begin))"
    using aw_entry_move [OF i(1), of t "Aw_Wake Wake_Begin"] pc by (simp add: aw_owns_def aw_entry_def)
  moreover have "card (added k (pcs(t := lp))) = Suc (card (added k pcs))"
    using added_upd(2) [of pcs t lp k] t pc lp by (simp add: added_def)
  moreover have "chan_served s' (pcs(t := lp))" if "chan_served s pcs"
    using that pc s' lp unfolding chan_served_def chan_acts_upd by (auto simp: fun_upd_def) (metis aw_carries.simps(3) chan_aw.simps(5))
  ultimately show ?thesis
    using i(2-7) t pc s' lp unfolding chan_inv_def chan_acts_upd by auto
qed

lemma chan_quiet:
  assumes "chan_inv k s pcs" and "pcs 0 = Poll_Pending"
  shows "\<forall>u cx q. chan_acts pcs u = Aw_Reg cx q \<longrightarrow> q = Reg_Begin"
proof (intro allI impI)
  fix v cx q
  assume "chan_acts pcs v = Aw_Reg cx q"
  with chan_invD(2) [OF assms(1), of v] assms(2) show "q = Reg_Begin"
    by (cases "pcs v") auto
qed

lemma chan_wake_keeps:
  assumes inv: "chan_inv k s pcs" and pc: "pcs t = Notifier_Wake p"
    and step: "chan_step k t b s (pcs t) = Some (Inr (s', lp))"
  shows "chan_inv k s' (pcs(t := lp))"
proof -
  note i = chan_invD [OF inv]
  let ?x = "Async 0"
  obtain p' w sg where wake: "AtomicWaker_wake p (chan_task s) (chan_signals s) = Inr (p', w, sg)"
    and s': "s' = s\<lparr>chan_task := w, chan_signals := sg\<rparr>"
    and lp: "lp = (if p' = Wake_Done then Notifier_End else Notifier_Wake p')"
    using step by (auto simp: pc and_then_eq_Inr)
  have act: "chan_acts pcs t = Aw_Wake p" and t: "t \<noteq> 0"
    using pc i(2) [of t] by auto
  have awk: "aw_inv w ((chan_acts pcs)(t := Aw_Wake p'))"
    using aw_wake_step [OF i(1) act, of "chan_signals s"] wake by auto
  have aw: "aw_inv w ((chan_acts pcs)(t := chan_aw lp))"
  proof (cases "p' = Wake_Done")
    case True
    then show ?thesis
      using aw_entry_move [OF awk, of t Aw_Idle] lp by (simp add: aw_owns_def aw_entry_def)
  qed (use awk lp in simp)
  have same: "aw_carries ?x (chan_aw lp) = aw_carries ?x (Aw_Wake p')" "aw_delivers ?x (chan_aw lp) = aw_delivers ?x (Aw_Wake p')"
    by (auto simp: lp)
  have sg: "chan_signals s \<subseteq> sg"
    by (rule aw_wake_signals [OF wake])
  have served: "chan_served s' (pcs(t := lp))" if "chan_served s pcs"
    using that aw_wake_keeps [OF i(1) act wake, of ?x] sg same(1) act s'
    unfolding chan_served_def chan_acts_upd by (auto; metis)
  have delivers: "?x \<in> sg \<or> (\<exists>u. aw_delivers ?x (chan_aw ((pcs(t := lp)) u)))"
    if "chan_served s pcs" "aw_delivers ?x (chan_acts pcs u)" "pcs 0 = Poll_Pending" for u
  proof (cases "u = t")
    case True
    note quiet = chan_quiet [OF inv that(3)]
    have "aw_ready (chan_task s) ?x \<or> (\<exists>u. aw_carries ?x (chan_acts pcs u)) \<or> ?x \<in> sg"
      using that(1) sg by (auto simp: chan_served_def)
    then show ?thesis
      using aw_wake_delivers [OF i(1) act wake _ _ quiet, of ?x] that(2) True act same(2) by (auto; metis)
  next
    case False
    then show ?thesis
      using that(2) by auto
  qed
  have pending: "?x \<in> sg \<or> (\<exists>u. (pcs(t := lp)) u = Notifier_Add) \<or> (\<exists>u. aw_delivers ?x (chan_aw ((pcs(t := lp)) u)))"
    if zero: "pcs 0 = Poll_Pending"
    using i(6) [OF zero]
  proof (elim disjE exE)
    fix u
    assume "pcs u = Notifier_Add"
    with pc have "(pcs(t := lp)) u = Notifier_Add"
      by auto
    then show ?thesis by blast
  next
    fix u
    assume "aw_delivers ?x (chan_acts pcs u)"
    with delivers [OF i(5) this zero] zero show ?thesis by blast
  qed (use sg in blast)
  have lp': "(pcs(t := lp)) 0 = pcs 0" "polls ((pcs(t := lp)) u) \<longleftrightarrow> u = 0"
      "(pcs(t := lp)) u = Notifier_Add \<longrightarrow> u \<in> {1..k}" "added k (pcs(t := lp)) = added k pcs"
      "pcs 0 = Poll_Ready \<longrightarrow> (pcs(t := lp)) u \<noteq> Notifier_Add" for u
    using i(2) [of u] i(3) [of u] i(7) [of u] t lp pc by (auto simp: added_upd(1))
  have sh: "chan_num s' = chan_num s" "chan_task s' = w" "chan_signals s' = sg"
    by (simp_all add: s')
  have zero: "pcs 0 \<noteq> Poll_Register Reg_Done"
    using i(2) by blast
  show ?thesis
    unfolding chan_inv_def chan_acts_upd sh lp'(1,2,4) i(4) [symmetric]
    using aw zero lp'(3,5) served [OF i(5)] pending by (intro conjI allI impI) (assumption | blast | simp del: fun_upd_apply)+
qed

theorem chan_reach_inv:
  assumes "chan_reach k s pcs" and k: "k < 18446744073709551616"
  shows "chan_inv k s pcs"
  using assms(1)
proof (induction rule: chan_reach.induct)
  case chan_start
  have "aw_inv AtomicWaker_new (chan_acts (chan_threads k))"
    by (simp add: aw_inv_def AtomicWaker_new_def aw_constants aw_owns_def aw_owner_ok_def chan_threads_def)
  moreover have "added k (chan_threads k) = {}"
    by (auto simp: added_def chan_threads_def)
  ultimately show ?case
    by (simp add: chan_inv_def chan_initial_def) (auto simp: chan_threads_def)
next
  case (chan_next s pcs t b s' p)
  note keeps = chan_register_keeps chan_load_keeps [OF _ k] chan_pending_keeps chan_add_keeps chan_wake_keeps
  show ?case
    by (cases "pcs t") (use keeps [OF chan_next.IH _ chan_next.hyps(2)] chan_next.hyps(2) in \<open>simp_all add: fun_upd_def\<close>)
qed

lemma chan_no_fault:
  assumes "chan_inv k s pcs"
  shows "chan_step k t b s (pcs t) \<noteq> Some (Inl e)"
  using aw_register_step [OF chan_invD(1) [OF assms], of t "Some 0" _ "chan_signals s"]
    aw_wake_step [OF chan_invD(1) [OF assms], of t _ "chan_signals s"]
  by (cases "pcs t") (auto simp: and_then_def split: sum.splits)

lemma chan_stuck_pc:
  assumes "chan_stuck k s pcs"
  shows "pcs t = Poll_Ready \<or> pcs t = Poll_Pending \<and> Async 0 \<notin> chan_signals s \<or> pcs t = Notifier_End"
proof -
  have "chan_step k t False s (pcs t) = None"
    using assms by (simp add: chan_stuck_def)
  then show ?thesis
    by (cases "pcs t") (auto split: if_splits)
qed

section \<open>The test passes\<close>

text \<open>
  C16: However \<open>num_notify\<close> threads that add one to a counter and then call \<open>wake\<close> interleave with a task
  that calls \<open>register\<close> and then compares the counter with \<open>num_notify\<close> each time it is polled, no assertion of
  \<open>AtomicWaker\<close> fails, the task is ready only when all of them have added, and when no thread can go on the task is
  ready: it never stays pending with nobody left to wake it.
\<close>

theorem basic_notification_ready:
  assumes "chan_reach num_notify s pcs" and "num_notify < 18446744073709551616"
  shows "chan_step num_notify t b s (pcs t) \<noteq> Some (Inl e) \<and>
    (chan_stuck num_notify s pcs \<longrightarrow> pcs 0 = Poll_Ready) \<and>
    (pcs 0 = Poll_Ready \<longrightarrow> pcs t \<noteq> Notifier_Add)"
proof -
  note inv = chan_reach_inv [OF assms]
  note i = chan_invD [OF inv]
  have "pcs 0 = Poll_Ready" if stuck: "chan_stuck num_notify s pcs"
  proof (rule ccontr)
    assume "pcs 0 \<noteq> Poll_Ready"
    moreover have "pcs 0 \<noteq> Notifier_End"
      using i(2) [of 0] by auto
    ultimately have zero: "pcs 0 = Poll_Pending" and sg: "Async 0 \<notin> chan_signals s"
      using chan_stuck_pc [OF stuck, of 0] by auto
    have "pcs u \<noteq> Notifier_Add" "\<not> aw_delivers (Async 0) (chan_acts pcs u)" for u
      using chan_stuck_pc [OF stuck, of u] by auto
    with i(6) [OF zero] sg show False by blast
  qed
  with chan_no_fault [OF inv] i(7) show ?thesis by blast
qed

text \<open>The test's two notifiers: the task polls first and is pending, then both notify, and it is woken and ready.\<close>

fun chan_exec :: "nat \<Rightarrow> nat list \<Rightarrow> chan \<Rightarrow> (nat \<Rightarrow> chan_pc) \<Rightarrow> (chan \<times> (nat \<Rightarrow> chan_pc)) option" where
  "chan_exec k [] s pcs = Some (s, pcs)"
| "chan_exec k (t # ts) s pcs =
     (case chan_step k t False s (pcs t) of Some (Inr (s', p)) \<Rightarrow> chan_exec k ts s' (pcs(t := p)) | _ \<Rightarrow> None)"

lemma chan_exec_reach: "chan_exec k ts s pcs = Some (s', pcs') \<Longrightarrow> chan_reach k s pcs \<Longrightarrow> chan_reach k s' pcs'"
  by (induction ts arbitrary: s pcs) (auto split: option.splits sum.splits intro: chan_next)

definition chan_schedule :: "nat list" where
  "chan_schedule = replicate 4 0 @ replicate 5 1 @ replicate 4 2 @ replicate 5 0"

lemma chan_schedule_run:
  "map_option (\<lambda>(s, pcs). (chan_num s, pcs 0, pcs 1, pcs 2)) (chan_exec 2 chan_schedule chan_initial (chan_threads 2)) =
   Some (2, Poll_Ready, Notifier_End, Notifier_End)"
  by code_simp


lemma chan_exec_other: "chan_exec k ts s pcs = Some (s', pcs') \<Longrightarrow> t \<notin> set ts \<Longrightarrow> pcs' t = pcs t"
  by (induction ts arbitrary: s pcs) (auto split: option.splits sum.splits)

lemma chan_schedule_stuck:
  "\<exists>s pcs. chan_exec 2 chan_schedule chan_initial (chan_threads 2) = Some (s, pcs) \<and> chan_stuck 2 s pcs"
proof -
  obtain s pcs where run: "chan_exec 2 chan_schedule chan_initial (chan_threads 2) = Some (s, pcs)"
    and pc: "pcs 0 = Poll_Ready" "pcs 1 = Notifier_End" "pcs 2 = Notifier_End"
    using chan_schedule_run by auto
  have "pcs t = Notifier_End" if "2 < t" for t
    using chan_exec_other [OF run, of t] that by (simp add: chan_schedule_def chan_threads_def)
  then have "chan_step 2 t False s (pcs t) = None" for t
    using pc by (cases "t = 0 \<or> t = 1 \<or> t = 2") auto
  with run show ?thesis
    by (auto simp: chan_stuck_def)
qed

theorem basic_notification_ready_witness:
  "\<exists>s pcs. chan_exec 2 chan_schedule chan_initial (chan_threads 2) = Some (s, pcs) \<and> chan_stuck 2 s pcs \<and>
     pcs 0 = Poll_Ready \<and> pcs 1 \<noteq> Notifier_Add"
proof -
  obtain s pcs where run: "chan_exec 2 chan_schedule chan_initial (chan_threads 2) = Some (s, pcs)"
    and stuck: "chan_stuck 2 s pcs"
    using chan_schedule_stuck by blast
  from basic_notification_ready [OF chan_exec_reach [OF run chan_start], of 1] run stuck show ?thesis
    by auto
qed

end
