(* ===== verification/Clocks.thy ===== *)
theory Clocks
  imports Prelude
begin

text \<open>
  Happens-before for the atomics that the crate uses. A \<open>clock\<close> logs the accesses to memory that is not atomic,
  in the order in which they happen, and keeps for each thread which of them happen before whatever it does next
  (\<open>seen\<close>) and for each atomic location which of them a thread acquires by reading it (\<open>synced\<close>). Program
  order puts a thread's own accesses into \<open>seen\<close>. A load with \<open>Acquire\<close> takes over \<open>synced\<close>; a store with
  \<open>Release\<close> publishes \<open>seen\<close>, and one with \<open>Relaxed\<close> begins a new value that nothing was published with; a
  read-modify-write continues the release sequence of the value it replaces, so it never takes anything out of
  \<open>synced\<close>, whatever its ordering. An access is \<open>unordered\<close> when a conflicting one was made before that does
  not happen before it: a data race, for which Rust and C++ give no meaning to the program.

  An atomic load here returns the latest value of its location. What is examined is which of these runs are
  free of data races, with the orderings that the source asks for.
\<close>

section \<open>Orderings and clocks\<close>

text \<open>The orderings of \<open>std::sync::atomic::Ordering\<close> that the queue and its wakers use.\<close>

datatype ordering = Relaxed | Acquire | Release | AcqRel

definition acquires :: "ordering \<Rightarrow> bool" where
  "acquires ord = (case ord of Acquire \<Rightarrow> True | AcqRel \<Rightarrow> True | _ \<Rightarrow> False)"

definition releases :: "ordering \<Rightarrow> bool" where
  "releases ord = (case ord of Release \<Rightarrow> True | AcqRel \<Rightarrow> True | _ \<Rightarrow> False)"

text \<open>The atomic operation of a step; a failed compare-and-swap is a load.\<close>

datatype 'l atomic_op = No_Op | Load 'l ordering | Store 'l ordering | Rmw 'l ordering

record ('l, 'a) clock =
  seen :: "nat \<Rightarrow> nat set"
  synced :: "'l \<Rightarrow> nat set"
  logged :: "'a list"

definition clock_initial :: "('l, 'a) clock" where
  "clock_initial = \<lparr>seen = (\<lambda>_. {}), synced = (\<lambda>_. {}), logged = []\<rparr>"

definition reads_sync :: "nat \<Rightarrow> 'l \<Rightarrow> ordering \<Rightarrow> ('l, 'a) clock \<Rightarrow> ('l, 'a) clock" where
  "reads_sync t x ord c =
     (if acquires ord then c\<lparr>seen := (seen c)(t := seen c t \<union> synced c x)\<rparr> else c)"

primrec clock_atomic :: "nat \<Rightarrow> 'l atomic_op \<Rightarrow> ('l, 'a) clock \<Rightarrow> ('l, 'a) clock" where
  "clock_atomic t No_Op c = c"
| "clock_atomic t (Load x ord) c = reads_sync t x ord c"
| "clock_atomic t (Store x ord) c =
     c\<lparr>synced := (synced c)(x := if releases ord then seen c t else {})\<rparr>"
| "clock_atomic t (Rmw x ord) c =
     (let c' = reads_sync t x ord c in
      if releases ord then c'\<lparr>synced := (synced c')(x := synced c' x \<union> seen c' t)\<rparr> else c')"

definition clock_access :: "nat \<Rightarrow> 'a \<Rightarrow> ('l, 'a) clock \<Rightarrow> ('l, 'a) clock" where
  "clock_access t a c = c\<lparr>seen := (seen c)(t := insert (length (logged c)) (seen c t)),
     logged := logged c @ [a]\<rparr>"

definition unordered :: "('a \<Rightarrow> 'a \<Rightarrow> bool) \<Rightarrow> nat \<Rightarrow> 'a \<Rightarrow> ('l, 'a) clock \<Rightarrow> bool" where
  "unordered conflict t a c = list_ex (\<lambda>k. conflict (logged c ! k) a \<and> k \<notin> seen c t) [0..<length (logged c)]"

section \<open>What an atomic operation does\<close>

lemma unordered_iff:
  "unordered conflict t a c \<longleftrightarrow> (\<exists>k < length (logged c). conflict (logged c ! k) a \<and> k \<notin> seen c t)"
  by (auto simp: unordered_def list_ex_iff)

lemma clock_initial_simps [simp]:
  "seen clock_initial t = {}" "synced clock_initial x = {}" "logged clock_initial = []"
  by (simp_all add: clock_initial_def)

lemma acquires_simps [simp]: "acquires Acquire" "acquires AcqRel" "\<not> acquires Relaxed" "\<not> acquires Release"
  by (simp_all add: acquires_def)

lemma releases_simps [simp]: "releases Release" "releases AcqRel" "\<not> releases Relaxed" "\<not> releases Acquire"
  by (simp_all add: releases_def)

lemma logged_atomic [simp]: "logged (clock_atomic t op c) = logged c"
  by (cases op) (simp_all add: reads_sync_def Let_def)

lemma seen_atomic_other [simp]: "u \<noteq> t \<Longrightarrow> seen (clock_atomic t op c) u = seen c u"
  by (cases op) (simp_all add: reads_sync_def Let_def)

lemma seen_atomic_mono: "seen c u \<subseteq> seen (clock_atomic t op c) u"
  by (cases op) (auto simp: reads_sync_def Let_def)

lemma synced_atomic_mono: "(\<And>ord. op \<noteq> Store x ord) \<Longrightarrow> synced c x \<subseteq> synced (clock_atomic t op c) x"
  by (cases op) (auto simp: reads_sync_def Let_def)

lemma atomic_acquires:
  "op = Load x ord \<or> op = Rmw x ord \<Longrightarrow> acquires ord \<Longrightarrow> synced c x \<subseteq> seen (clock_atomic t op c) t"
  by (auto simp: reads_sync_def Let_def)

lemma atomic_releases:
  "op = Store x ord \<or> op = Rmw x ord \<Longrightarrow> releases ord \<Longrightarrow> seen c t \<subseteq> synced (clock_atomic t op c) x"
  by (auto simp: reads_sync_def Let_def)

end
