(* ===== verification/Memory_Orders.thy ===== *)
theory Memory_Orders
  imports Concurrent_Progress Clocks
begin

text \<open>
  The atomic operation of every step of \<open>Queue_Concurrent\<close>, with the ordering that \<open>src/src/queue.rs\<close> passes to
  it, and the runs of the interleaved queue with their clocks. The orderings of the dequeuing lock are a parameter
  (\<open>lock_orders\<close>), so that what the source does (\<open>source_orders\<close>: the swap that takes it and the stores that give
  it back are all \<open>Relaxed\<close>) can be compared with an acquiring and releasing lock.
\<close>

section \<open>Orderings of the queue\<close>

text \<open>The atomic words of \<open>Queue\<close>; there is one length for each buffer.\<close>

datatype word_name = Enqueuing_Word | Dequeuing_Word | Capacity_Word | Length_Word usize

text \<open>The orderings of the swap that locks the dequeuing word, and of the stores that unlock it.\<close>

record lock_orders =
  lock_order :: ordering
  unlock_order :: ordering

definition source_orders :: lock_orders where
  "source_orders = \<lparr>lock_order = Relaxed, unlock_order = Relaxed\<rparr>"

definition acq_rel_orders :: lock_orders where
  "acq_rel_orders = \<lparr>lock_order = Acquire, unlock_order = Release\<rparr>"

text \<open>
  The compare-and-swap of \<open>try_enqueue\<close>: \<open>AcqRel\<close> when it succeeds and a \<open>Relaxed\<close> load when it fails; before
  it, a closed or full queue returns.
\<close>

definition enqueue_atomic ::
    "('b, 's, 'n, 'v, 'c, 'r) sys \<Rightarrow> bool \<Rightarrow> ('b, 'n) queue \<Rightarrow> 'v \<Rightarrow> usize \<Rightarrow> word_name atomic_op" where
  "enqueue_atomic S sp q v enqueuing =
     (if EC_is_closed enqueuing then No_Op
      else case EC_try_reserve enqueuing (ins_size (sys_insert S) v) of
        None \<Rightarrow> No_Op
      | Some next_enq \<Rightarrow>
          (case cas_weak sp (enqueuing_capacity q) enqueuing next_enq of
             Inr _ \<Rightarrow> Rmw Enqueuing_Word AcqRel | Inl _ \<Rightarrow> Load Enqueuing_Word Relaxed))"

text \<open>
  The steps of running operations, in the order of \<open>step_go\<close>. \<open>Deq_Capacity\<close> is a \<open>Relaxed\<close> load that a
  \<open>Relaxed\<close> store of the same word may follow; neither orders anything, and the store is the one shown.
\<close>

primrec go_atomic ::
    "lock_orders \<Rightarrow> ('b, 's, 'n, 'v, 'c, 'r) sys \<Rightarrow> bool \<Rightarrow> ('b, 'n) queue \<Rightarrow> ('v, 's, 'r) pc \<Rightarrow>
     word_name atomic_op" where
  "go_atomic ords S sp q Idle = No_Op"
| "go_atomic ords S sp q (Enq_Load v) = Load Enqueuing_Word Acquire"
| "go_atomic ords S sp q (Enq_Cas v enq) = enqueue_atomic S sp q v enq"
| "go_atomic ords S sp q (Enq_Insert v enq) = No_Op"
| "go_atomic ords S sp q (Enq_Ack v enq) = Rmw (Length_Word (EC_buffer_index enq)) AcqRel"
| "go_atomic ords S sp q Enq_Notify = No_Op"
| "go_atomic ords S sp q (Deq_Lock r) = Rmw Dequeuing_Word (lock_order ords)"
| "go_atomic ords S sp q (Deq_Open deq r) = No_Op"
| "go_atomic ords S sp q (Deq_Add deq r nc rs ins) =
     (if ins > 0 then Rmw (Length_Word (DL_buffer_index deq)) Relaxed else No_Op)"
| "go_atomic ords S sp q (Deq_Load deq r nc rs ins) = Load Enqueuing_Word Acquire"
| "go_atomic ords S sp q (Deq_Check deq r nc rs ins enq) = No_Op"
| "go_atomic ords S sp q (Deq_Swap r nc rs ins capa enq ne) =
     (case cas_weak sp (enqueuing_capacity q) enq (EC_with_closed ne enq) of
        Inr _ \<Rightarrow> Rmw Enqueuing_Word AcqRel | Inl _ \<Rightarrow> Load Enqueuing_Word Relaxed)"
| "go_atomic ords S sp q (Deq_Capacity nc rs ins capa enq) =
     (if Queue_capacity q \<noteq> nc then Store Capacity_Word Relaxed else Load Capacity_Word Relaxed)"
| "go_atomic ords S sp q (Deq_Notify rs ins capa enq) = No_Op"
| "go_atomic ords S sp q (Deq_Spin k i len) =
     (case k of 0 \<Rightarrow> Store Dequeuing_Word (unlock_order ords) | Suc _ \<Rightarrow> Load (Length_Word i) Acquire)"
| "go_atomic ords S sp q (Deq_Slice i len n) = No_Op"
| "go_atomic ords S sp q (Deq_Store w e) = Store Dequeuing_Word (unlock_order ords)"
| "go_atomic ords S sp q (Holding s) = No_Op"
| "go_atomic ords S sp q (Iterating it) = No_Op"
| "go_atomic ords S sp q (Rel_Clear i r) = No_Op"
| "go_atomic ords S sp q (Rel_Len i) = Store (Length_Word i) Release"
| "go_atomic ords S sp q (Rel_Unlock i) = Store Dequeuing_Word (unlock_order ords)"
| "go_atomic ords S sp q Close_Flag = Rmw Enqueuing_Word AcqRel"
| "go_atomic ords S sp q Close_Dequeue = No_Op"
| "go_atomic ords S sp q Close_Enqueue = No_Op"
| "go_atomic ords S sp q Reopen_Flag = Rmw Enqueuing_Word AcqRel"

text \<open>Handles: \<open>requeue\<close> stores only when something is left, and \<open>remove\<close> asserts that the queue is locked.\<close>

definition requeue_atomic :: "lock_orders \<Rightarrow> range \<Rightarrow> word_name atomic_op" where
  "requeue_atomic ords r = (if snd r - fst r > 0 then Store Dequeuing_Word (unlock_order ords) else No_Op)"

definition handle_atomic :: "lock_orders \<Rightarrow> handle_op \<Rightarrow> ('v, 's, 'r) pc \<Rightarrow> word_name atomic_op" where
  "handle_atomic ords op p =
     (case p of
        Holding s \<Rightarrow> if op = Op_Requeue then requeue_atomic ords (slice_range s) else No_Op
      | Iterating it \<Rightarrow>
          if op = Op_Drop then requeue_atomic ords (iter_range it)
          else if op = Op_Next \<and> fst (iter_range it) < snd (iter_range it) then Load Dequeuing_Word Relaxed
          else No_Op
      | _ \<Rightarrow> No_Op)"

definition thread_atomic ::
    "lock_orders \<Rightarrow> ('b, 's, 'n, 'v, 'c, 'r) sys \<Rightarrow> ('b, 'n) queue \<Rightarrow> ('v, 's, 'r) pc \<Rightarrow> ('v, 'r) choice \<Rightarrow>
     word_name atomic_op" where
  "thread_atomic ords S q p ch =
     (case ch of Start _ \<Rightarrow> No_Op | Go sp \<Rightarrow> go_atomic ords S sp q p | Handle op \<Rightarrow> handle_atomic ords op p)"

section \<open>Runs with clocks\<close>

type_synonym queue_clock = "(word_name, access) clock"

text \<open>
  The accesses are those of \<open>next_access\<close>; the owner of a slice or an iterator may use its buffer up to each
  thing it does with the handle, so each of them logs an exclusive access. Threads start with what happened before
  they were spawned.
\<close>

definition races :: "nat \<Rightarrow> access \<Rightarrow> queue_clock \<Rightarrow> bool" where
  "races t a c = unordered conflicting t a c"

lemma races_iff: "races t a c \<longleftrightarrow> (\<exists>k < length (logged c). conflicting (logged c ! k) a \<and> k \<notin> seen c t)"
  by (simp add: races_def unordered_iff)

definition clock_step ::
    "lock_orders \<Rightarrow> ('b, 's, 'n, 'v, 'c, 'r) sys \<Rightarrow> nat \<Rightarrow> ('v, 'r) choice \<Rightarrow> ('b, 'n) queue \<Rightarrow>
     ('v, 's, 'r) pc \<Rightarrow> queue_clock \<Rightarrow> queue_clock" where
  "clock_step ords S t ch q p c =
     (let a = next_access (sys_buffer S) (sys_insert S) q p in
      clock_atomic t (thread_atomic ords S q p ch) (case a of No_Access \<Rightarrow> c | _ \<Rightarrow> clock_access t a c))"

inductive timed_steps ::
    "lock_orders \<Rightarrow> ('b, 's, 'n, 'v, 'c, 'r) sys \<Rightarrow> (nat \<Rightarrow> ('v, 'r) choice \<Rightarrow> bool) \<Rightarrow>
     ('b, 'n, 'v, 's, 'r) state \<Rightarrow> ('b, 'n, 'v, 's, 'r) state \<Rightarrow> queue_clock \<Rightarrow> bool"
  for ords S allowed s0 where
  timed_init: "timed_steps ords S allowed s0 s0 clock_initial"
| timed_next: "timed_steps ords S allowed s0 s c \<Longrightarrow> t < length (threads s) \<Longrightarrow> allowed t ch \<Longrightarrow>
    thread_step S (shared s) (threads s ! t) ch = Some (Inr (q, p, ev)) \<Longrightarrow>
    timed_steps ords S allowed s0 \<lparr>shared = q, threads = (threads s)[t := p]\<rparr>
      (clock_step ords S t ch (shared s) (threads s ! t) c)"

text \<open>One run, given as the list of the threads' choices.\<close>

fun timed_schedule ::
    "lock_orders \<Rightarrow> ('b, 's, 'n, 'v, 'c, 'r) sys \<Rightarrow> (nat \<times> ('v, 'r) choice) list \<Rightarrow>
     ('b, 'n, 'v, 's, 'r) state \<Rightarrow> queue_clock \<Rightarrow> (('b, 'n, 'v, 's, 'r) state \<times> queue_clock) option" where
  "timed_schedule ords S [] s c = Some (s, c)"
| "timed_schedule ords S ((t, ch) # sched) s c =
     (if length (threads s) \<le> t then None
      else case thread_step S (shared s) (threads s ! t) ch of
        Some (Inr (q, p, ev)) \<Rightarrow>
          timed_schedule ords S sched \<lparr>shared = q, threads = (threads s)[t := p]\<rparr>
            (clock_step ords S t ch (shared s) (threads s ! t) c)
      | _ \<Rightarrow> None)"

lemma timed_schedule_steps:
  assumes "timed_schedule ords S sched s C = Some (s', C')" and "timed_steps ords S allowed s0 s C"
    and "\<forall>(t, ch) \<in> set sched. allowed t ch"
  shows "timed_steps ords S allowed s0 s' C'"
  using assms
proof (induction ords S sched s C rule: timed_schedule.induct)
  case (2 ords S t ch sched s C)
  from "2.prems"(1) obtain q p ev where t: "t < length (threads s)"
    and step: "thread_step S (shared s) (threads s ! t) ch = Some (Inr (q, p, ev))"
    and rest: "timed_schedule ords S sched \<lparr>shared = q, threads = (threads s)[t := p]\<rparr>
        (clock_step ords S t ch (shared s) (threads s ! t) C) = Some (s', C')"
    by (auto split: if_splits option.splits sum.splits)
  have "timed_steps ords S allowed s0 \<lparr>shared = q, threads = (threads s)[t := p]\<rparr>
      (clock_step ords S t ch (shared s) (threads s ! t) C)"
    using timed_next [OF "2.prems"(2) t _ step] "2.prems"(3) by simp
  with "2.IH" [OF _ step refl refl refl rest] t "2.prems"(3) show ?case by simp
qed simp

end
