(* ===== verification/Memory_Steps.thy ===== *)
theory Memory_Steps
  imports Memory_Orders
begin

text \<open>
  What a step of the interleaved queue does to its program counter, its words and its buffers, together with the
  atomic operation that it is: which steps take and give back the dequeuing lock, reserve cells, swap the
  buffers, acknowledge an insertion, end a spin.
\<close>

section \<open>Which step does which atomic operation\<close>

text \<open>The threads that have found all insertions of the dequeuing buffer acknowledged, and hold it.\<close>

definition slicing :: "('v, 's, 'r) pc \<Rightarrow> bool" where
  "slicing p = (case p of Deq_Slice _ _ _ \<Rightarrow> True | Holding _ \<Rightarrow> True | Iterating _ \<Rightarrow> True | _ \<Rightarrow> False)"

lemma thread_stepE:
  assumes "thread_step S q p ch = Some (Inr (q', p', ev))"
  obtains (start) req where "ch = Start req" "p = Idle" "step_start S q req = Some (Inr (q', p', ev))"
  | (run) sp where "ch = Go sp" "step_go S sp q p = Some (Inr (q', p', ev))"
  | (slice) op s where "ch = Handle op" "p = Holding s" "handle_slice S q op s = Some (Inr (q', p', ev))"
  | (iter) op it where "ch = Handle op" "p = Iterating it" "handle_iter S q op it = Some (Inr (q', p', ev))"
  using assms by (cases ch; cases p) (auto simp: thread_step_def step_handle_def split: if_splits)

lemmas pc_defs = is_dequeuing_def slicing_def

text \<open>Calls and handles.\<close>

lemma start_moves:
  assumes "step_start S q req = Some (Inr (q', p', ev))"
  shows "\<not> is_dequeuing p'" and "p' = Deq_Lock r \<Longrightarrow> req = Req_Dequeue r" and "p' \<noteq> Enq_Insert v w"
    and "\<not> slicing p'" and "q' = q" and "ev \<noteq> Ev_Reserved v" and "ev \<noteq> Ev_Swapped r"
    and "ev \<noteq> Ev_Released s" and "ev \<noteq> Ev_Removed x"
  using assms by (cases req; auto simp: pc_defs split: if_splits)+

lemma requeue_moves:
  assumes "handle_requeue q i r = Inr (q', p', ev)"
  shows "ev = Tau \<and> (q' = q \<and> p' = Rel_Clear i r \<or>
    q' = q\<lparr>dequeuing_length := DL_new i (snd r - fst r)\<rparr> \<and> p' = Idle \<and>
    requeue_atomic ords r = Store Dequeuing_Word (unlock_order ords))"
  using assms
  by (auto simp: handle_requeue_def requeue_atomic_def sub_usize_def and_then_eq_Inr guard_def split: if_splits)

lemma slice_moves:
  assumes "handle_slice S q op s = Some (Inr (q', p', ev))"
  shows "op = Op_Requeue \<and> handle_requeue q (slice_buffer_index s) (slice_range s) = Inr (q', p', ev) \<or>
    q' = q \<and> is_dequeuing p' \<and> (ev = Tau \<or> ev = Ev_Released (slice_slice s))"
  using assms by (cases op) (auto simp: handle_slice_def is_dequeuing_def split: if_splits)

lemma iter_moves:
  assumes "handle_iter S q op it = Some (Inr (q', p', ev))"
  shows "op = Op_Drop \<and> handle_requeue q (iter_buffer_index it) (iter_range it) = Inr (q', p', ev) \<or>
    (q' = q \<or> (\<exists>b. q' = q\<lparr>buffers := two_set (buffers q) (iter_buffer_index it) b\<rparr>)) \<and> is_dequeuing p' \<and>
    (ev = Tau \<or> (\<exists>x. ev = Ev_Removed x) \<or> (\<exists>s. ev = Ev_Sliced s))"
  using assms
  by (cases op) (auto simp: handle_iter_def is_dequeuing_def and_then_eq_Inr BufferIter_next_def Queue_remove_def Let_def
      split: if_splits option.splits)

text \<open>Steps of a running operation.\<close>

lemma go_moves:
  assumes "step_go S sp q p = Some (Inr (q', p', ev))"
  shows go_enters: "is_dequeuing p' \<Longrightarrow> \<not> is_dequeuing p \<Longrightarrow>
      go_atomic ords S sp q p = Rmw Dequeuing_Word (lock_order ords) \<and> (\<exists>r. p = Deq_Lock r)"
    and go_leaves: "is_dequeuing p \<Longrightarrow> \<not> is_dequeuing p' \<Longrightarrow>
      go_atomic ords S sp q p = Store Dequeuing_Word (unlock_order ords)"
    and go_locking: "p' \<noteq> Deq_Lock r"
    and go_slices: "slicing p' \<Longrightarrow> \<not> slicing p \<Longrightarrow>
      \<exists>i len n. go_atomic ords S sp q p = Load (Length_Word i) Acquire \<and> p' = Deq_Slice i len n"
    and go_consumes: "ev \<noteq> Ev_Released s" "ev \<noteq> Ev_Removed x"
  using assms by (cases p; auto simp: pc_defs go_defs split: go_splits)+

lemma go_reserves:
  assumes "step_go S sp q p = Some (Inr (q', p', ev))"
  shows "ev = Ev_Reserved v \<longleftrightarrow> (\<exists>w. p' = Enq_Insert v w)"
    and "p' = Enq_Insert v w \<Longrightarrow> p = Enq_Cas v w \<and> w = enqueuing_capacity q \<and> \<not> EC_is_closed w \<and>
      go_atomic ords S sp q p = Rmw Enqueuing_Word AcqRel \<and>
     (\<exists>w'. EC_try_reserve w (ins_size (sys_insert S) v) = Some w' \<and> q' = q\<lparr>enqueuing_capacity := w'\<rparr>)"
  using assms by (cases p; auto simp: pc_defs go_defs enqueue_atomic_def cas_weak_def split: go_splits)+

lemma go_swaps:
  assumes "step_go S sp q p = Some (Inr (q', p', ev))" and "ev = Ev_Swapped r"
  shows "\<exists>nc rs ins capa enq ne. p = Deq_Swap r nc rs ins capa enq ne \<and> enqueuing_capacity q = enq \<and>
      q' = q\<lparr>enqueuing_capacity := EC_with_closed ne enq\<rparr> \<and>
      p' = Deq_Capacity nc rs ins capa enq \<and>
      go_atomic ords S sp q p = Rmw Enqueuing_Word AcqRel"
  using assms by (cases p; auto simp: pc_defs go_defs enqueue_atomic_def cas_weak_def split: go_splits)+

lemma go_index:
  assumes "step_go S sp q p = Some (Inr (q', p', ev))" and "\<forall>r. ev \<noteq> Ev_Swapped r" "\<forall>v. ev \<noteq> Ev_Reserved v"
  shows "enq_index q' = enq_index q"
  using assms by (cases p; auto simp: enq_index_def go_defs cas_weak_def Queue_lock_dequeuing_def split: go_splits)

text \<open>Steps of any kind.\<close>

lemma handle_pcs: "is_dequeuing (Holding s)" "is_dequeuing (Iterating it)" "slicing (Holding s)" "slicing (Iterating it)"
  by (simp_all add: pc_defs)

lemma step_enters:
  assumes "thread_step S q p ch = Some (Inr (q', p', ev))" and "is_dequeuing p'" and "\<not> is_dequeuing p"
  shows "(\<exists>r. p = Deq_Lock r) \<and> thread_atomic ords S q p ch = Rmw Dequeuing_Word (lock_order ords)"
  using assms(1)
  by (rule thread_stepE)
    (use assms(2,3) in \<open>auto simp: thread_atomic_def handle_pcs dest: start_moves(1) go_enters\<close>)

lemma step_leaves:
  assumes "thread_step S q p ch = Some (Inr (q', p', ev))" and "is_dequeuing p" and "\<not> is_dequeuing p'"
  shows "thread_atomic ords S q p ch = Store Dequeuing_Word (unlock_order ords)"
  using assms(1)
proof (rule thread_stepE)
  fix op s assume "ch = Handle op" "p = Holding s" "handle_slice S q op s = Some (Inr (q', p', ev))"
  with assms(3) show ?thesis
    by (auto simp: thread_atomic_def handle_atomic_def is_dequeuing_def
        dest!: slice_moves requeue_moves [where ords = ords])
next
  fix op it assume "ch = Handle op" "p = Iterating it" "handle_iter S q op it = Some (Inr (q', p', ev))"
  with assms(3) show ?thesis
    by (auto simp: thread_atomic_def handle_atomic_def is_dequeuing_def
        dest!: iter_moves requeue_moves [where ords = ords])
qed (use assms(2,3) in \<open>auto simp: thread_atomic_def pc_defs intro: go_leaves\<close>)

lemma step_locking:
  assumes "thread_step S q p ch = Some (Inr (q', Deq_Lock r, ev))"
  shows "ch = Start (Req_Dequeue r)"
  using assms
  by (rule thread_stepE)
    (auto dest: start_moves(2) go_locking dest!: slice_moves iter_moves requeue_moves simp: pc_defs)

lemma step_slices:
  assumes "thread_step S q p ch = Some (Inr (q', p', ev))" and "slicing p'" and "\<not> slicing p"
  shows "\<exists>i len n. thread_atomic ords S q p ch = Load (Length_Word i) Acquire \<and> p' = Deq_Slice i len n"
  using assms(1)
  by (rule thread_stepE)
    (use assms(2,3) in \<open>auto simp: thread_atomic_def handle_pcs dest: start_moves(4) go_slices\<close>)

lemma step_consumes:
  assumes "thread_step S q p ch = Some (Inr (q', p', ev))" and "ev = Ev_Released s \<or> ev = Ev_Removed x"
  shows "slicing p"
  using assms(1)
  by (rule thread_stepE) (use assms(2) in \<open>auto simp: handle_pcs dest: start_moves(8,9) go_consumes\<close>)

lemma step_stores:
  assumes "thread_atomic ords S q p ch = Store x ord"
  shows "is_dequeuing p" and "x \<noteq> Enqueuing_Word" and "x = Length_Word i \<Longrightarrow> p = Rel_Len i"
proof -
  have "is_dequeuing p \<and> x \<noteq> Enqueuing_Word \<and> (x = Length_Word i \<longrightarrow> p = Rel_Len i)"
    using assms
    by (cases ch; cases p; auto simp: thread_atomic_def enqueue_atomic_def handle_atomic_def requeue_atomic_def pc_defs
      split: go_splits)
  then show "is_dequeuing p" and "x \<noteq> Enqueuing_Word" and "x = Length_Word i \<Longrightarrow> p = Rel_Len i"
    by simp_all
qed

lemma step_reserves:
  assumes "thread_step S q p ch = Some (Inr (q', p', ev))" and "p' = Enq_Insert v w"
  shows "p = Enq_Cas v w \<and> ev = Ev_Reserved v \<and> w = enqueuing_capacity q \<and> \<not> EC_is_closed w \<and>
    thread_atomic ords S q p ch = Rmw Enqueuing_Word AcqRel \<and>
    (\<exists>w'. EC_try_reserve w (ins_size (sys_insert S) v) = Some w' \<and> q' = q\<lparr>enqueuing_capacity := w'\<rparr>)"
  using assms(1)
proof (rule thread_stepE)
  fix sp assume "ch = Go sp" "step_go S sp q p = Some (Inr (q', p', ev))"
  with go_reserves(2) [OF this(2) assms(2), of ords] go_reserves(1) [OF this(2), of v] assms(2) show ?thesis
    by (auto simp: thread_atomic_def)
qed (use assms(2) in \<open>auto simp: is_dequeuing_def dest: start_moves(3) dest!: slice_moves iter_moves requeue_moves\<close>)

lemma step_reserved:
  assumes "thread_step S q p ch = Some (Inr (q', p', ev))" and "ev = Ev_Reserved v"
  shows "\<exists>w. p' = Enq_Insert v w"
  using assms(1)
  by (rule thread_stepE)
    (use assms(2) in \<open>auto dest: start_moves(6) go_reserves(1) [THEN iffD1] dest!: slice_moves iter_moves requeue_moves\<close>)

lemma step_swaps:
  assumes "thread_step S q p ch = Some (Inr (q', p', ev))" and "ev = Ev_Swapped r"
  shows "\<exists>nc rs ins capa enq ne. p = Deq_Swap r nc rs ins capa enq ne \<and> enqueuing_capacity q = enq \<and>
      q' = q\<lparr>enqueuing_capacity := EC_with_closed ne enq\<rparr> \<and> p' = Deq_Capacity nc rs ins capa enq \<and>
      thread_atomic ords S q p ch = Rmw Enqueuing_Word AcqRel"
  using assms(1)
proof (rule thread_stepE)
  fix sp assume "ch = Go sp" "step_go S sp q p = Some (Inr (q', p', ev))"
  with go_swaps [OF this(2) assms(2), of ords] show ?thesis
    by (auto simp: thread_atomic_def)
qed (use assms(2) in \<open>auto dest: start_moves(7) dest!: slice_moves iter_moves requeue_moves\<close>)

lemma step_index:
  assumes "thread_step S q p ch = Some (Inr (q', p', ev))" and "\<forall>r. ev \<noteq> Ev_Swapped r" "\<forall>v. ev \<noteq> Ev_Reserved v"
  shows "enq_index q' = enq_index q"
  using assms(1)
  by (rule thread_stepE) (use assms(2,3) in \<open>auto dest: start_moves(5) go_index dest!: slice_moves iter_moves requeue_moves\<close>)

lemma step_inserts:
  assumes "thread_step S q p ch = Some (Inr (q', p', ev))"
  shows "p = Enq_Insert v w \<Longrightarrow> p' = Enq_Ack v w"
    and "p = Enq_Ack v w \<Longrightarrow> thread_atomic ords S q p ch = Rmw (Length_Word (EC_buffer_index w)) AcqRel"
  using assms by (rule thread_stepE; auto simp: go_defs thread_atomic_def split: go_splits)+

lemma step_buffers:
  assumes "thread_step S q p ch = Some (Inr (q', p', ev))"
  shows "buffers q' = buffers q \<or> (\<exists>v w. p = Enq_Insert v w) \<or>
    (\<exists>i b. buffers q' = two_set (buffers q) i b \<and> next_access (sys_buffer S) (sys_insert S) q p = Exclusive_Access i)"
  using assms
proof (rule thread_stepE)
  fix sp assume "step_go S sp q p = Some (Inr (q', p', ev))"
  then show ?thesis
    by (cases p) (auto simp: go_defs next_access_def Queue_lock_dequeuing_def split: go_splits)
qed (auto simp: next_access_def dest: start_moves(5) dest!: slice_moves iter_moves requeue_moves)

end
