(* ===== verification/Memory_Invariant.thy ===== *)
theory Memory_Invariant
  imports Memory_Steps
begin

text \<open>
  Every access to a buffer that conflicts with an earlier one happens after it. The argument has two halves. For the
  enqueuing buffer (\<open>enqueuing_safe\<close>): whatever was done to it before the swap was published with the swap of the
  enqueuing word, which every later reservation acquires, and insertions since then have written other cells. For the
  dequeuing one (\<open>all_accounted\<close>, \<open>dequeuing_safe\<close>): every access is known to the consumers (\<open>kept\<close>), or is an
  insertion that has been or is about to be published with the length of its buffer, which the load that ends the
  spin acquires. What is \<open>kept\<close> reaches the next consumer in one of two ways: there is only one (\<open>Some u\<close>), or the
  lock is taken with an acquiring swap and given back with releasing stores (\<open>None\<close>).

  The lemmas are proved for every \<open>conc_system\<close>; \<open>moved\<close> collects what is known of one step.
\<close>

section \<open>The invariant\<close>

text \<open>An access to the buffer \<open>i\<close>.\<close>

definition touches :: "usize \<Rightarrow> access \<Rightarrow> bool" where
  "touches i a = (case a of No_Access \<Rightarrow> False | Shared_Access j X \<Rightarrow> j = i | Exclusive_Access j \<Rightarrow> j = i)"

text \<open>Access \<open>k\<close> happens before whatever the present consumer, or else the next one, does.\<close>

definition kept :: "nat option \<Rightarrow> ('v, 's, 'r) pc list \<Rightarrow> queue_clock \<Rightarrow> nat \<Rightarrow> bool" where
  "kept c ps C k =
     (case c of
        Some u \<Rightarrow> k \<in> seen C u
      | None \<Rightarrow> (\<exists>t < length ps. is_dequeuing (ps ! t) \<and> k \<in> seen C t) \<or>
          (\<forall>t < length ps. \<not> is_dequeuing (ps ! t)) \<and> k \<in> synced C Dequeuing_Word)"

text \<open>It happens before the acknowledgement of an insertion into the buffer \<open>i\<close> that is still to come.\<close>

definition pending_ack :: "('v, 's, 'r) pc list \<Rightarrow> queue_clock \<Rightarrow> usize \<Rightarrow> nat \<Rightarrow> bool" where
  "pending_ack ps C i k \<longleftrightarrow>
     (\<exists>t < length ps. \<exists>v w. ps ! t = Enq_Ack v w \<and> EC_buffer_index w = i \<and> k \<in> seen C t)"

text \<open>Accesses that the consumers do not know yet are insertions on their way to them.\<close>

definition accounted :: "nat option \<Rightarrow> ('v, 's, 'r) pc list \<Rightarrow> queue_clock \<Rightarrow> usize \<Rightarrow> nat \<Rightarrow> bool" where
  "accounted c ps C i k \<longleftrightarrow>
     kept c ps C k \<or>
     (\<exists>Y. logged C ! k = Shared_Access i Y \<and> Y \<noteq> {}) \<and>
     (k \<in> synced C (Length_Word i) \<or> pending_ack ps C i k)"

text \<open>Only the one consumer dequeues, if there is to be only one.\<close>

definition consumers_ok :: "nat option \<Rightarrow> ('v, 's, 'r) pc list \<Rightarrow> bool" where
  "consumers_ok c ps \<longleftrightarrow>
     (\<forall>u t. c = Some u \<longrightarrow> t < length ps \<longrightarrow> is_dequeuing (ps ! t) \<or> (\<exists>r. ps ! t = Deq_Lock r) \<longrightarrow> t = u)"

text \<open>The four parts of the invariant.\<close>

definition insert_safe ::
    "('b, 's) buffer_trait \<Rightarrow> ('b, 'v) insert_trait \<Rightarrow> ('b, 'n) queue \<Rightarrow> ('v, 's, 'r) pc list \<Rightarrow> queue_clock \<Rightarrow> bool" where
  "insert_safe B I q ps C \<longleftrightarrow>
     (\<forall>t v w. t < length ps \<longrightarrow> ps ! t = Enq_Insert v w \<longrightarrow> \<not> races t (next_access B I q (ps ! t)) C)"

definition enqueuing_safe :: "('b, 'n) queue \<Rightarrow> 'c aqueue \<Rightarrow> queue_clock \<Rightarrow> bool" where
  "enqueuing_safe q A C \<longleftrightarrow>
     (\<forall>k < length (logged C). touches (enq_index q) (logged C ! k) \<longrightarrow>
        k \<in> synced C Enqueuing_Word \<or>
        (\<exists>Y. logged C ! k = Shared_Access (enq_index q) Y \<and> Y \<subseteq> {..<length (aq_back A)}))"

definition all_accounted :: "nat option \<Rightarrow> ('v, 's, 'r) pc list \<Rightarrow> queue_clock \<Rightarrow> bool" where
  "all_accounted c ps C \<longleftrightarrow>
     (\<forall>k < length (logged C). \<forall>i. touches i (logged C ! k) \<longrightarrow> accounted c ps C i k)"

definition front_taken :: "('v, 's, 'r) pc list \<Rightarrow> 'c aqueue \<Rightarrow> bool" where
  "front_taken ps A \<longleftrightarrow> aq_front A = [] \<or> (\<exists>t < length ps. slicing (ps ! t))"

definition dequeuing_safe ::
    "nat option \<Rightarrow> ('b, 'n) queue \<Rightarrow> ('v, 's, 'r) pc list \<Rightarrow> 'c aqueue \<Rightarrow> queue_clock \<Rightarrow> bool" where
  "dequeuing_safe c q ps A C \<longleftrightarrow>
     (front_taken ps A \<longrightarrow>
      (\<forall>k < length (logged C). touches (deq_index q) (logged C ! k) \<longrightarrow> kept c ps C k))"

definition clock_inv ::
    "('b, 's) buffer_trait \<Rightarrow> ('b, 'v) insert_trait \<Rightarrow> nat option \<Rightarrow> ('b, 'n) queue \<Rightarrow> ('v, 's, 'r) pc list \<Rightarrow>
     'c aqueue \<Rightarrow> queue_clock \<Rightarrow> bool" where
  "clock_inv B I c q ps A C \<longleftrightarrow>
     insert_safe B I q ps C \<and> enqueuing_safe q A C \<and> all_accounted c ps C \<and> dequeuing_safe c q ps A C \<and>
     consumers_ok c ps"

text \<open>The hypotheses: who may dequeue, and the orderings that several consumers need.\<close>

definition consumer_ok :: "nat option \<Rightarrow> nat \<Rightarrow> ('v, 'r) choice \<Rightarrow> bool" where
  "consumer_ok c t ch =
     (case c of None \<Rightarrow> True
      | Some u \<Rightarrow> (case ch of Start (Req_Dequeue r) \<Rightarrow> t = u | _ \<Rightarrow> True))"

definition orders_ok :: "nat option \<Rightarrow> lock_orders \<Rightarrow> bool" where
  "orders_ok c ords \<longleftrightarrow> c = None \<longrightarrow> acquires (lock_order ords) \<and> releases (unlock_order ords)"

section \<open>The clock after a step\<close>

lemma clock_step_atomic:
  fixes C :: queue_clock
  defines "a \<equiv> \<lambda>S q p. next_access (sys_buffer S) (sys_insert S) q p"
  obtains C1 :: queue_clock where
    "clock_step ords S t ch q p C = clock_atomic t (thread_atomic ords S q p ch) C1"
    "synced C1 = synced C" "\<And>u. seen C u \<subseteq> seen C1 u" "\<And>u. u \<noteq> t \<Longrightarrow> seen C1 u = seen C u"
    "logged C1 = logged C @ (if a S q p = No_Access then [] else [a S q p])"
    "a S q p \<noteq> No_Access \<Longrightarrow> length (logged C) \<in> seen C1 t"
  by (rule that [of "case a S q p of No_Access \<Rightarrow> C | _ \<Rightarrow> clock_access t (a S q p) C"])
    (auto simp: clock_step_def a_def Let_def clock_access_def split: access.split)

lemma clock_step_facts:
  fixes C :: queue_clock
  assumes "C' = clock_step ords S t ch q p C" and "a = next_access (sys_buffer S) (sys_insert S) q p"
    and "op = thread_atomic ords S q p ch"
  shows cs_logged: "logged C' = logged C @ (if a = No_Access then [] else [a])"
    and cs_seen: "seen C u \<subseteq> seen C' u" and cs_other: "u \<noteq> t \<Longrightarrow> seen C' u = seen C u"
    and cs_new: "a \<noteq> No_Access \<Longrightarrow> length (logged C) \<in> seen C' t"
    and cs_synced: "(\<And>ord. op \<noteq> Store x ord) \<Longrightarrow> synced C x \<subseteq> synced C' x"
    and cs_acquires: "op = Load x ord \<or> op = Rmw x ord \<Longrightarrow> acquires ord \<Longrightarrow> synced C x \<subseteq> seen C' t"
    and cs_load: "op = Load x ord \<Longrightarrow> synced C' = synced C"
    and cs_releases: "op = Store x ord \<or> op = Rmw x ord \<Longrightarrow> releases ord \<Longrightarrow> seen C t \<subseteq> synced C' x"
    and cs_releases_new: "op = Store x ord \<Longrightarrow> releases ord \<Longrightarrow> a \<noteq> No_Access \<Longrightarrow>
      length (logged C) \<in> synced C' x"
proof -
  obtain C1 :: queue_clock where C1: "C' = clock_atomic t op C1" "synced C1 = synced C"
    "\<And>u. seen C u \<subseteq> seen C1 u" "\<And>u. u \<noteq> t \<Longrightarrow> seen C1 u = seen C u"
    "logged C1 = logged C @ (if a = No_Access then [] else [a])"
    "a \<noteq> No_Access \<Longrightarrow> length (logged C) \<in> seen C1 t"
    using clock_step_atomic [of ords S t ch q p C] assms by metis
  show "logged C' = logged C @ (if a = No_Access then [] else [a])"
    using C1 by simp
  show "seen C u \<subseteq> seen C' u"
    using C1(1) C1(3) [of u] seen_atomic_mono [of C1 u t op] by blast
  show "u \<noteq> t \<Longrightarrow> seen C' u = seen C u"
    using C1 by simp
  show "a \<noteq> No_Access \<Longrightarrow> length (logged C) \<in> seen C' t"
    using C1(1,6) seen_atomic_mono [of C1 t t op] by blast
  show "(\<And>ord. op \<noteq> Store x ord) \<Longrightarrow> synced C x \<subseteq> synced C' x"
    using C1(1,2) synced_atomic_mono [of op x C1 t] by simp
  show "op = Load x ord \<or> op = Rmw x ord \<Longrightarrow> acquires ord \<Longrightarrow> synced C x \<subseteq> seen C' t"
    using C1(1,2) atomic_acquires [of op x ord C1 t] by simp
  show "op = Load x ord \<Longrightarrow> synced C' = synced C"
    using C1(1,2) by (simp add: reads_sync_def)
  show "op = Store x ord \<or> op = Rmw x ord \<Longrightarrow> releases ord \<Longrightarrow> seen C t \<subseteq> synced C' x"
    using C1(1) C1(3) [of t] atomic_releases [of op x ord C1 t] by simp
  show "op = Store x ord \<Longrightarrow> releases ord \<Longrightarrow> a \<noteq> No_Access \<Longrightarrow> length (logged C) \<in> synced C' x"
    using C1(1,6) atomic_releases [of op x ord C1 t] by blast
qed

lemma clock_step_entry:
  fixes C :: queue_clock
  assumes "C' = clock_step ords S t ch q p C" and "a = next_access (sys_buffer S) (sys_insert S) q p"
    and "k < length (logged C')"
  obtains (old) "k < length (logged C)" "logged C' ! k = logged C ! k"
  | (new) "k = length (logged C)" "logged C' ! k = a" "a \<noteq> No_Access"
  using assms(3) cs_logged [OF assms(1,2) refl]
  by (cases "k < length (logged C)") (auto simp: nth_append split: if_splits)

section \<open>Steps keep the invariant\<close>

context conc_system
begin

definition moved ::
    "lock_orders \<Rightarrow> nat option \<Rightarrow> ('b, 'n) queue \<Rightarrow> ('v, 's, 'r) pc list \<Rightarrow> 'c aqueue \<Rightarrow> queue_clock \<Rightarrow>
     nat \<Rightarrow> ('v, 'r) choice \<Rightarrow> ('b, 'n) queue \<Rightarrow> ('v, 's, 'r) pc \<Rightarrow> ('v, 's, 'c, 'r) event \<Rightarrow> 'c aqueue \<Rightarrow>
     queue_clock \<Rightarrow> bool" where
  "moved ords c q ps A C t ch q' p ev A' C' \<longleftrightarrow>
     (\<exists>lo xs h. inv q ps A lo xs h) \<and> (\<exists>lo xs h. inv q' (ps[t := p]) A' lo xs h) \<and>
     abs_step img view content inserted ev A A' \<and>
     t < length ps \<and> thread_step S q (ps ! t) ch = Some (Inr (q', p, ev)) \<and>
     consumer_ok c t ch \<and> orders_ok c ords \<and> clock_inv B I c q ps A C \<and>
     C' = clock_step ords S t ch q (ps ! t) C"

lemma movedD:
  assumes "moved ords c q ps A C t ch q' p ev A' C'"
  shows "\<exists>lo xs h. inv q ps A lo xs h" and "\<exists>lo xs h. inv q' (ps[t := p]) A' lo xs h"
    and "abs_step img view content inserted ev A A'"
    and "t < length ps" and "thread_step S q (ps ! t) ch = Some (Inr (q', p, ev))"
    and "consumer_ok c t ch" and "orders_ok c ords"
    and "insert_safe B I q ps C" "enqueuing_safe q A C" "all_accounted c ps C" "dequeuing_safe c q ps A C"
      "consumers_ok c ps"
    and "C' = clock_step ords S t ch q (ps ! t) C"
  using assms by (simp_all add: moved_def clock_inv_def)

lemma moved_entry:
  assumes m: "moved ords c q ps A C t ch q' p ev A' C'" and "k < length (logged C')"
  obtains (old) "k < length (logged C)" "logged C' ! k = logged C ! k"
  | (new) "k = length (logged C)" "logged C' ! k = next_access B I q (ps ! t)"
      "next_access B I q (ps ! t) \<noteq> No_Access"
  using clock_step_entry [OF movedD(13) [OF m] refl assms(2)] sys_parts by metis

text \<open>All insertions into the dequeuing buffer are acknowledged once its content is taken or gone.\<close>

lemma front_empty_quiet:
  assumes "inv q ps A lo xs h" and "front_taken ps A"
  shows "unacked_sum content (deq_index q) ps = 0"
proof -
  note ok = inv_atD(6) [OF assms(1)]
  show ?thesis
  proof (cases "aq_front A = []")
    case True
    with ok show ?thesis
      by (cases h) (auto simp: parked_def settled_def prepared_def swapped_ok_def quiet_front_def)
  next
    case False
    then obtain t where t: "t < length ps" "slicing (ps ! t)"
      using assms(2) by (auto simp: front_taken_def)
    then have "is_dequeuing (ps ! t)"
      by (cases "ps ! t") (simp_all add: slicing_def is_dequeuing_def)
    from ok owner(1) [OF assms(1) t(1) this] t(2) show ?thesis
      by (cases "ps ! t") (auto simp: slicing_def quiet_front_def)
  qed
qed

lemma kept_dequeuer:
  assumes inv: "inv q ps A lo xs h" and t: "t < length ps" "is_dequeuing (ps ! t)" and c: "consumers_ok c ps"
  shows "kept c ps C k \<longleftrightarrow> k \<in> seen C t"
proof (cases c)
  case None
  have "\<forall>u < length ps. is_dequeuing (ps ! u) \<longrightarrow> u = t"
    using one_dequeuer [OF inv t] by blast
  with t show ?thesis
    unfolding None kept_def option.case by metis
next
  case (Some u)
  with t c show ?thesis
    by (auto simp: kept_def consumers_ok_def)
qed

text \<open>What the consumer knows stays known to the consumers.\<close>

lemma kept_own:
  assumes m: "moved ords c q ps A C t ch q' p ev A' C'" and own: "is_dequeuing (ps ! t)"
    and k: "k \<in> seen C t \<or> k = length (logged C) \<and> next_access B I q (ps ! t) \<noteq> No_Access"
  shows "kept c (ps[t := p]) C' k"
proof -
  note d = movedD [OF m] and t = movedD(4) [OF m]
  note cs = clock_step_facts [OF d(13) refl refl, unfolded sys_parts]
  have k': "k \<in> seen C' t"
    using k cs(2) [of t] cs(4) by blast
  obtain lo xs h where inv: "inv q ps A lo xs h"
    using d(1) by blast
  show ?thesis
  proof (cases c)
    case (Some u)
    with d(12) own t k' show ?thesis
      by (auto simp: kept_def consumers_ok_def)
  next
    case None
    show ?thesis
    proof (cases "is_dequeuing p")
      case True
      with None t k' show ?thesis
        by (auto simp: kept_def intro!: exI [of _ t])
    next
      case False
      have "\<not> is_dequeuing (ps[t := p] ! u)" if "u < length ps" for u
        using one_dequeuer [OF inv t own that] False t by (cases "u = t") auto
      moreover have "k \<in> synced C' Dequeuing_Word"
        using k cs(8,9) step_leaves [OF d(5) own False, of ords] d(7) None by (auto simp: orders_ok_def)
      ultimately show ?thesis
        using None by (simp add: kept_def)
    qed
  qed
qed

lemma kept_step:
  assumes m: "moved ords c q ps A C t ch q' p ev A' C'" and k: "kept c ps C k"
  shows "kept c (ps[t := p]) C' k"
proof -
  note d = movedD [OF m] and t = movedD(4) [OF m]
  note cs = clock_step_facts [OF d(13) refl refl, unfolded sys_parts]
  obtain lo xs h where inv: "inv q ps A lo xs h"
    using d(1) by blast
  show ?thesis
  proof (cases "is_dequeuing (ps ! t)")
    case True
    with kept_own [OF m] kept_dequeuer [OF inv t _ d(12)] k show ?thesis by blast
  next
    case other: False
    show ?thesis
    proof (cases c)
      case (Some u)
      with k cs(2) [of u] show ?thesis
        by (auto simp: kept_def)
    next
      case None
      consider s where "s < length ps" "is_dequeuing (ps ! s)" "k \<in> seen C s"
        | "\<forall>s < length ps. \<not> is_dequeuing (ps ! s)" "k \<in> synced C Dequeuing_Word"
        using k None by (auto simp: kept_def)
      then show ?thesis
      proof cases
        case (1 s)
        with other have "s \<noteq> t" by auto
        with 1 None cs(3) show ?thesis
          by (auto simp: kept_def intro!: exI [of _ s])
      next
        case 2
        show ?thesis
        proof (cases "is_dequeuing p")
          case True
          with step_enters [OF d(5) _ other, of ords] cs(6) 2 d(7) None t show ?thesis
            by (auto simp: kept_def orders_ok_def intro!: exI [of _ t])
        next
          case False
          then have "k \<in> synced C' Dequeuing_Word"
            using cs(5) [of Dequeuing_Word] step_stores(1) [of ords S q "ps ! t" ch] other 2 by blast
          with 2 None False t show ?thesis
            by (auto simp: kept_def nth_list_update)
        qed
      qed
    qed
  qed
qed

text \<open>What the access of a step can be.\<close>

lemma access_cases:
  assumes "next_access B I q (ps ! t) \<noteq> No_Access"
  obtains (insert) v w where "ps ! t = Enq_Insert v w"
  | (check) i where "is_dequeuing (ps ! t)" "next_access B I q (ps ! t) = Shared_Access i {}"
  | (exclusive) i where "is_dequeuing (ps ! t)" "next_access B I q (ps ! t) = Exclusive_Access i"
  using assms
  by (cases "ps ! t") (auto simp: next_access_def is_dequeuing_def Let_def split: if_splits)

lemma insert_access:
  assumes inv: "inv q ps A lo xs h" and t: "t < length ps" "ps ! t = Enq_Insert v w"
  obtains Y where "next_access B I q (ps ! t) = Shared_Access (EC_buffer_index w) Y" "Y \<noteq> {}"
    "EC_buffer_index w = enq_index q \<Longrightarrow> Y \<subseteq> {..<length (aq_back A)}"
proof -
  let ?i = "EC_buffer_index w"
  let ?n = "unat (buf_capacity B (two_get (buffers q) ?i)) - unat (EC_remaining_capacity w)"
  have v: "honest v" "content v \<noteq> []"
    using inv_atD(4) [OF inv t(1)] t(2) by simp_all
  have acc: "next_access B I q (ps ! t) = Shared_Access ?i {?n..<?n + length (content v)}"
    using t(2) size_content [OF v(1)] by (simp add: next_access_def Let_def)
  have "{?n..<?n + length (content v)} \<subseteq> {..<length (aq_back A)}" if "?i = enq_index q"
  proof -
    have "claims B content q ?i ps ! t \<subseteq>\<^sub>m seg 0 (aq_back A)"
      using enq_okD(6) [OF inv_atD(2) [OF inv]] t(1) that by (simp add: side_def)
    then have "seg ?n (content v) \<subseteq>\<^sub>m seg 0 (aq_back A)"
      using t by (simp add: claims_nth claim_def)
    from map_le_implies_dom_le [OF this] show ?thesis by auto
  qed
  with acc v(2) that show thesis by simp
qed

text \<open>The length of a buffer is only reset by a consumer that knows all accesses to it.\<close>

lemma published_step:
  assumes m: "moved ords c q ps A C t ch q' p ev A' C'"
    and k: "k < length (logged C)" "touches i (logged C ! k)" and syn: "k \<in> synced C (Length_Word i)"
  shows "k \<in> synced C' (Length_Word i) \<or> kept c (ps[t := p]) C' k"
proof (cases "\<exists>ord. thread_atomic ords S q (ps ! t) ch = Store (Length_Word i) ord")
  case True
  note d = movedD [OF m]
  obtain lo xs h where inv: "inv q ps A lo xs h"
    using d(1) by blast
  have "ps ! t = Rel_Len i"
    using True step_stores(3) [of ords S q "ps ! t" ch] by blast
  then have "h = Rel_Len i"
    using owner(1) [OF inv d(4)] by (simp add: is_dequeuing_def)
  then have "i = deq_index q" "aq_front A = []"
    using inv_atD(6) [OF inv] by simp_all
  with d(11) k have "kept c ps C k"
    by (simp add: dequeuing_safe_def front_taken_def)
  with kept_step [OF m] show ?thesis by simp
next
  case False
  with clock_step_facts(5) [OF movedD(13) [OF m] refl refl, of "Length_Word i"] syn show ?thesis by blast
qed

lemma accounted_step:
  assumes m: "moved ords c q ps A C t ch q' p ev A' C'"
    and k: "k < length (logged C)" "touches i (logged C ! k)"
  shows "accounted c (ps[t := p]) C' i k"
proof -
  note d = movedD [OF m] and t = movedD(4) [OF m]
  note cs = clock_step_facts [OF d(13) refl refl, unfolded sys_parts]
  obtain lo xs h where inv: "inv q ps A lo xs h"
    using d(1) by blast
  have log: "logged C' ! k = logged C ! k"
    using cs(1) k(1) by (simp add: nth_append)
  have "accounted c ps C i k"
    using d(10) k by (simp add: all_accounted_def)
  then consider "kept c ps C k"
    | Y where "logged C ! k = Shared_Access i Y" "Y \<noteq> {}" "k \<in> synced C (Length_Word i)"
    | Y where "logged C ! k = Shared_Access i Y" "Y \<noteq> {}" "pending_ack ps C i k"
    by (auto simp: accounted_def)
  then show ?thesis
  proof cases
    case 1
    with kept_step [OF m] show ?thesis by (simp add: accounted_def)
  next
    case (2 Y)
    with published_step [OF m k] log show ?thesis by (auto simp: accounted_def)
  next
    case (3 Y)
    then obtain s v w where s: "s < length ps" "ps ! s = Enq_Ack v w" "EC_buffer_index w = i" "k \<in> seen C s"
      by (auto simp: pending_ack_def)
    show ?thesis
    proof (cases "s = t")
      case True
      with s step_inserts(2) [OF d(5), of v w ords] cs(8) 3 log show ?thesis
        by (auto simp: accounted_def)
    next
      case False
      then have "pending_ack (ps[t := p]) C' i k"
        using s cs(3) [of s] by (auto simp: pending_ack_def intro!: exI [of _ s])
      with 3 log show ?thesis by (simp add: accounted_def)
    qed
  qed
qed

lemma all_accounted_step:
  assumes m: "moved ords c q ps A C t ch q' p ev A' C'"
  shows "all_accounted c (ps[t := p]) C'"
  unfolding all_accounted_def
proof (intro allI impI)
  note d = movedD [OF m] and t = movedD(4) [OF m]
  note cs = clock_step_facts [OF d(13) refl refl, unfolded sys_parts]
  obtain lo xs h where inv: "inv q ps A lo xs h"
    using d(1) by blast
  fix k i assume k: "k < length (logged C')" and i: "touches i (logged C' ! k)"
  from m k show "accounted c (ps[t := p]) C' i k"
  proof (cases rule: moved_entry)
    case old
    with accounted_step [OF m] i show ?thesis by simp
  next
    case new
    show ?thesis
    proof (cases "is_dequeuing (ps ! t)")
      case True
      with kept_own [OF m True] new show ?thesis by (simp add: accounted_def)
    next
      case False
      then obtain v w where pc: "ps ! t = Enq_Insert v w"
        using access_cases [OF new(3)] by metis
      obtain Y where Y: "next_access B I q (ps ! t) = Shared_Access (EC_buffer_index w) Y" "Y \<noteq> {}"
        using insert_access [OF inv t pc] by metis
      have "p = Enq_Ack v w"
        using step_inserts(1) [OF d(5) pc] by simp
      then have "pending_ack (ps[t := p]) C' (EC_buffer_index w) k"
        using t new cs(4) by (auto simp: pending_ack_def intro!: exI [of _ t])
      with Y new i show ?thesis by (auto simp: accounted_def touches_def)
    qed
  qed
qed

text \<open>Which buffer is which after a step.\<close>

lemma moved_index:
  assumes m: "moved ords c q ps A C t ch q' p ev A' C'" and "\<forall>r. ev \<noteq> Ev_Swapped r"
  shows "enq_index q' = enq_index q" and "deq_index q' = deq_index q"
proof -
  note d = movedD [OF m]
  obtain lo xs h where inv: "inv q ps A lo xs h"
    using d(1) by blast
  show i: "enq_index q' = enq_index q"
  proof (cases "\<exists>v. ev = Ev_Reserved v")
    case False
    with step_index [OF d(5)] assms(2) show ?thesis by blast
  next
    case True
    then obtain v w where "p = Enq_Insert v w"
      using step_reserved [OF d(5)] by blast
    from step_reserves [OF d(5) this, of ords] obtain w'
      where w: "ps ! t = Enq_Cas v w" "w = enqueuing_capacity q" "\<not> EC_is_closed w"
        "EC_try_reserve w (ins_size I v) = Some w'" "q' = q\<lparr>enqueuing_capacity := w'\<rparr>"
      by (auto simp: sys_parts)
    have "honest v" "length (content v) < 9223372036854775808"
      using inv_atD(4) [OF inv d(4)] w(1) by simp_all
    then have "EC_buffer_index w' = EC_buffer_index w"
      using EC_try_reserve_Some [OF w(3) _ w(4)] size_content [of v] by simp
    with w(2,5) show ?thesis by (simp add: enq_index_def)
  qed
  then show "deq_index q' = deq_index q"
    by (simp add: deq_index_def)
qed

lemma moved_swap:
  assumes m: "moved ords c q ps A C t ch q' p (Ev_Swapped r) A' C'"
  shows "enq_index q' = deq_index q" and "deq_index q' = enq_index q" and "aq_front A = []"
    and "aq_front A' = aq_back A" and "is_dequeuing (ps ! t)" and "is_dequeuing p" and "\<not> slicing p"
    and "next_access B I q (ps ! t) = No_Access" and "buffers q' = buffers q"
    and "thread_atomic ords S q (ps ! t) ch = Rmw Enqueuing_Word AcqRel"
proof -
  note d = movedD [OF m]
  obtain lo xs h where inv: "inv q ps A lo xs h"
    using d(1) by blast
  obtain nc rs ins capa enq ne where pc: "ps ! t = Deq_Swap r nc rs ins capa enq ne" "enqueuing_capacity q = enq"
    "q' = q\<lparr>enqueuing_capacity := EC_with_closed ne enq\<rparr>" "p = Deq_Capacity nc rs ins capa enq"
    "thread_atomic ords S q (ps ! t) ch = Rmw Enqueuing_Word AcqRel"
    using step_swaps [OF d(5) refl, of ords] by blast
  have own: "h = Deq_Swap r nc rs ins capa enq ne"
    using owner(1) [OF inv d(4)] pc(1) by (simp add: is_dequeuing_def)
  then have pr: "prepared inserted (dview_of B content q ps lo xs) A r nc rs ins"
    and ne: "ne = EC_pack (deq_index q) (nc - ins)"
    using inv_atD(6) [OF inv] by simp_all
  have "unat (nc - ins) < 4611686018427387904"
    using prepared_word(2) [OF pr] smallD [OF inv_atD(1) [OF inv], of "deq_index q"] pr by (simp add: prepared_def)
  note f = EC_pack_fields [OF deq_index_bound this, of q, folded ne]
  note wc = EC_with_closed_fields [of ne enq, unfolded f(1), simplified]
  show "enq_index q' = deq_index q"
    using wc(3) f(3) pc(3) by (simp add: enq_index_def)
  then show "deq_index q' = enq_index q"
    using flip_deq_index [of q] by (simp add: deq_index_def [of q'])
  show "aq_front A = []" and "aq_front A' = aq_back A"
    using d(3) by (simp_all add: abs_step_def)
qed (use step_swaps [OF movedD(5) [OF m] refl, of ords] in
    \<open>auto simp: is_dequeuing_def slicing_def next_access_def\<close>)

lemma back_grows:
  assumes m: "moved ords c q ps A C t ch q' p ev A' C'" and "\<forall>r. ev \<noteq> Ev_Swapped r"
  shows "length (aq_back A) \<le> length (aq_back A')"
  using movedD(3) [OF m] assms(2) by (cases ev) (auto simp: abs_step_def)

lemma enqueuing_safe_swaps:
  assumes m: "moved ords c q ps A C t ch q' p (Ev_Swapped r) A' C'"
    and k: "k < length (logged C')" "touches (enq_index q') (logged C' ! k)"
  shows "k \<in> synced C' Enqueuing_Word"
proof -
  note d = movedD [OF m] and t = movedD(4) [OF m] and sw = moved_swap [OF m]
  note cs = clock_step_facts [OF d(13) refl refl, unfolded sys_parts]
  obtain lo xs h where inv: "inv q ps A lo xs h"
    using d(1) by blast
  have "k < length (logged C)" "logged C' ! k = logged C ! k"
    using cs(1) k(1) sw(8) by simp_all
  with d(11) sw(1,3) k(2) have "kept c ps C k"
    by (simp add: dequeuing_safe_def front_taken_def)
  then have "k \<in> seen C t"
    using kept_dequeuer [OF inv t sw(5) d(12)] by simp
  with cs(8) [of Enqueuing_Word AcqRel] sw(10) show ?thesis by auto
qed

lemma enqueuing_access:
  assumes inv: "inv q ps A lo xs h" and t: "t < length ps"
    and a: "next_access B I q (ps ! t) \<noteq> No_Access" "touches (enq_index q) (next_access B I q (ps ! t))"
  shows "\<exists>Y. next_access B I q (ps ! t) = Shared_Access (enq_index q) Y \<and> Y \<subseteq> {..<length (aq_back A)}"
  using a(1)
proof (cases rule: access_cases)
  case (insert v w)
  obtain Y where "next_access B I q (ps ! t) = Shared_Access (EC_buffer_index w) Y"
    "EC_buffer_index w = enq_index q \<Longrightarrow> Y \<subseteq> {..<length (aq_back A)}"
    using insert_access [OF inv t insert] by metis
  with a(2) show ?thesis
    by (simp add: touches_def)
next
  case (check j)
  with a(2) show ?thesis by (simp add: touches_def)
next
  case (exclusive j)
  with exclusive_quiet(2) [OF inv t] a(2) enq_neq_deq [of q] show ?thesis
    by (auto simp: touches_def)
qed

lemma enqueuing_safe_step:
  assumes m: "moved ords c q ps A C t ch q' p ev A' C'"
  shows "enqueuing_safe q' A' C'"
  unfolding enqueuing_safe_def
proof (intro allI impI)
  note d = movedD [OF m] and t = movedD(4) [OF m]
  note cs = clock_step_facts [OF d(13) refl refl, unfolded sys_parts]
  obtain lo xs h where inv: "inv q ps A lo xs h"
    using d(1) by blast
  fix k assume k: "k < length (logged C')" "touches (enq_index q') (logged C' ! k)"
  show "k \<in> synced C' Enqueuing_Word \<or>
      (\<exists>Y. logged C' ! k = Shared_Access (enq_index q') Y \<and> Y \<subseteq> {..<length (aq_back A')})"
  proof (cases "\<exists>r. ev = Ev_Swapped r")
    case True
    with enqueuing_safe_swaps m k show ?thesis by blast
  next
    case False
    then have i: "enq_index q' = enq_index q" and grow: "{..<length (aq_back A)} \<subseteq> {..<length (aq_back A')}"
      using moved_index [OF m] back_grows [OF m] by auto
    have mono: "synced C Enqueuing_Word \<subseteq> synced C' Enqueuing_Word"
      using cs(5) [of Enqueuing_Word] step_stores(2) [of ords S q "ps ! t" ch] by blast
    from m k(1) have "k \<in> synced C Enqueuing_Word \<or>
        (\<exists>Y. logged C' ! k = Shared_Access (enq_index q) Y \<and> Y \<subseteq> {..<length (aq_back A)})"
    proof (cases rule: moved_entry)
      case old
      with d(9) k(2) i show ?thesis
        by (simp add: enqueuing_safe_def)
    next
      case new
      with enqueuing_access [OF inv t] k(2) i show ?thesis by simp
    qed
    with mono grow show ?thesis
      unfolding i by (meson order_trans subsetD)
  qed
qed

lemma consumers_step:
  assumes m: "moved ords c q ps A C t ch q' p ev A' C'"
  shows "consumers_ok c (ps[t := p])"
  unfolding consumers_ok_def
proof (intro allI impI)
  note d = movedD [OF m]
  fix u s assume c: "c = Some u" and s: "s < length (ps[t := p])"
    and pc: "is_dequeuing (ps[t := p] ! s) \<or> (\<exists>r. ps[t := p] ! s = Deq_Lock r)"
  show "s = u"
  proof (cases "s = t \<and> \<not> is_dequeuing (ps ! t)")
    case False
    with pc have "is_dequeuing (ps ! s) \<or> (\<exists>r. ps ! s = Deq_Lock r)"
      by (cases "s = t") simp_all
    moreover have "s < length ps"
      using s by simp
    ultimately show ?thesis
      using d(12) c unfolding consumers_ok_def by blast
  next
    case True
    with pc s have "is_dequeuing p \<or> (\<exists>r. p = Deq_Lock r)" by simp
    then show ?thesis
    proof
      assume "is_dequeuing p"
      with step_enters [OF d(5)] True c d(4,12) show ?thesis
        by (auto simp: consumers_ok_def)
    next
      assume "\<exists>r. p = Deq_Lock r"
      then obtain r where "ch = Start (Req_Dequeue r)"
        using step_locking d(5) by blast
      with d(6) c True show ?thesis
        by (simp add: consumer_ok_def)
    qed
  qed
qed

text \<open>The dequeuing buffer: it stays safe, becomes so with the load that ends a spin, or is swapped in empty.\<close>

lemma dequeuing_safe_stays:
  assumes m: "moved ords c q ps A C t ch q' p ev A' C'" and taken: "front_taken ps A"
    and k: "k < length (logged C')" "touches (deq_index q) (logged C' ! k)"
  shows "kept c (ps[t := p]) C' k"
proof -
  note d = movedD [OF m]
  obtain lo xs h where inv: "inv q ps A lo xs h"
    using d(1) by blast
  from m k(1) show ?thesis
  proof (cases rule: moved_entry)
    case old
    with d(11) taken k(2) kept_step [OF m] show ?thesis by (simp add: dequeuing_safe_def)
  next
    case new
    have "is_dequeuing (ps ! t)"
    proof (rule ccontr)
      assume "\<not> is_dequeuing (ps ! t)"
      then obtain v w where pc: "ps ! t = Enq_Insert v w"
        using access_cases [OF new(3)] by metis
      with new k(2) have "in_flight (deq_index q) (ps ! t)"
        by (simp add: next_access_def touches_def in_flight_def Let_def)
      with not_in_flight [OF inv front_empty_quiet [OF inv taken] d(4)] show False by simp
    qed
    with kept_own [OF m] new show ?thesis by blast
  qed
qed

lemma dequeuing_safe_loads:
  assumes m: "moved ords c q ps A C t ch q' p ev A' C'" and sl: "slicing p" "\<not> slicing (ps ! t)"
    and k: "k < length (logged C')" "touches (deq_index q') (logged C' ! k)"
  shows "kept c (ps[t := p]) C' k"
proof -
  note d = movedD [OF m] and t = movedD(4) [OF m]
  note cs = clock_step_facts [OF d(13) refl refl, unfolded sys_parts]
  obtain lo xs h where inv: "inv q' (ps[t := p]) A' lo xs h"
    using d(2) by blast
  obtain i len n where p: "thread_atomic ords S q (ps ! t) ch = Load (Length_Word i) Acquire" "p = Deq_Slice i len n"
    using step_slices [OF d(5) sl, of ords] by blast
  have t': "t < length (ps[t := p])" "is_dequeuing (ps[t := p] ! t)"
    using t p(2) by (simp_all add: is_dequeuing_def)
  have "front_taken (ps[t := p]) A'"
    using t sl(1) by (auto simp: front_taken_def intro!: exI [of _ t])
  note quiet = front_empty_quiet [OF inv this]
  have i: "i = deq_index q'"
    using inv_atD(6) [OF inv] owner(1) [OF inv t'] t p(2) by (simp add: quiet_front_def)
  have "accounted c (ps[t := p]) C' (deq_index q') k"
    using all_accounted_step [OF m] k by (simp add: all_accounted_def)
  moreover have "\<not> pending_ack (ps[t := p]) C' (deq_index q') k"
  proof
    assume "pending_ack (ps[t := p]) C' (deq_index q') k"
    then obtain u v w where u: "u < length (ps[t := p])" "ps[t := p] ! u = Enq_Ack v w" "EC_buffer_index w = deq_index q'"
      unfolding pending_ack_def by blast
    from not_in_flight [OF inv quiet u(1)] u(2,3) show False
      by (simp add: in_flight_def)
  qed
  moreover have "kept c (ps[t := p]) C' k" if "k \<in> synced C' (Length_Word (deq_index q'))"
  proof -
    have "k \<in> seen C' t"
      using that cs(7) [OF p(1)] cs(6) [of "Length_Word i" Acquire] p(1) i by auto
    moreover have "consumers_ok c (ps[t := p])"
      using consumers_step [OF m] .
    ultimately show ?thesis
      using kept_dequeuer [OF inv t'] by blast
  qed
  ultimately show ?thesis
    by (auto simp: accounted_def)
qed

lemma dequeuing_safe_swaps:
  assumes m: "moved ords c q ps A C t ch q' p (Ev_Swapped r) A' C'" and taken: "front_taken (ps[t := p]) A'"
    and k: "k < length (logged C')" "touches (deq_index q') (logged C' ! k)"
  shows "kept c (ps[t := p]) C' k"
proof -
  note d = movedD [OF m] and t = movedD(4) [OF m]
  note cs = clock_step_facts [OF d(13) refl refl, unfolded sys_parts]
  note sw = moved_swap [OF m]
  obtain lo xs h where inv: "inv q' (ps[t := p]) A' lo xs h"
    using d(2) by blast
  have t': "t < length (ps[t := p])" "is_dequeuing (ps[t := p] ! t)"
    using t sw(6) by simp_all
  have "\<not> slicing (ps[t := p] ! u)" if "u < length ps" for u
  proof
    assume s: "slicing (ps[t := p] ! u)"
    then have "is_dequeuing (ps[t := p] ! u)"
      by (cases "ps[t := p] ! u") (simp_all add: slicing_def is_dequeuing_def)
    with one_dequeuer [OF inv t', of u] that s sw(7) t show False by auto
  qed
  then have empty: "aq_back A = []"
    using taken sw(4) by (auto simp: front_taken_def)
  have old: "k < length (logged C)" "logged C' ! k = logged C ! k"
    using cs(1) k sw(8) by simp_all
  then have "k \<in> synced C Enqueuing_Word \<or> (\<exists>Y. logged C ! k = Shared_Access (enq_index q) Y \<and> Y = {})"
    using d(9) k(2) sw(2) empty by (auto simp: enqueuing_safe_def)
  moreover have "kept c (ps[t := p]) C' k" if "k \<in> synced C Enqueuing_Word"
  proof -
    have "k \<in> seen C' t"
      using that cs(6) [of Enqueuing_Word AcqRel] sw(10) by auto
    then show ?thesis
      using kept_dequeuer [OF inv t' consumers_step [OF m]] by blast
  qed
  moreover have "accounted c (ps[t := p]) C' (deq_index q') k"
    using all_accounted_step [OF m] k by (simp add: all_accounted_def)
  ultimately show ?thesis
    using old by (auto simp: accounted_def)
qed

lemma dequeuing_safe_step:
  assumes m: "moved ords c q ps A C t ch q' p ev A' C'"
  shows "dequeuing_safe c q' (ps[t := p]) A' C'"
  unfolding dequeuing_safe_def
proof (intro impI allI)
  note d = movedD [OF m] and t = movedD(4) [OF m]
  fix k assume taken: "front_taken (ps[t := p]) A'"
    and k: "k < length (logged C')" "touches (deq_index q') (logged C' ! k)"
  consider r where "ev = Ev_Swapped r" | "\<forall>r. ev \<noteq> Ev_Swapped r" "front_taken ps A"
    | "\<forall>r. ev \<noteq> Ev_Swapped r" "\<not> front_taken ps A" by blast
  then show "kept c (ps[t := p]) C' k"
  proof cases
    case 1
    with dequeuing_safe_swaps [of ords c q ps A C t ch q' p _ A' C'] m taken k show ?thesis by blast
  next
    case 2
    with dequeuing_safe_stays [OF m] k moved_index(2) [OF m] show ?thesis by simp
  next
    case 3
    have "slicing (ps ! t)" if "aq_front A' = []"
      using d(3) that 3 step_consumes [OF d(5)] by (cases ev) (auto simp: abs_step_def front_taken_def)
    then have "slicing p"
      using taken 3 t by (auto simp: front_taken_def nth_list_update split: if_splits)
    moreover have "\<not> slicing (ps ! t)"
      using 3 t by (auto simp: front_taken_def)
    ultimately show ?thesis
      using dequeuing_safe_loads [OF m] k by blast
  qed
qed

text \<open>The insertion that a thread has reserved cells for.\<close>

lemma moved_caps:
  assumes m: "moved ords c q ps A C t ch q' p ev A' C'" and i: "i = enq_index q \<or> i = deq_index q"
    and ex: "next_access B I q (ps ! t) \<noteq> Exclusive_Access i"
  shows "buf_capacity B (two_get (buffers q') i) = buf_capacity B (two_get (buffers q) i)"
proof -
  note d = movedD [OF m] and t = movedD(4) [OF m]
  obtain lo xs h where inv: "inv q ps A lo xs h"
    using d(1) by blast
  consider "buffers q' = buffers q" | v w where "ps ! t = Enq_Insert v w"
    | k b where "buffers q' = two_set (buffers q) k b" "next_access B I q (ps ! t) = Exclusive_Access k"
    using step_buffers [OF d(5)] sys_parts by auto
  then show ?thesis
  proof cases
    case 2
    from 2 d(5) have "go_enq_insert S q v w = Inr (q', p, ev)"
      by (auto elim!: thread_stepE)
    with insert_step [OF inv t 2] show ?thesis
      by (auto simp: same_caps_def)
  next
    case 3
    with exclusive_quiet(2) [OF inv t 3(2)] i ex show ?thesis by auto
  qed simp
qed

lemma moved_access:
  assumes m: "moved ords c q ps A C t ch q' p ev A' C'" and u: "u < length ps" "ps ! u = Enq_Insert v w"
  shows "next_access B I q' (ps ! u) = next_access B I q (ps ! u)"
proof -
  note d = movedD [OF m] and t = movedD(4) [OF m]
  obtain lo xs h where inv: "inv q ps A lo xs h"
    using d(1) by blast
  have "next_access B I q (ps ! t) \<noteq> Exclusive_Access (EC_buffer_index w)"
  proof
    assume "next_access B I q (ps ! t) = Exclusive_Access (EC_buffer_index w)"
    note x = exclusive_quiet [OF inv t this]
    from not_in_flight [OF inv x(3) u(1)] u(2) x(2) show False by (simp add: in_flight_def)
  qed
  with moved_caps [OF m index_cases] u(2) show ?thesis
    by (simp add: next_access_def)
qed

lemma insert_safe_reserves:
  assumes m: "moved ords c q ps A C t ch q' p ev A' C'" and p: "p = Enq_Insert v w"
  shows "\<not> races t (next_access B I q' p) C'"
proof -
  note d = movedD [OF m] and t = movedD(4) [OF m]
  note cs = clock_step_facts [OF d(13) refl refl, unfolded sys_parts]
  obtain lo xs h where inv: "inv q ps A lo xs h"
    using d(1) by blast
  note e = enq_okD [OF inv_atD(2) [OF inv]]
  obtain w' where r: "ps ! t = Enq_Cas v w" "w = enqueuing_capacity q" "q' = q\<lparr>enqueuing_capacity := w'\<rparr>"
    "thread_atomic ords S q (ps ! t) ch = Rmw Enqueuing_Word AcqRel"
    using step_reserves [OF d(5) p, of ords] by blast
  have log: "logged C' = logged C"
    using cs(1) r(1) by (simp add: next_access_def)
  have acc: "next_access B I q' p = Shared_Access (enq_index q)
      {length (aq_back A)..<length (aq_back A) + unat (ins_size I v)}"
    using p r(2,3) e(2-4) by (simp add: next_access_def enq_index_def Let_def)
  have "k \<in> seen C' t" if k: "k < length (logged C)" "conflicting (logged C ! k) (next_access B I q' p)" for k
  proof -
    have "touches (enq_index q) (logged C ! k)"
      using k(2) acc by (cases "logged C ! k") (auto simp: conflicting_def touches_def)
    then have "k \<in> synced C Enqueuing_Word \<or>
        (\<exists>Y. logged C ! k = Shared_Access (enq_index q) Y \<and> Y \<subseteq> {..<length (aq_back A)})"
      using d(9) k(1) by (simp add: enqueuing_safe_def)
    then have "k \<in> synced C Enqueuing_Word"
      using k(2) acc by (fastforce simp: conflicting_def)
    then show ?thesis
      using cs(6) [of Enqueuing_Word AcqRel] r(4) by auto
  qed
  then show ?thesis
    by (auto simp: races_iff log)
qed

lemma insert_safe_step:
  assumes m: "moved ords c q ps A C t ch q' p ev A' C'"
  shows "insert_safe B I q' (ps[t := p]) C'"
  unfolding insert_safe_def
proof (intro allI impI)
  note d = movedD [OF m] and t = movedD(4) [OF m]
  note cs = clock_step_facts [OF d(13) refl refl, unfolded sys_parts]
  obtain lo xs h where inv: "inv q ps A lo xs h"
    using d(1) by blast
  fix u v w assume u: "u < length (ps[t := p])" "ps[t := p] ! u = Enq_Insert v w"
  show "\<not> races u (next_access B I q' (ps[t := p] ! u)) C'"
  proof (cases "u = t")
    case True
    with insert_safe_reserves [OF m] u t show ?thesis by simp
  next
    case False
    then have u': "u < length ps" "ps ! u = Enq_Insert v w"
      using u by simp_all
    note acc = moved_access [OF m u']
    have "\<not> races u (next_access B I q (ps ! u)) C"
      using d(8) u' by (simp add: insert_safe_def)
    moreover have "\<not> conflicting (next_access B I q (ps ! t)) (next_access B I q (ps ! u))"
      using no_conflicts [OF inv t u'(1)] False by auto
    ultimately show ?thesis
      using False acc cs(1) cs(3) [of u] by (auto simp: races_iff nth_append split: if_splits)
  qed
qed

lemma clock_inv_step:
  assumes "moved ords c q ps A C t ch q' p ev A' C'"
  shows "clock_inv B I c q' (ps[t := p]) A' C'"
  using insert_safe_step [OF assms] enqueuing_safe_step [OF assms] all_accounted_step [OF assms]
    dequeuing_safe_step [OF assms] consumers_step [OF assms]
  by (simp add: clock_inv_def)

lemma clock_inv_initial:
  "\<forall>p \<in> set ps. p = Idle \<Longrightarrow> clock_inv B I c q ps A clock_initial"
  by (auto simp: clock_inv_def insert_safe_def enqueuing_safe_def all_accounted_def dequeuing_safe_def
      consumers_ok_def races_iff is_dequeuing_def dest!: nth_mem)

text \<open>Every run with its clock.\<close>

lemma timed_inv:
  assumes "timed_steps ords S allowed s0 s C"
    and "conc_inv B rep img view honest content good inserted s0 A" and "\<forall>p \<in> set (threads s0). p = Idle"
    and allowed: "\<forall>t ch. allowed t ch \<longrightarrow> choice_ok honest content good ch \<and> consumer_ok c t ch"
    and "orders_ok c ords"
  shows "\<exists>A lo xs h. inv (shared s) (threads s) A lo xs h \<and> clock_inv B I c (shared s) (threads s) A C \<and>
    length (threads s) = length (threads s0)"
  using assms(1)
proof (induction rule: timed_steps.induct)
  case timed_init
  then show ?case
    using assms(2) clock_inv_initial [OF assms(3)] by (auto simp: conc_inv_def)
next
  case (timed_next s C t ch q p ev)
  then obtain A lo xs h where inv: "inv (shared s) (threads s) A lo xs h"
    and C: "clock_inv B I c (shared s) (threads s) A C" and len: "length (threads s) = length (threads s0)"
    by blast
  have ok: "choice_ok honest content good ch" "consumer_ok c t ch"
    using allowed timed_next.hyps(3) by simp_all
  obtain A' lo' xs' h' where inv': "inv q ((threads s)[t := p]) A' lo' xs' h'"
    and ab: "abs_step img view content inserted ev A A'"
    using thread_step_ok [OF inv timed_next.hyps(2) ok(1) timed_next.hyps(4)] by (auto simp: step_ok_def)
  have "moved ords c (shared s) (threads s) A C t ch q p ev A'
      (clock_step ords S t ch (shared s) (threads s ! t) C)"
    unfolding moved_def using inv inv' ab timed_next.hyps(2,4) ok(2) assms(5) C by auto
  from clock_inv_step [OF this] inv' len show ?case
    by auto
qed

lemma exclusive_front:
  assumes inv: "inv q ps A lo xs h" and t: "t < length ps"
    and ex: "next_access B I q (ps ! t) = Exclusive_Access i"
  shows "front_taken ps A"
proof (cases "slicing (ps ! t)")
  case True
  with t show ?thesis
    by (auto simp: front_taken_def)
next
  case False
  have ok: "deq_ok img view inserted (dview_of B content q ps lo xs) A (ps ! t)"
    using inv_atD(6) [OF inv] owner(1) [OF inv t exclusive_quiet(1) [OF inv t ex]] by simp
  note w = parked_word [OF _ inv_atD(1) [OF inv], of content ps lo xs A]
  have "aq_front A = []"
    using ok ex w(3) False
    by (cases "ps ! t") (auto simp: next_access_def slicing_def Let_def split: if_splits)
  then show ?thesis
    by (simp add: front_taken_def)
qed

lemma no_unordered_access:
  assumes inv: "inv q ps A lo xs h" and C: "clock_inv B I c q ps A C" and t: "t < length ps"
  shows "\<not> races t (next_access B I q (ps ! t)) C"
proof (cases "next_access B I q (ps ! t) = No_Access")
  case True
  then show ?thesis
    by (auto simp: races_iff conflicting_def split: access.splits)
next
  case False
  have own: "k \<in> seen C t" if "is_dequeuing (ps ! t)" "kept c ps C k" for k
    using kept_dequeuer [OF inv t that(1)] that(2) C by (auto simp: clock_inv_def)
  from False show ?thesis
  proof (cases rule: access_cases)
    case (insert v w)
    with C t show ?thesis
      by (simp add: clock_inv_def insert_safe_def)
  next
    case (check i)
    have "kept c ps C k" if "k < length (logged C)" "conflicting (logged C ! k) (Shared_Access i {})" for k
    proof -
      have "logged C ! k = Exclusive_Access i"
        using that(2) by (auto simp: conflicting_def split: access.splits)
      moreover from this have "accounted c ps C i k"
        using C that(1) by (simp add: clock_inv_def all_accounted_def touches_def)
      ultimately show ?thesis
        by (simp add: accounted_def)
    qed
    with own check show ?thesis
      by (auto simp: races_iff)
  next
    case (exclusive i)
    note x = exclusive_quiet [OF inv t exclusive(2)]
    have "front_taken ps A"
      using exclusive_front [OF inv t exclusive(2)] .
    then have "kept c ps C k" if "k < length (logged C)" "conflicting (logged C ! k) (Exclusive_Access i)" for k
      using C that x(2) by (auto simp: clock_inv_def dequeuing_safe_def conflicting_def touches_def split: access.splits)
    with own exclusive show ?thesis
      by (auto simp: races_iff)
  qed
qed

end

end
