(* ===== verification/Memory_Properties.thy ===== *)
theory Memory_Properties
  imports Memory_Invariant
begin

text \<open>
  Data races of the queue over \<open>VecBuffer\<close> when several consumers take turns: there are none if the dequeuing lock
  acquires and releases, but in the source it does not, and a run with a race is shown. With one consumer there are
  none (\<open>single_consumer_ordered\<close> of \<open>Weak_Properties\<close>, where loads may also return old values).
\<close>

text \<open>What thread \<open>t\<close> does next to a buffer.\<close>

abbreviation vec_access where
  "vec_access s t \<equiv> next_access VecBuffer (array_insert VecBuffer_insert) (shared s) (threads s ! t)"

lemma vec_no_unordered_access:
  assumes "queue_rep VecBuffer cells_rep q A" and "\<not> aq_held A" and "orders_ok c ords"
    and "timed_steps ords (VecSystem N) (\<lambda>t ch. vec_choice_ok ch \<and> consumer_ok c t ch) (quiescent q n) s C"
    and "t < n"
  shows "\<not> races t (vec_access s t) C"
proof -
  have "vec_inv (quiescent q n) A"
    by (rule vec_conc.initial_inv [OF assms(1,2)]) simp
  from vec_conc.timed_inv [OF assms(4) this _ _ assms(3)]
  obtain A' lo xs h where "vec_conc.inv (shared s) (threads s) A' lo xs h"
    "clock_inv VecBuffer (array_insert VecBuffer_insert) c (shared s) (threads s) A' C" "length (threads s) = n"
    by (auto simp: vec_choice_ok_def)
  from vec_conc.no_unordered_access [OF this(1,2)] this(3) assms(5) show ?thesis by simp
qed

text \<open>
  Two consumers, one after the other: thread 0 takes the two values of the queue, drops the slice and gives the lock
  back; then thread 1 locks the queue, to resize the buffer that thread 0 has cleared.
\<close>

definition handover :: "(nat \<times> (nat list, nat list resize_request) choice) list" where
  "handover =
     (0, Start (Req_Dequeue None)) # replicate 10 (0, Go False) @ (0, Handle Op_Drop) # replicate 3 (0, Go False) @
     [(1, Start (Req_Dequeue (Some (Some 4, None)))), (1, Go False)]"

lemma handover_choices: "\<forall>(t, ch) \<in> set handover. vec_choice_ok ch \<and> consumer_ok None t ch"
  by (simp add: handover_def vec_choice_ok_def choice_ok_def vec_good_def prep_good_def prep_inserted_def consumer_ok_def)

text \<open>
  If the swap that locks the dequeuing word acquired and the stores that unlock it released, any number of
  threads could take turns to dequeue, and every run over \<open>VecBuffer\<close> would be free of data races.
\<close>

theorem acquire_release_ordered:
  assumes "queue_rep VecBuffer cells_rep q A" and "\<not> aq_held A"
    and "acquires (lock_order ords)" and "releases (unlock_order ords)"
    and "timed_steps ords (VecSystem N) (\<lambda>t ch. vec_choice_ok ch) (quiescent q n) s C" and "t < n"
  shows "\<not> races t (vec_access s t) C"
  using vec_no_unordered_access [of q A None ords N n s C t] assms by (simp add: orders_ok_def consumer_ok_def)

theorem acquire_release_ordered_witness:
  "\<exists>s C. timed_schedule acq_rel_orders (VecSystem unit_notify) handover (quiescent example_queue 2) clock_initial =
     Some (s, C) \<and> vec_access s 1 = Exclusive_Access 0 \<and> \<not> races 1 (vec_access s 1) C"
proof -
  have "map_option (\<lambda>(s, C). vec_access s 1) (timed_schedule acq_rel_orders (VecSystem unit_notify) handover
      (quiescent example_queue 2) clock_initial) = Some (Exclusive_Access 0)"
    by code_simp
  then obtain s C where sC: "timed_schedule acq_rel_orders (VecSystem unit_notify) handover
      (quiescent example_queue 2) clock_initial = Some (s, C)" "vec_access s 1 = Exclusive_Access 0"
    by auto
  have "\<forall>(t, ch) \<in> set handover. vec_choice_ok ch"
    using handover_choices by auto
  from acquire_release_ordered [OF example_queue_rep example_idle _ _ timed_schedule_steps [OF sC(1) timed_init this], of 1] sC
  show ?thesis by (auto simp: acq_rel_orders_def)
qed

text \<open>
  C38: With the orderings of the source a run with two consumers has a data race: thread 0 drops its slice and gives
  back the lock, thread 1 takes it, and its exclusive access to the buffer that thread 0 cleared (access 4), to resize
  it, does not happen after that.
\<close>

theorem relaxed_consumers_race:
  "\<exists>s C. timed_steps source_orders (VecSystem unit_notify) (\<lambda>t ch. vec_choice_ok ch) (quiescent example_queue 2) s C \<and>
     vec_access s 1 = Exclusive_Access 0 \<and> logged C ! 4 = Exclusive_Access 0 \<and> 4 \<in> seen C 0 - seen C 1 \<and>
     races 1 (vec_access s 1) C"
proof -
  have "map_option (\<lambda>(s, C). (vec_access s 1, logged C ! 4, 4 \<in> seen C 0, 4 \<in> seen C 1, races 1 (vec_access s 1) C))
      (timed_schedule source_orders (VecSystem unit_notify) handover (quiescent example_queue 2) clock_initial) =
      Some (Exclusive_Access 0, Exclusive_Access 0, True, False, True)"
    by code_simp
  then obtain s C where sC: "timed_schedule source_orders (VecSystem unit_notify) handover
      (quiescent example_queue 2) clock_initial = Some (s, C)" "vec_access s 1 = Exclusive_Access 0" "logged C ! 4 = Exclusive_Access 0"
      "4 \<in> seen C 0" "4 \<notin> seen C 1" "races 1 (vec_access s 1) C"
    by auto
  have "\<forall>(t, ch) \<in> set handover. vec_choice_ok ch"
    using handover_choices by auto
  from timed_schedule_steps [OF sC(1) timed_init this] sC show ?thesis by blast
qed

end
