(* ===== verification/Weak_Memory.thy ===== *)
theory Weak_Memory
  imports Memory_Properties
begin

text \<open>
  Weak memory: a load that is not part of a read-modify-write may return a value that is not the latest. Every atomic
  word has a modification order (\<open>orders\<close>, its last value is the current one), and a thread may read any value of it
  that is not older than the last one which it has read or written itself (\<open>since\<close>): the coherence of C++ and Rust.
  Read-modify-writes, also a compare-and-swap that succeeds, read the current value.

  The steps that may read an old value are the loads of the enqueuing word (at the start of an enqueue and of a
  dequeue, and in every failed compare-and-swap) and of the length of a buffer (in a spin). The capacity and the
  dequeuing word are loaded only by a consumer; when there is one consumer, only that thread writes them, and it
  cannot read anything older than its own last write.

  No happens-before is taken from reading an old value, and reading a value forbids older ones of that word only, so
  the runs have more old values than the language allows. A store goes to the end of its word's modification order: the
  plain stores of the queue are those of the dequeuing word, of the capacity and of a cleared length, where the thread
  that stores is the consumer and has read the latest value. A load does not return a value that is written later.
\<close>

section \<open>Old values\<close>

record modification =
  orders :: "word_name \<Rightarrow> usize list"
  since :: "nat \<Rightarrow> word_name \<Rightarrow> nat"

primrec word_value :: "('b, 'n) queue \<Rightarrow> word_name \<Rightarrow> usize" where
  "word_value q Enqueuing_Word = enqueuing_capacity q"
| "word_value q Dequeuing_Word = dequeuing_length q"
| "word_value q Capacity_Word = capacity q"
| "word_value q (Length_Word i) = two_get (buffers_length q) i"

definition modification_initial :: "('b, 'n) queue \<Rightarrow> modification" where
  "modification_initial q = \<lparr>orders = (\<lambda>x. [word_value q x]), since = (\<lambda>_ _. 0)\<rparr>"

definition reads_at :: "nat \<Rightarrow> word_name \<Rightarrow> nat \<Rightarrow> modification \<Rightarrow> modification" where
  "reads_at t x j M = M\<lparr>since := (since M)(t := (since M t)(x := j))\<rparr>"

definition writes_to :: "nat \<Rightarrow> word_name \<Rightarrow> usize \<Rightarrow> modification \<Rightarrow> modification" where
  "writes_to t x w M = reads_at t x (length (orders M x)) (M\<lparr>orders := (orders M)(x := orders M x @ [w])\<rparr>)"

text \<open>What a step that reads current values does, after which the queue is \<open>q\<close>.\<close>

primrec order_atomic :: "nat \<Rightarrow> ('b, 'n) queue \<Rightarrow> word_name atomic_op \<Rightarrow> modification \<Rightarrow> modification" where
  "order_atomic t q No_Op M = M"
| "order_atomic t q (Load x ord) M = reads_at t x (length (orders M x) - 1) M"
| "order_atomic t q (Store x ord) M = writes_to t x (word_value q x) M"
| "order_atomic t q (Rmw x ord) M = writes_to t x (word_value q x) M"

text \<open>The step of a load that returns \<open>w\<close>, and the word that it reads.\<close>

definition after_load ::
    "('b, 's, 'n, 'v, 'c, 'r) sys \<Rightarrow> ('v, 's, 'r) pc \<Rightarrow> usize \<Rightarrow> (word_name \<times> ('v, 's, 'r) pc) option" where
  "after_load S p w =
     (case p of
        Enq_Load v \<Rightarrow> Some (Enqueuing_Word, Enq_Cas v w)
      | Enq_Cas v enq \<Rightarrow>
          if EC_is_closed enq \<or> EC_try_reserve enq (ins_size (sys_insert S) v) = None then None
          else Some (Enqueuing_Word, Enq_Cas v w)
      | Deq_Load deq r nc rs ins \<Rightarrow> Some (Enqueuing_Word, Deq_Check deq r nc rs ins w)
      | Deq_Swap r nc rs ins capa enq ne \<Rightarrow> Some (Enqueuing_Word, Deq_Swap r nc rs ins capa w ne)
      | Deq_Spin k i len \<Rightarrow>
          (case k of 0 \<Rightarrow> None
           | Suc k' \<Rightarrow> Some (Length_Word i, if len \<le> w then Deq_Slice i len w else Deq_Spin k' i len))
      | _ \<Rightarrow> None)"

datatype ('v, 'r) weak_choice = Fresh "('v, 'r) choice" | Stale nat

inductive weak_steps ::
    "lock_orders \<Rightarrow> ('b, 's, 'n, 'v, 'c, 'r) sys \<Rightarrow> (nat \<Rightarrow> ('v, 'r) choice \<Rightarrow> bool) \<Rightarrow>
     ('b, 'n, 'v, 's, 'r) state \<Rightarrow> ('v, 's, 'c, 'r) event list \<Rightarrow> ('b, 'n, 'v, 's, 'r) state \<Rightarrow> queue_clock \<Rightarrow>
     modification \<Rightarrow> bool"
  for ords S allowed s0 where
  weak_init: "weak_steps ords S allowed s0 [] s0 clock_initial (modification_initial (shared s0))"
| weak_fresh: "weak_steps ords S allowed s0 tr s C M \<Longrightarrow> t < length (threads s) \<Longrightarrow> allowed t ch \<Longrightarrow>
    thread_step S (shared s) (threads s ! t) ch = Some (Inr (q, p, ev)) \<Longrightarrow>
    weak_steps ords S allowed s0 (tr @ [ev]) \<lparr>shared = q, threads = (threads s)[t := p]\<rparr>
      (clock_step ords S t ch (shared s) (threads s ! t) C)
      (order_atomic t q (thread_atomic ords S (shared s) (threads s ! t) ch) M)"
| weak_stale: "weak_steps ords S allowed s0 tr s C M \<Longrightarrow> t < length (threads s) \<Longrightarrow>
    after_load S (threads s ! t) w = Some (x, p) \<Longrightarrow> since M t x \<le> j \<Longrightarrow> Suc j < length (orders M x) \<Longrightarrow>
    w = orders M x ! j \<Longrightarrow>
    weak_steps ords S allowed s0 (tr @ [Tau]) (s\<lparr>threads := (threads s)[t := p]\<rparr>) C (reads_at t x j M)"

text \<open>One run, for the witnesses.\<close>

fun weak_schedule ::
    "lock_orders \<Rightarrow> ('b, 's, 'n, 'v, 'c, 'r) sys \<Rightarrow> (nat \<times> ('v, 'r) weak_choice) list \<Rightarrow>
     ('b, 'n, 'v, 's, 'r) state \<Rightarrow> queue_clock \<Rightarrow> modification \<Rightarrow>
     (('v, 's, 'c, 'r) event list \<times> ('b, 'n, 'v, 's, 'r) state \<times> queue_clock \<times> modification) option" where
  "weak_schedule ords S [] s C M = Some ([], s, C, M)"
| "weak_schedule ords S ((t, Fresh ch) # sched) s C M =
     (if length (threads s) \<le> t then None
      else case thread_step S (shared s) (threads s ! t) ch of
        Some (Inr (q, p, ev)) \<Rightarrow>
          map_option (\<lambda>(tr, r). (ev # tr, r))
            (weak_schedule ords S sched \<lparr>shared = q, threads = (threads s)[t := p]\<rparr>
              (clock_step ords S t ch (shared s) (threads s ! t) C)
              (order_atomic t q (thread_atomic ords S (shared s) (threads s ! t) ch) M))
      | _ \<Rightarrow> None)"
| "weak_schedule ords S ((t, Stale j) # sched) s C M =
     (if length (threads s) \<le> t then None
      else case after_load S (threads s ! t) 0 of
        None \<Rightarrow> None
      | Some (x, _) \<Rightarrow>
          if since M t x \<le> j \<and> Suc j < length (orders M x)
          then case after_load S (threads s ! t) (orders M x ! j) of
            None \<Rightarrow> None
          | Some (_, p) \<Rightarrow>
              map_option (\<lambda>(tr, r). (Tau # tr, r))
                (weak_schedule ords S sched (s\<lparr>threads := (threads s)[t := p]\<rparr>) C (reads_at t x j M))
          else None)"

lemma after_load_word: "after_load S p w = Some (x, p') \<Longrightarrow> \<exists>p''. after_load S p w' = Some (x, p'')"
  by (auto simp: after_load_def split: pc.splits if_splits nat.splits)

lemma weak_schedule_steps:
  assumes "weak_schedule ords S sched s C M = Some (tr', s', C', M')" and "weak_steps ords S allowed s0 tr s C M"
    and "\<forall>(t, wc) \<in> set sched. case wc of Fresh ch \<Rightarrow> allowed t ch | Stale j \<Rightarrow> True"
  shows "weak_steps ords S allowed s0 (tr @ tr') s' C' M'"
  using assms
proof (induction ords S sched s C M arbitrary: tr tr' rule: weak_schedule.induct)
  case (2 ords S t ch sched s C M)
  from "2.prems"(1) obtain q p ev tr1 where t: "t < length (threads s)"
    and step: "thread_step S (shared s) (threads s ! t) ch = Some (Inr (q, p, ev))" and tr': "tr' = ev # tr1"
    and rest: "weak_schedule ords S sched \<lparr>shared = q, threads = (threads s)[t := p]\<rparr>
        (clock_step ords S t ch (shared s) (threads s ! t) C)
        (order_atomic t q (thread_atomic ords S (shared s) (threads s ! t) ch) M) = Some (tr1, s', C', M')"
    by (auto split: if_splits option.splits sum.splits)
  from "2.IH" [OF _ step refl refl refl rest weak_fresh [OF "2.prems"(2) t _ step]] t "2.prems"(3) tr' show ?case
    by simp
next
  case (3 ords S t j sched s C M)
  from "3.prems"(1) obtain x p0 where t: "t < length (threads s)" and x: "after_load S (threads s ! t) 0 = Some (x, p0)"
    by (auto split: if_splits option.splits)
  with "3.prems"(1) obtain p tr1 where j: "since M t x \<le> j \<and> Suc j < length (orders M x)"
    and p: "after_load S (threads s ! t) (orders M x ! j) = Some (x, p)" and tr': "tr' = Tau # tr1"
    and rest: "weak_schedule ords S sched (s\<lparr>threads := (threads s)[t := p]\<rparr>) C (reads_at t x j M) = Some (tr1, s', C', M')"
    using after_load_word [OF x, of "orders M x ! j"] by (auto split: if_splits option.splits)
  have "weak_steps ords S allowed s0 (tr @ [Tau]) (s\<lparr>threads := (threads s)[t := p]\<rparr>) C (reads_at t x j M)"
    using weak_stale [OF "3.prems"(2) t p] j by simp
  from "3.IH" [OF _ x refl j p refl rest this] t "3.prems"(3) tr' show ?case
    by simp
qed simp

end
