(* ===== verification/Weak_Invariant.thy ===== *)
theory Weak_Invariant
  imports Weak_Memory
begin

text \<open>
  The invariant of the runs with old values, for one consumer \<open>u\<close>: what the consumer can still read. From the enqueuing
  word it reads only words since its own last swap, which name the buffer of the enqueuing side; a word that shows a
  reservation is proof of one. A length that it reads in its spin is smaller than the number of reserved values, unless
  it is the last one. A producer that reads an old word fails in its compare-and-swap.
\<close>

section \<open>The invariant of the modification orders\<close>

text \<open>The words that exist: a queue has two buffers.\<close>

definition real_word :: "word_name \<Rightarrow> bool" where
  "real_word x \<longleftrightarrow> (\<forall>i. x = Length_Word i \<longrightarrow> i = 0 \<or> i = 1)"

text \<open>The last value of a modification order is the value of the queue.\<close>

definition orders_current :: "('b, 'n) queue \<Rightarrow> modification \<Rightarrow> bool" where
  "orders_current q M \<longleftrightarrow>
     (\<forall>x. real_word x \<longrightarrow> orders M x \<noteq> [] \<and> last (orders M x) = word_value q x \<and>
        (\<forall>t. since M t x < length (orders M x)))"

text \<open>The values of the enqueuing word that the consumer can read.\<close>

definition enqueuing_orders ::
    "('b, 's) buffer_trait \<Rightarrow> nat \<Rightarrow> ('b, 'n) queue \<Rightarrow> 'c aqueue \<Rightarrow> modification \<Rightarrow> bool" where
  "enqueuing_orders B u q A M \<longleftrightarrow>
     (\<forall>j. since M u Enqueuing_Word \<le> j \<longrightarrow> j < length (orders M Enqueuing_Word) \<longrightarrow>
        EC_buffer_index (orders M Enqueuing_Word ! j) = enq_index q \<and>
        (EC_remaining_capacity (orders M Enqueuing_Word ! j) \<noteq> buf_capacity B (two_get (buffers q) (enq_index q)) \<longrightarrow>
         aq_back A \<noteq> []))"

text \<open>The lengths of the two sides that it can read: of the enqueuing side, and of the side that it dequeues.\<close>

definition increasing_since :: "nat \<Rightarrow> word_name \<Rightarrow> modification \<Rightarrow> bool" where
  "increasing_since u x M \<longleftrightarrow>
     (\<forall>j k. since M u x \<le> j \<longrightarrow> j < k \<longrightarrow> k < length (orders M x) \<longrightarrow> orders M x ! j < orders M x ! k)"

definition lengths_complete ::
    "('v \<Rightarrow> 'c list) \<Rightarrow> nat \<Rightarrow> ('b, 'n) queue \<Rightarrow> ('v, 's, 'r) pc list \<Rightarrow> 'c aqueue \<Rightarrow> modification \<Rightarrow> bool" where
  "lengths_complete content u q ps A M \<longleftrightarrow>
     (\<forall>j. since M u (Length_Word (deq_index q)) \<le> j \<longrightarrow> j < length (orders M (Length_Word (deq_index q))) \<longrightarrow>
        unat (orders M (Length_Word (deq_index q)) ! j) < length (aq_front A) \<or>
        Suc j = length (orders M (Length_Word (deq_index q))) \<and> unacked_sum content (deq_index q) ps = 0)"

text \<open>When the spin has ended the consumer has read the last length.\<close>

definition slicer_current :: "nat \<Rightarrow> ('b, 'n) queue \<Rightarrow> ('v, 's, 'r) pc list \<Rightarrow> modification \<Rightarrow> bool" where
  "slicer_current u q ps M \<longleftrightarrow>
     ((\<exists>t < length ps. slicing (ps ! t)) \<longrightarrow>
      Suc (since M u (Length_Word (deq_index q))) = length (orders M (Length_Word (deq_index q))))"

definition weak_inv ::
    "('b, 's) buffer_trait \<Rightarrow> ('v \<Rightarrow> 'c list) \<Rightarrow> nat \<Rightarrow> ('b, 'n) queue \<Rightarrow> ('v, 's, 'r) pc list \<Rightarrow> 'c aqueue \<Rightarrow>
     modification \<Rightarrow> bool" where
  "weak_inv B content u q ps A M \<longleftrightarrow>
     orders_current q M \<and> enqueuing_orders B u q A M \<and> increasing_since u (Length_Word (enq_index q)) M \<and>
     lengths_complete content u q ps A M \<and> slicer_current u q ps M"

section \<open>What a step writes\<close>

lemma real_words [simp]:
  "real_word Enqueuing_Word" "real_word Dequeuing_Word" "real_word Capacity_Word"
  "real_word (Length_Word (EC_buffer_index w))" "real_word (Length_Word (DL_buffer_index w))"
  "real_word (Length_Word (enq_index q))" "real_word (Length_Word (deq_index q))"
  using EC_buffer_index_cases [of w] DL_buffer_index_cases [of w] enq_index_cases [of q]
  by (auto simp: real_word_def deq_index_def flip_def)

definition op_writes :: "'l atomic_op \<Rightarrow> 'l \<Rightarrow> bool" where
  "op_writes op x = (case op of No_Op \<Rightarrow> False | Load y _ \<Rightarrow> False | Store y _ \<Rightarrow> y = x | Rmw y _ \<Rightarrow> y = x)"

lemma two_get_real: "i = 0 \<or> i = 1 \<Longrightarrow> k = 0 \<or> k = 1 \<Longrightarrow> k \<noteq> (i :: usize) \<Longrightarrow> two_get (two_set p i v) k = two_get p k"
  by (auto simp: two_get_def two_set_def)

lemma two_get_index:
  "EC_buffer_index w \<noteq> 0 \<Longrightarrow> two_get (two_set p (EC_buffer_index w) v) 0 = two_get p 0"
  "EC_buffer_index w \<noteq> 1 \<Longrightarrow> two_get (two_set p (EC_buffer_index w) v) 1 = two_get p 1"
  "DL_buffer_index w \<noteq> 0 \<Longrightarrow> two_get (two_set p (DL_buffer_index w) v) 0 = two_get p 0"
  "DL_buffer_index w \<noteq> 1 \<Longrightarrow> two_get (two_set p (DL_buffer_index w) v) 1 = two_get p 1"
  using EC_buffer_index_cases [of w] DL_buffer_index_cases [of w] by (auto intro!: two_get_real)

lemma go_words:
  assumes "step_go S sp q p = Some (Inr (q', p', ev))" and "real_word x"
    and "\<And>i. p = Rel_Len i \<Longrightarrow> i = 0 \<or> i = 1"
    and "\<not> op_writes (go_atomic ords S sp q p) x"
  shows "word_value q' x = word_value q x"
  using assms
  by (cases p; cases x) (auto simp: op_writes_def go_defs Queue_lock_dequeuing_def enqueue_atomic_def cas_weak_def
      real_word_def two_get_index two_get_real split: go_splits)

lemma step_words:
  assumes step: "thread_step S q p ch = Some (Inr (q', p', ev))" and x: "real_word x"
    and rel: "\<And>i. p = Rel_Len i \<Longrightarrow> i = 0 \<or> i = 1"
    and op: "\<not> op_writes (thread_atomic ords S q p ch) x"
  shows "word_value q' x = word_value q x"
  using step
proof (rule thread_stepE)
  fix sp assume "ch = Go sp" "step_go S sp q p = Some (Inr (q', p', ev))"
  with go_words [OF this(2) x rel, of ords] op show ?thesis
    by (simp add: thread_atomic_def)
next
  fix op' s assume "ch = Handle op'" "p = Holding s" "handle_slice S q op' s = Some (Inr (q', p', ev))"
  with op show ?thesis
    by (cases x) (auto simp: thread_atomic_def handle_atomic_def op_writes_def
        dest!: slice_moves requeue_moves [where ords = ords])
next
  fix op' it assume "ch = Handle op'" "p = Iterating it" "handle_iter S q op' it = Some (Inr (q', p', ev))"
  with op show ?thesis
    by (cases x) (auto simp: thread_atomic_def handle_atomic_def op_writes_def
        dest!: iter_moves requeue_moves [where ords = ords])
qed (auto dest: start_moves(5))

lemma length_writes:
  assumes "thread_step S q p ch = Some (Inr (q', p', ev))" and "op_writes (thread_atomic ords S q p ch) (Length_Word i)"
  shows "is_dequeuing p \<or> (\<exists>v w. p = Enq_Ack v w \<and> EC_buffer_index w = i)"
    and "slicing p \<Longrightarrow> False"
  using assms
  by (cases ch; cases p; auto simp: op_writes_def thread_atomic_def handle_atomic_def requeue_atomic_def enqueue_atomic_def
      is_dequeuing_def slicing_def split: go_splits)+

lemma step_acked:
  assumes "thread_step S q p ch = Some (Inr (q', p', ev))" and "p' = Enq_Ack v w"
  shows "p = Enq_Insert v w"
  using assms(1)
proof (rule thread_stepE)
  fix sp assume "step_go S sp q p = Some (Inr (q', p', ev))"
  with assms(2) show ?thesis
    by (cases p) (auto simp: go_defs split: go_splits)
next
  fix req assume "step_start S q req = Some (Inr (q', p', ev))"
  with assms(2) show ?thesis
    by (cases req) (auto split: if_splits)
qed (use assms(2) in \<open>auto simp: is_dequeuing_def dest!: slice_moves iter_moves requeue_moves\<close>)

section \<open>The orders after a step\<close>

lemma reads_at_simps [simp]:
  "orders (reads_at t x j M) = orders M"
  "since (reads_at t x j M) u y = (if u = t \<and> y = x then j else since M u y)"
  by (simp_all add: reads_at_def)

lemma writes_to_simps [simp]:
  "orders (writes_to t x w M) y = (if y = x then orders M x @ [w] else orders M y)"
  "since (writes_to t x w M) u y = (if u = t \<and> y = x then length (orders M x) else since M u y)"
  by (simp_all add: writes_to_def)

lemma order_atomic_facts:
  assumes "M' = order_atomic t q op M"
  shows oa_orders: "orders M' x = (if op_writes op x then orders M x @ [word_value q x] else orders M x)"
    and oa_other: "u \<noteq> t \<Longrightarrow> since M' u x = since M u x"
    and oa_own: "since M' t x = since M t x \<or> Suc (since M' t x) = length (orders M' x) \<or> orders M' x = []"
    and oa_writes: "op_writes op x \<Longrightarrow> Suc (since M' t x) = length (orders M' x)"
    and oa_loads: "op = Load x ord \<Longrightarrow> orders M x \<noteq> [] \<Longrightarrow> Suc (since M' t x) = length (orders M' x)"
  using assms by (cases op; auto simp: op_writes_def)+

section \<open>Steps that read current values\<close>

lemma latest_value:
  assumes "orders_current q M" and "real_word x" and "Suc j = length (orders M x)"
  shows "orders M x ! j = word_value q x"
proof -
  have "orders M x \<noteq> []" "last (orders M x) = word_value q x"
    using assms(1,2) by (auto simp: orders_current_def)
  with assms(3) show ?thesis
    by (metis diff_Suc_1 last_conv_nth)
qed

context conc_system
begin

definition weak_moved ::
    "lock_orders \<Rightarrow> nat \<Rightarrow> ('b, 'n) queue \<Rightarrow> ('v, 's, 'r) pc list \<Rightarrow> 'c aqueue \<Rightarrow> queue_clock \<Rightarrow> modification \<Rightarrow>
     nat \<Rightarrow> ('v, 'r) choice \<Rightarrow> ('b, 'n) queue \<Rightarrow> ('v, 's, 'r) pc \<Rightarrow> ('v, 's, 'c, 'r) event \<Rightarrow> 'c aqueue \<Rightarrow>
     queue_clock \<Rightarrow> modification \<Rightarrow> bool" where
  "weak_moved ords u q ps A C M t ch q' p ev A' C' M' \<longleftrightarrow>
     moved ords (Some u) q ps A C t ch q' p ev A' C' \<and> weak_inv B content u q ps A M \<and>
     M' = order_atomic t q' (thread_atomic ords S q (ps ! t) ch) M"

lemma weak_movedD:
  assumes "weak_moved ords u q ps A C M t ch q' p ev A' C' M'"
  shows "moved ords (Some u) q ps A C t ch q' p ev A' C'"
    and "orders_current q M" "enqueuing_orders B u q A M" "increasing_since u (Length_Word (enq_index q)) M"
      "lengths_complete content u q ps A M" "slicer_current u q ps M"
    and "M' = order_atomic t q' (thread_atomic ords S q (ps ! t) ch) M"
  using assms by (simp_all add: weak_moved_def weak_inv_def)

lemma consumer_is:
  assumes "moved ords (Some u) q ps A C t ch q' p ev A' C'" and "is_dequeuing (ps ! t)"
  shows "t = u"
  using movedD(4,12) [OF assms(1)] assms(2) by (auto simp: consumers_ok_def)

lemma length_writers:
  assumes inv: "inv q ps A lo xs h" and t: "t < length ps"
    and step: "thread_step S q (ps ! t) ch = Some (Inr (q', p, ev))"
    and op: "op_writes (thread_atomic ords S q (ps ! t) ch) (Length_Word i)"
  obtains (ack) v w where "ps ! t = Enq_Ack v w" "EC_buffer_index w = i" "p = Enq_Notify" "ev = Tau"
      "two_get (buffers_length q') i = two_get (buffers_length q) i + ins_size I v"
  | (own) "is_dequeuing (ps ! t)" "i = deq_index q" "aq_front A = []" "\<not> slicing p" "\<forall>r. ev \<noteq> Ev_Swapped r"
proof (cases "is_dequeuing (ps ! t)")
  case False
  then obtain v w where pc: "ps ! t = Enq_Ack v w" "EC_buffer_index w = i"
    using length_writes(1) [OF step op] by blast
  with step show thesis
    by (auto elim!: thread_stepE simp: go_enq_ack_def Let_def sys_parts intro!: ack)
next
  case True
  note deq = inv_atD(6) [OF inv, unfolded owner(1) [OF inv t True]]
  have pcs: "(\<exists>w r nc rs ins. ps ! t = Deq_Add w r nc rs ins \<and> DL_buffer_index w = i) \<or> ps ! t = Rel_Len i"
    using op True by (cases ch; cases "ps ! t") (auto simp: op_writes_def thread_atomic_def handle_atomic_def
        requeue_atomic_def is_dequeuing_def split: go_splits)
  have "DL_buffer_index (DL_new (deq_index q) 0) = deq_index q"
    by (simp add: DL_new_fields deq_index_bound)
  with pcs deq have "i = deq_index q \<and> aq_front A = []"
    by (auto simp: prepared_def)
  moreover have "\<not> slicing p \<and> (\<forall>r. ev \<noteq> Ev_Swapped r)"
    using pcs step by (auto elim!: thread_stepE simp: go_deq_add_def Let_def slicing_def)
  ultimately show thesis
    using True own by blast
qed

lemma orders_current_step:
  assumes wm: "weak_moved ords u q ps A C M t ch q' p ev A' C' M'"
  shows "orders_current q' M'"
  unfolding orders_current_def
proof (intro allI impI)
  fix x assume x: "real_word x"
  note w = weak_movedD [OF wm] and d = movedD [OF weak_movedD(1) [OF wm]]
  note oa = order_atomic_facts [OF w(7)]
  obtain lo xs h where inv: "inv q ps A lo xs h"
    using d(1) by blast
  have cur: "orders M x \<noteq> []" "last (orders M x) = word_value q x" "\<And>t. since M t x < length (orders M x)"
    using w(2) x by (auto simp: orders_current_def)
  have rel: "i = 0 \<or> i = 1" if "ps ! t = Rel_Len i" for i
    using inv_atD(6) [OF inv] owner(1) [OF inv d(4)] that enq_index_cases [of q]
    by (auto simp: is_dequeuing_def deq_index_def flip_def)
  have "last (orders M' x) = word_value q' x"
    using oa(1) [of x] cur(2) step_words [OF d(5) x rel, of ords] by auto
  moreover have "orders M' x \<noteq> []"
    using oa(1) [of x] cur(1) by auto
  moreover have "since M' s x < length (orders M' x)" for s
    using oa(1) [of x] oa(2) [of s x] oa(3) [of x] cur calculation(2) by (cases "s = t") (auto simp: less_Suc_eq)
  ultimately show "orders M' x \<noteq> [] \<and> last (orders M' x) = word_value q' x \<and>
      (\<forall>t. since M' t x < length (orders M' x))"
    by blast
qed

lemma since_entry:
  assumes wm: "weak_moved ords u q ps A C M t ch q' p ev A' C' M'" and x: "real_word x"
    and j: "since M' s x \<le> j" "j < length (orders M' x)"
  obtains (old) "since M s x \<le> j" "j < length (orders M x)" "orders M' x ! j = orders M x ! j"
  | (latest) "Suc j = length (orders M' x)" "orders M' x ! j = word_value q' x"
proof (cases "Suc j = length (orders M' x)")
  case True
  with latest latest_value [OF orders_current_step [OF wm] x] show thesis by blast
next
  case False
  note oa = order_atomic_facts [OF weak_movedD(7) [OF wm]]
  have "since M' s x = since M s x"
    using oa(2) [of s x] oa(3) [of x] j False by (cases "s = t") auto
  moreover have "j < length (orders M x)" "orders M' x ! j = orders M x ! j"
    using oa(1) [of x] j(2) False by (auto simp: nth_append split: if_splits)
  ultimately show thesis
    using j(1) old by simp
qed

text \<open>The enqueuing word: the consumer has swapped the buffers itself, so it reads nothing from before the swap.\<close>

lemma enqueuing_orders_step:
  assumes wm: "weak_moved ords u q ps A C M t ch q' p ev A' C' M'"
  shows "enqueuing_orders B u q' A' M'"
  unfolding enqueuing_orders_def
proof (intro allI impI)
  let ?x = Enqueuing_Word
  note w = weak_movedD [OF wm] and m = weak_movedD(1) [OF wm] and d = movedD [OF weak_movedD(1) [OF wm]]
  obtain lo xs h where inv: "inv q ps A lo xs h"
    using d(1) by blast
  obtain lo' xs' h' where inv': "inv q' (ps[t := p]) A' lo' xs' h'"
    using d(2) by blast
  note e' = enq_okD [OF inv_atD(2) [OF inv']]
  fix j assume j: "since M' u ?x \<le> j" "j < length (orders M' ?x)"
  let ?ok = "\<lambda>w q A. EC_buffer_index w = enq_index q \<and>
    (EC_remaining_capacity w \<noteq> buf_capacity B (two_get (buffers q) (enq_index q)) \<longrightarrow> aq_back A \<noteq> [])"
  have now: "?ok (enqueuing_capacity q') q' A'"
    using e'(2,4) by (auto simp: enq_index_def usize_eq_iff)
  from wm real_words(1) j show "?ok (orders M' ?x ! j) q' A'"
  proof (cases rule: since_entry)
    case latest
    with now show ?thesis by simp
  next
    case old
    show ?thesis
    proof (cases "\<exists>r. ev = Ev_Swapped r")
      case True
      then obtain r where "ev = Ev_Swapped r" by blast
      note sw = moved_swap [OF m [unfolded this]]
      have "Suc (since M' u ?x) = length (orders M' ?x)"
        using order_atomic_facts(4) [OF w(7), of ?x] consumer_is [OF m sw(5)] sw(10) by (simp add: op_writes_def)
      then have "Suc j = length (orders M' ?x)"
        using j by simp
      then have "orders M' ?x ! j = enqueuing_capacity q'"
        using latest_value [OF orders_current_step [OF wm] real_words(1)] by simp
      with now show ?thesis by simp
    next
      case False
      then have i: "enq_index q' = enq_index q" and b: "aq_back A \<noteq> [] \<Longrightarrow> aq_back A' \<noteq> []"
        using moved_index(1) [OF m] back_grows [OF m] by auto
      have "next_access B I q (ps ! t) \<noteq> Exclusive_Access (enq_index q)"
        using exclusive_quiet(2) [OF inv d(4)] enq_neq_deq [of q] by auto
      note cap = moved_caps [OF m _ this]
      have "?ok (orders M ?x ! j) q A"
        using w(3) old(1,2) by (simp add: enqueuing_orders_def)
      with old(3) i b cap show ?thesis by simp
    qed
  qed
qed

lemma dequeuing_since:
  assumes "lengths_complete content u q ps A M" and "orders_current q M" and "aq_front A = []"
  shows "Suc (since M u (Length_Word (deq_index q))) = length (orders M (Length_Word (deq_index q)))"
proof -
  let ?x = "Length_Word (deq_index q)"
  have "since M u ?x < length (orders M ?x)"
    using assms(2) by (simp add: orders_current_def)
  with assms(1,3) show ?thesis
    unfolding lengths_complete_def by fastforce
qed

lemma since_grows:
  assumes wm: "weak_moved ords u q ps A C M t ch q' p ev A' C' M'" and "real_word x"
  shows "since M s x \<le> since M' s x"
proof -
  note oa = order_atomic_facts [OF weak_movedD(7) [OF wm]]
  have "since M s x < length (orders M x)" "orders M' x \<noteq> []"
    using weak_movedD(2) [OF wm] orders_current_step [OF wm] assms(2) by (auto simp: orders_current_def)
  moreover have "length (orders M x) \<le> length (orders M' x)"
    using oa(1) [of x] by simp
  ultimately show ?thesis
    using oa(2) [of s x] oa(3) [of x] by (cases "s = t") auto
qed

text \<open>The length of the enqueuing buffer grows with every acknowledgement.\<close>

lemma increasing_step:
  assumes wm: "weak_moved ords u q ps A C M t ch q' p ev A' C' M'"
  shows "increasing_since u (Length_Word (enq_index q')) M'"
proof (cases "\<exists>r. ev = Ev_Swapped r")
  case True
  then obtain r where ev: "ev = Ev_Swapped r" by blast
  note w = weak_movedD [OF wm] and sw = moved_swap [OF weak_movedD(1) [OF wm, unfolded ev]]
  have "orders M' (Length_Word (deq_index q)) = orders M (Length_Word (deq_index q))"
    using order_atomic_facts(1) [OF w(7)] sw(10) by (simp add: op_writes_def)
  with dequeuing_since [OF w(5,2) sw(3)] since_grows [OF wm, of "Length_Word (deq_index q)" u] sw(1) show ?thesis
    by (auto simp: increasing_since_def)
next
  case False
  let ?x = "Length_Word (enq_index q)"
  note w = weak_movedD [OF wm] and m = weak_movedD(1) [OF wm] and d = movedD [OF weak_movedD(1) [OF wm]]
  note oa = order_atomic_facts [OF w(7)]
  obtain lo xs h where inv: "inv q ps A lo xs h"
    using d(1) by blast
  have i: "enq_index q' = enq_index q"
    using moved_index(1) [OF m] False by blast
  have "orders M' ?x ! j < orders M' ?x ! k" if jk: "since M' u ?x \<le> j" "j < k" "k < length (orders M' ?x)" for j k
  proof (cases "k < length (orders M ?x)")
    case True
    then have "orders M' ?x ! j = orders M ?x ! j" "orders M' ?x ! k = orders M ?x ! k"
      using oa(1) [of ?x] jk(2) by (auto simp: nth_append)
    with w(4) True jk since_grows [OF wm, of ?x u] show ?thesis
      by (simp add: increasing_since_def)
  next
    case False
    then have op: "op_writes (thread_atomic ords S q (ps ! t) ch) ?x" and k: "k = length (orders M ?x)"
      using oa(1) [of ?x] jk(3) by (auto split: if_splits)
    then have t: "u \<noteq> t"
      using oa(4) [of ?x] jk by auto
    obtain v x where v: "ps ! t = Enq_Ack v x" "EC_buffer_index x = enq_index q"
      "two_get (buffers_length q') (enq_index q) = two_get (buffers_length q) (enq_index q) + ins_size I v"
      using length_writers [OF inv d(4,5) op] enq_neq_deq [of q] by metis
    have "two_get (buffers_length q) (enq_index q) < two_get (buffers_length q') (enq_index q)"
      using ack_length [OF inv d(4) v(1)] v(2,3) by (simp add: word_less_nat_alt)
    moreover have "orders M' ?x ! k = two_get (buffers_length q') (enq_index q)"
      using oa(1) [of ?x] op k by simp
    moreover have "orders M' ?x ! j \<le> two_get (buffers_length q) (enq_index q)"
    proof -
      have "last (orders M ?x) = two_get (buffers_length q) (enq_index q)" "orders M ?x \<noteq> []"
        using w(2) by (auto simp: orders_current_def)
      moreover have "orders M' ?x ! j = orders M ?x ! j"
        using oa(1) [of ?x] jk(2) k by (simp add: nth_append)
      moreover have "orders M ?x ! j \<le> orders M ?x ! (length (orders M ?x) - 1)"
        using w(4) oa(2) [OF t, of ?x] jk(1,2) k unfolding increasing_since_def
        by (cases "j = length (orders M ?x) - 1") (auto intro: less_imp_le)
      ultimately show ?thesis
        by (simp add: last_conv_nth)
    qed
    ultimately show ?thesis by simp
  qed
  with i show ?thesis
    by (simp add: increasing_since_def)
qed

text \<open>The length of the dequeuing buffer: a value that is enough for the consumer is the last one.\<close>

lemma count_front:
  assumes "inv q ps A lo xs h" and "unacked_sum content (deq_index q) ps \<noteq> 0"
  shows "unat (two_get (buffers_length q) (deq_index q)) + unacked_sum content (deq_index q) ps = length (aq_front A)"
  using inv_atD(6) [OF assms(1)] assms(2)
  by (cases h) (auto simp: parked_def settled_def prepared_def swapped_ok_def quiet_front_def)

lemma unacked_stays:
  assumes m: "moved ords c q ps A C t ch q' p ev A' C'" and un: "unacked_sum content (deq_index q) ps = 0"
  shows "unacked_sum content (deq_index q) (ps[t := p]) = 0"
proof -
  note d = movedD [OF m]
  have "unacked content (deq_index q) p = 0"
  proof (rule ccontr)
    assume "unacked content (deq_index q) p \<noteq> 0"
    then consider v w where "p = Enq_Insert v w" "EC_buffer_index w = deq_index q"
      | v w where "p = Enq_Ack v w" "EC_buffer_index w = deq_index q" "content v \<noteq> []"
      by (cases p) (auto simp: unacked_def split: if_splits)
    then show False
    proof cases
      case 1
      with step_reserves [OF d(5) 1(1)] enq_neq_deq [of q] show False
        by (simp add: enq_index_def)
    next
      case 2
      then have "ps ! t = Enq_Insert v w"
        using step_acked [OF d(5)] by simp
      with 2(2,3) have "unacked content (deq_index q) (ps ! t) \<noteq> 0"
        by (simp add: unacked_def)
      with unacked_le [OF d(4), of content "deq_index q"] un show False by simp
    qed
  qed
  with unacked_sum_update [OF d(4), of content "deq_index q" p] un show ?thesis by simp
qed

lemma lengths_complete_swaps:
  assumes wm: "weak_moved ords u q ps A C M t ch q' p (Ev_Swapped r) A' C' M'"
  shows "lengths_complete content u q' (ps[t := p]) A' M'"
  unfolding lengths_complete_def
proof (intro allI impI)
  let ?x = "Length_Word (enq_index q)"
  note w = weak_movedD [OF wm] and m = weak_movedD(1) [OF wm] and d = movedD [OF weak_movedD(1) [OF wm]]
  note sw = moved_swap [OF m]
  obtain lo xs h where inv: "inv q ps A lo xs h"
    using d(1) by blast
  have same: "orders M' ?x = orders M ?x"
    using order_atomic_facts(1) [OF w(7)] sw(10) by (simp add: op_writes_def)
  fix j assume "since M' u (Length_Word (deq_index q')) \<le> j" "j < length (orders M' (Length_Word (deq_index q')))"
  then have j: "since M u ?x \<le> j" "j < length (orders M ?x)"
    using sw(2) same since_grows [OF wm, of ?x u] by simp_all
  let ?cur = "two_get (buffers_length q) (enq_index q)"
  have last: "orders M ?x ! (length (orders M ?x) - 1) = ?cur"
    using latest_value [OF w(2), of ?x] j(2) by simp
  have un: "unacked_sum content (enq_index q) (ps[t := p]) = unacked_sum content (enq_index q) ps"
    by (rule unclaiming_update(2) [OF d(4) dequeuing_unclaiming [OF sw(5)] dequeuing_unclaiming [OF sw(6)]])
  have count: "unat ?cur + unacked_sum content (enq_index q) ps = length (aq_back A)"
    using enq_okD(5) [OF inv_atD(2) [OF inv]] .
  have "unat (orders M ?x ! j) < length (aq_back A) \<or> Suc j = length (orders M ?x) \<and> unacked_sum content (enq_index q) ps = 0"
  proof (cases "Suc j = length (orders M ?x)")
    case True
    with last have "orders M ?x ! j = ?cur"
      by (metis diff_Suc_1)
    with True count show ?thesis by auto
  next
    case False
    then have "j < length (orders M ?x) - 1" "length (orders M ?x) - 1 < length (orders M ?x)"
      using j(2) by simp_all
    with w(4) j(1) last have "orders M ?x ! j < ?cur"
      unfolding increasing_since_def by metis
    with count show ?thesis
      by (simp add: word_less_nat_alt)
  qed
  with sw(2,4) same un show "unat (orders M' (Length_Word (deq_index q')) ! j) < length (aq_front A') \<or>
      Suc j = length (orders M' (Length_Word (deq_index q'))) \<and> unacked_sum content (deq_index q') (ps[t := p]) = 0"
    by simp
qed

lemma no_slicing_after_swap:
  assumes m: "moved ords c q ps A C t ch q' p (Ev_Swapped r) A' C'" and u: "u < length ps"
  shows "\<not> slicing (ps[t := p] ! u)"
proof
  note d = movedD [OF m] and sw = moved_swap [OF m]
  obtain lo xs h where inv: "inv q' (ps[t := p]) A' lo xs h"
    using d(2) by blast
  assume s: "slicing (ps[t := p] ! u)"
  then have "is_dequeuing (ps[t := p] ! u)"
    by (cases "ps[t := p] ! u") (simp_all add: slicing_def is_dequeuing_def)
  moreover have "t < length (ps[t := p])" "is_dequeuing (ps[t := p] ! t)"
    using d(4) sw(6) by simp_all
  ultimately have "t = u"
    using one_dequeuer [OF inv, of t u] u by simp
  with s sw(7) d(4) show False by simp
qed

lemma front_stays:
  assumes m: "moved ords c q ps A C t ch q' p ev A' C'" and "\<forall>r. ev \<noteq> Ev_Swapped r" and "\<not> slicing (ps ! t)"
  shows "aq_front A' = aq_front A"
  using movedD(3) [OF m] assms(2) step_consumes [OF movedD(5) [OF m]] assms(3)
  by (cases ev) (auto simp: abs_step_def)

lemma lengths_complete_writes:
  assumes wm: "weak_moved ords u q ps A C M t ch q' p ev A' C' M'" and ev: "\<forall>r. ev \<noteq> Ev_Swapped r"
    and op: "op_writes (thread_atomic ords S q (ps ! t) ch) (Length_Word (deq_index q))"
  shows "lengths_complete content u q' (ps[t := p]) A' M'"
  unfolding lengths_complete_def
proof (intro allI impI)
  let ?x = "Length_Word (deq_index q)"
  note w = weak_movedD [OF wm] and m = weak_movedD(1) [OF wm] and d = movedD [OF weak_movedD(1) [OF wm]]
  obtain lo xs h where inv: "inv q ps A lo xs h"
    using d(1) by blast
  obtain lo' xs' h' where inv': "inv q' (ps[t := p]) A' lo' xs' h'"
    using d(2) by blast
  have i: "deq_index q' = deq_index q"
    using moved_index(2) [OF m ev] .
  have front: "aq_front A' = aq_front A"
    using front_stays [OF m ev] length_writes(2) [OF d(5) op] by blast
  fix j assume "since M' u (Length_Word (deq_index q')) \<le> j" "j < length (orders M' (Length_Word (deq_index q')))"
  then have j: "since M' u ?x \<le> j" "j < length (orders M' ?x)"
    using i by simp_all
  have now: "unat (two_get (buffers_length q') (deq_index q')) < length (aq_front A') \<or>
      unacked_sum content (deq_index q') (ps[t := p]) = 0"
    using count_front [OF inv'] by linarith
  have "unat (orders M' ?x ! j) < length (aq_front A) \<or> Suc j = length (orders M' ?x) \<and>
      unacked_sum content (deq_index q) (ps[t := p]) = 0"
  proof (cases "Suc j = length (orders M' ?x)")
    case True
    then have "orders M' ?x ! j = two_get (buffers_length q') (deq_index q)"
      using latest_value [OF orders_current_step [OF wm], of ?x] by simp
    with now True i front show ?thesis by simp
  next
    case False
    with order_atomic_facts(4) [OF w(7) op] j have "u \<noteq> t" by auto
    then obtain v x where v: "ps ! t = Enq_Ack v x" "EC_buffer_index x = deq_index q"
      using length_writers [OF inv d(4,5) op] consumer_is [OF m] by metis
    then have "unacked_sum content (deq_index q) ps \<noteq> 0"
      using unacked_le [OF d(4), of content "deq_index q"] ack_length(2) [OF inv d(4) v(1)]
      by (cases "content v") (auto simp: unacked_def)
    moreover have "since M u ?x \<le> j" "j < length (orders M ?x)" "orders M' ?x ! j = orders M ?x ! j"
      using since_entry [OF wm _ j] False by auto
    ultimately show ?thesis
      using w(5) by (auto simp: lengths_complete_def)
  qed
  with i front show "unat (orders M' (Length_Word (deq_index q')) ! j) < length (aq_front A') \<or>
      Suc j = length (orders M' (Length_Word (deq_index q'))) \<and> unacked_sum content (deq_index q') (ps[t := p]) = 0"
    by simp
qed

lemma lengths_complete_step:
  assumes wm: "weak_moved ords u q ps A C M t ch q' p ev A' C' M'"
  shows "lengths_complete content u q' (ps[t := p]) A' M'"
proof (cases "\<exists>r. ev = Ev_Swapped r")
  case True
  with lengths_complete_swaps wm show ?thesis by blast
next
  case no_swap: False
  let ?x = "Length_Word (deq_index q)"
  note w = weak_movedD [OF wm] and m = weak_movedD(1) [OF wm] and d = movedD [OF weak_movedD(1) [OF wm]]
  obtain lo xs h where inv: "inv q ps A lo xs h"
    using d(1) by blast
  show ?thesis
  proof (cases "op_writes (thread_atomic ords S q (ps ! t) ch) ?x")
    case True
    with lengths_complete_writes [OF wm] no_swap show ?thesis by blast
  next
    case False
    then have same: "orders M' ?x = orders M ?x" and i: "deq_index q' = deq_index q"
      using order_atomic_facts(1) [OF w(7), of ?x] moved_index(2) [OF m] no_swap by auto
    have old: "unat (orders M ?x ! j) < length (aq_front A) \<or> Suc j = length (orders M ?x) \<and>
        unacked_sum content (deq_index q) ps = 0" if "since M' u ?x \<le> j" "j < length (orders M ?x)" for j
      using w(5) that since_grows [OF wm, of ?x u] by (auto simp: lengths_complete_def)
    show ?thesis
    proof (cases "slicing (ps ! t)")
      case True
      then have taken: "front_taken ps A"
        using d(4) by (auto simp: front_taken_def)
      have "Suc (since M u ?x) = length (orders M ?x)"
        using w(6) True d(4) by (auto simp: slicer_current_def)
      with same since_grows [OF wm, of ?x u] unacked_stays [OF m front_empty_quiet [OF inv taken]] i show ?thesis
        by (auto simp: lengths_complete_def)
    next
      case False
      have "aq_front A' = aq_front A"
        using front_stays [OF m _ False] no_swap by blast
      then show ?thesis
        unfolding lengths_complete_def i same using old unacked_stays [OF m] by metis
    qed
  qed
qed

lemma slicer_current_step:
  assumes wm: "weak_moved ords u q ps A C M t ch q' p ev A' C' M'"
  shows "slicer_current u q' (ps[t := p]) M'"
  unfolding slicer_current_def
proof
  note w = weak_movedD [OF wm] and m = weak_movedD(1) [OF wm] and d = movedD [OF weak_movedD(1) [OF wm]]
  obtain lo xs h where inv: "inv q ps A lo xs h"
    using d(1) by blast
  obtain lo' xs' h' where inv': "inv q' (ps[t := p]) A' lo' xs' h'"
    using d(2) by blast
  assume sl: "\<exists>s < length (ps[t := p]). slicing (ps[t := p] ! s)"
  let ?x' = "Length_Word (deq_index q')"
  show "Suc (since M' u ?x') = length (orders M' ?x')"
  proof (cases "\<exists>s < length ps. slicing (ps ! s)")
    case True
    then obtain s where s: "s < length ps" "slicing (ps ! s)" by blast
    let ?x = "Length_Word (deq_index q)"
    have "\<forall>r. ev \<noteq> Ev_Swapped r"
      using no_slicing_after_swap m sl by fastforce
    then have i: "deq_index q' = deq_index q"
      using moved_index(2) [OF m] by blast
    have taken: "front_taken ps A"
      using True by (simp add: front_taken_def)
    have "\<not> op_writes (thread_atomic ords S q (ps ! t) ch) ?x"
    proof
      assume op: "op_writes (thread_atomic ords S q (ps ! t) ch) ?x"
      from inv d(4,5) op show False
      proof (cases rule: length_writers)
        case (ack v x)
        with not_in_flight [OF inv front_empty_quiet [OF inv taken] d(4)] show False
          by (simp add: in_flight_def)
      next
        case own
        have "is_dequeuing (ps ! s)"
          using s(2) by (cases "ps ! s") (simp_all add: slicing_def is_dequeuing_def)
        with one_dequeuer [OF inv d(4) own(1) s(1)] s(2) length_writes(2) [OF d(5) op] show False by blast
      qed
    qed
    then have "orders M' ?x = orders M ?x"
      using order_atomic_facts(1) [OF w(7), of ?x] by simp
    moreover have "Suc (since M u ?x) = length (orders M ?x)"
      using w(6) True by (simp add: slicer_current_def)
    moreover have "since M' u ?x < length (orders M' ?x)"
      using orders_current_step [OF wm] by (simp add: orders_current_def)
    ultimately show ?thesis
      using since_grows [OF wm, of ?x u] i by simp
  next
    case False
    with sl have p: "slicing p" "\<not> slicing (ps ! t)"
      using d(4) by (auto simp: nth_list_update split: if_splits)
    obtain i len n where i: "thread_atomic ords S q (ps ! t) ch = Load (Length_Word i) Acquire" "p = Deq_Slice i len n"
      using step_slices [OF d(5) p, of ords] by blast
    have t': "t < length (ps[t := p])" "is_dequeuing (ps[t := p] ! t)"
      using d(4) i(2) by (simp_all add: is_dequeuing_def)
    have "i = deq_index q'"
      using inv_atD(6) [OF inv'] owner(1) [OF inv' t'] d(4) i(2) by (simp add: quiet_front_def)
    moreover have "t = u"
      using consumers_step [OF m] t' by (auto simp: consumers_ok_def)
    moreover have "orders M ?x' \<noteq> []"
      using w(2) by (simp add: orders_current_def)
    ultimately show ?thesis
      using order_atomic_facts(5) [OF w(7) i(1)] by simp
  qed
qed

lemma weak_inv_step:
  assumes "weak_moved ords u q ps A C M t ch q' p ev A' C' M'"
  shows "weak_inv B content u q' (ps[t := p]) A' M'"
  using orders_current_step [OF assms] enqueuing_orders_step [OF assms] increasing_step [OF assms]
    lengths_complete_step [OF assms] slicer_current_step [OF assms]
  by (simp add: weak_inv_def)

text \<open>A step that only changes what its thread has read.\<close>

definition same_role :: "('v, 's, 'r) pc \<Rightarrow> ('v, 's, 'r) pc \<Rightarrow> bool" where
  "same_role p p' \<longleftrightarrow>
     is_dequeuing p' = is_dequeuing p \<and> unclaiming p \<and> unclaiming p' \<and> \<not> slicing p \<and> \<not> slicing p' \<and>
     (\<forall>r. p' \<noteq> Deq_Lock r)"

lemma clock_inv_frame:
  assumes C: "clock_inv B I (Some u) q ps A C" and t: "t < length ps" and role: "same_role (ps ! t) p"
  shows "clock_inv B I (Some u) q (ps[t := p]) A C"
proof -
  have ins: "ps[t := p] ! s = Enq_Insert v w \<longleftrightarrow> ps ! s = Enq_Insert v w"
    "ps[t := p] ! s = Enq_Ack v w \<longleftrightarrow> ps ! s = Enq_Ack v w"
    "slicing (ps[t := p] ! s) = slicing (ps ! s)" "is_dequeuing (ps[t := p] ! s) = is_dequeuing (ps ! s)"
    "ps[t := p] ! s = Deq_Lock r \<Longrightarrow> ps ! s = Deq_Lock r" for s v w r
    using role t by (cases "s = t"; auto simp: same_role_def unclaiming_def)+
  have kept: "kept (Some u) (ps[t := p]) C k = kept (Some u) ps C k" for k
    by (simp add: kept_def)
  have pend: "pending_ack (ps[t := p]) C i k = pending_ack ps C i k" for i k
    by (simp add: pending_ack_def ins)
  have ftk: "front_taken (ps[t := p]) A = front_taken ps A"
    by (simp add: front_taken_def ins)
  have "\<not> races s (next_access B I q (ps[t := p] ! s)) C" if "s < length ps" "ps[t := p] ! s = Enq_Insert v w" for s v w
    using C ins(1) [of s v w] that by (simp add: clock_inv_def insert_safe_def)
  then have "insert_safe B I q (ps[t := p]) C"
    by (simp add: insert_safe_def)
  moreover have "consumers_ok (Some u) (ps[t := p])"
    using C ins(4,5) unfolding clock_inv_def consumers_ok_def length_list_update by metis
  ultimately show ?thesis
    using C by (simp add: clock_inv_def all_accounted_def accounted_def dequeuing_safe_def kept pend ftk)
qed

lemma weak_inv_frame:
  assumes M: "weak_inv B content u q ps A M" and t: "t < length ps" and role: "same_role (ps ! t) p"
    and j: "since M t x \<le> j" "Suc j < length (orders M x)"
  shows "weak_inv B content u q (ps[t := p]) A (reads_at t x j M)"
proof -
  let ?M = "reads_at t x j M"
  have le: "since M s y \<le> since ?M s y" for s y
    using j(1) by simp
  have "orders_current q ?M"
    using M j by (auto simp: weak_inv_def orders_current_def)
  moreover have "enqueuing_orders B u q A ?M"
    using M le [of u Enqueuing_Word] unfolding weak_inv_def enqueuing_orders_def reads_at_simps(1)
    by (meson order_trans)
  moreover have "increasing_since u (Length_Word (enq_index q)) ?M"
    using M le [of u "Length_Word (enq_index q)"] unfolding weak_inv_def increasing_since_def reads_at_simps(1)
    by (meson order_trans)
  moreover have "lengths_complete content u q (ps[t := p]) A ?M"
  proof -
    have un: "unacked_sum content (deq_index q) (ps[t := p]) = unacked_sum content (deq_index q) ps"
      using role by (intro unclaiming_update(2) [OF t]) (simp_all add: same_role_def)
    have "lengths_complete content u q ps A M"
      using M by (simp add: weak_inv_def)
    with le [of u "Length_Word (deq_index q)"] show ?thesis
      unfolding lengths_complete_def reads_at_simps(1) un by (meson order_trans)
  qed
  moreover have "slicer_current u q (ps[t := p]) ?M"
    unfolding slicer_current_def
  proof
    assume "\<exists>s < length (ps[t := p]). slicing (ps[t := p] ! s)"
    then have "\<exists>s < length ps. slicing (ps ! s)"
      using role t by (auto simp: same_role_def nth_list_update split: if_splits)
    then have "Suc (since M u (Length_Word (deq_index q))) = length (orders M (Length_Word (deq_index q)))"
      using M by (simp add: weak_inv_def slicer_current_def)
    with j show "Suc (since ?M u (Length_Word (deq_index q))) = length (orders ?M (Length_Word (deq_index q)))"
      by auto
  qed
  ultimately show ?thesis
    by (simp add: weak_inv_def)
qed

lemma stale_enqueue:
  assumes inv: "inv q ps A lo xs h" and t: "t < length ps" and pc: "ps ! t = Enq_Load v \<or> ps ! t = Enq_Cas v w"
  shows "inv q (ps[t := Enq_Cas v w']) A lo xs h" and "same_role (ps ! t) (Enq_Cas v w')"
proof -
  have "pc_honest honest content good (Enq_Cas v w')"
    using inv_atD(4) [OF inv t] pc by auto
  then show "inv q (ps[t := Enq_Cas v w']) A lo xs h"
    using pc closed_same [OF inv]
    by (intro silent_step [OF inv t]) (auto simp: is_dequeuing_def unclaiming_def)
  show "same_role (ps ! t) (Enq_Cas v w')"
    using pc by (auto simp: same_role_def is_dequeuing_def unclaiming_def slicing_def)
qed

text \<open>A length that is not the last one does not end the spin.\<close>

lemma stale_spin:
  assumes inv: "inv q ps A lo xs h" and t: "t < length ps" "ps ! t = Deq_Spin k i len"
    and M: "lengths_complete content u q ps A M"
    and j: "since M u (Length_Word i) \<le> j" "Suc j < length (orders M (Length_Word i))"
  shows "\<not> len \<le> orders M (Length_Word i) ! j"
proof -
  have "h = Deq_Spin k i len"
    using owner(1) [OF inv t(1)] t(2) by (simp add: is_dequeuing_def)
  then have pk: "parked (dview_of B content q ps lo xs) A" and i: "i = deq_index q"
    and len: "len = of_nat (length (aq_front A))"
    using inv_atD(6) [OF inv] by simp_all
  have st: "settled (dview_of B content q ps lo xs) A"
    using pk by (simp add: parked_def)
  have "unat len = length (aq_front A)"
    using settled_front(2) [OF st inv_atD(1) [OF inv]] len by simp
  moreover have "unat (orders M (Length_Word i) ! j) < length (aq_front A)"
    using M j i by (auto simp: lengths_complete_def)
  ultimately show ?thesis
    by (simp add: word_le_nat_alt)
qed

lemma stale_step:
  assumes inv: "inv q ps A lo xs h" and C: "clock_inv B I (Some u) q ps A C" and M: "weak_inv B content u q ps A M"
    and t: "t < length ps" and load: "after_load S (ps ! t) w = Some (x, p)"
    and j: "since M t x \<le> j" "Suc j < length (orders M x)" and w: "w = orders M x ! j"
  shows "(\<exists>h'. inv q (ps[t := p]) A lo xs h') \<and> same_role (ps ! t) p"
proof -
  have u: "t = u" if "is_dequeuing (ps ! t)"
    using C t that by (auto simp: clock_inv_def consumers_ok_def)
  have enq: "EC_buffer_index w = enq_index q \<and>
      (EC_remaining_capacity w \<noteq> buf_capacity B (two_get (buffers q) (enq_index q)) \<longrightarrow> aq_back A \<noteq> [])"
    if "is_dequeuing (ps ! t)" "x = Enqueuing_Word"
    using M u [OF that(1)] that(2) j w by (simp add: weak_inv_def enqueuing_orders_def)
  note d = inv_atD [OF inv]
  note roles = same_role_def is_dequeuing_def unclaiming_def slicing_def
  show ?thesis
  proof (cases "ps ! t")
    case (Enq_Load v)
    with load have "p = Enq_Cas v w" by (simp add: after_load_def)
    with stale_enqueue [OF inv t] Enq_Load show ?thesis by blast
  next
    case (Enq_Cas v enq')
    with load have "p = Enq_Cas v w" by (auto simp: after_load_def split: if_splits)
    with stale_enqueue [OF inv t] Enq_Cas show ?thesis by blast
  next
    case (Deq_Load deq r nc rs ins)
    with load have p: "x = Enqueuing_Word" "p = Deq_Check deq r nc rs ins w" by (simp_all add: after_load_def)
    have "inv q (ps[t := p]) A lo xs p"
      by (rule own_local [OF inv t])
        (use Deq_Load p enq d(6,7) owner(1) [OF inv t] in \<open>auto simp: is_dequeuing_def pc_honest_def cap_ok_def\<close>)
    with Deq_Load p show ?thesis by (auto simp: roles)
  next
    case (Deq_Swap r nc rs ins capa enq' ne)
    with load have p: "x = Enqueuing_Word" "p = Deq_Swap r nc rs ins capa w ne" by (simp_all add: after_load_def)
    have "inv q (ps[t := p]) A lo xs p"
      by (rule own_local [OF inv t])
        (use Deq_Swap p enq d(6,7) owner(1) [OF inv t] in \<open>auto simp: is_dequeuing_def pc_honest_def cap_ok_def\<close>)
    with Deq_Swap p show ?thesis by (auto simp: roles)
  next
    case (Deq_Spin k i len)
    then obtain k' where k': "k = Suc k'" "x = Length_Word i"
      "p = (if len \<le> w then Deq_Slice i len w else Deq_Spin k' i len)"
      using load by (auto simp: after_load_def split: nat.splits)
    have "t = u"
      using u Deq_Spin by (simp add: is_dequeuing_def)
    then have "\<not> len \<le> w"
      using stale_spin [OF inv t Deq_Spin, of u M j] M j k'(2) w by (simp add: weak_inv_def)
    then have p: "p = Deq_Spin k' i len"
      using k'(3) by simp
    have "inv q (ps[t := p]) A lo xs p"
      by (rule own_local [OF inv t])
        (use Deq_Spin p d(6,7) owner(1) [OF inv t] in \<open>auto simp: is_dequeuing_def pc_honest_def cap_ok_def\<close>)
    with Deq_Spin p show ?thesis by (auto simp: roles)
  qed (use load in \<open>simp_all add: after_load_def\<close>)
qed

section \<open>All runs\<close>

lemma weak_inv_initial:
  fixes ps :: "('v, 's, 'r) pc list"
  assumes inv: "inv q ps A lo xs h" and idle: "\<forall>p \<in> set ps. p = Idle"
  shows "weak_inv B content u q ps A (modification_initial q)"
proof -
  note e = enq_okD [OF inv_atD(2) [OF inv]]
  have un: "unacked_sum content i ps = 0" for i
    using idle by (induction ps) (auto simp: unacked_sum_def unacked_def)
  have "\<not> (\<exists>t < length ps. slicing (ps ! t))"
    using idle by (auto simp: slicing_def dest!: nth_mem)
  then show ?thesis
    using e(2,4) un
    by (auto simp: weak_inv_def orders_current_def enqueuing_orders_def increasing_since_def lengths_complete_def
        slicer_current_def modification_initial_def enq_index_def usize_eq_iff)
qed

lemma weak_steps_inv:
  assumes "weak_steps ords S allowed s0 tr s C M"
    and init: "conc_inv B rep img view honest content good inserted s0 A0" and idle: "\<forall>p \<in> set (threads s0). p = Idle"
    and allowed: "\<forall>t ch. allowed t ch \<longrightarrow> choice_ok honest content good ch \<and> consumer_ok (Some u) t ch"
  shows "\<exists>A lo xs h. inv (shared s) (threads s) A lo xs h \<and> clock_inv B I (Some u) (shared s) (threads s) A C \<and>
    weak_inv B content u (shared s) (threads s) A M \<and> length (threads s) = length (threads s0) \<and>
    map img ((aq_front A0 @ aq_back A0) @ produced content inserted tr) =
      consumed img view tr @ map img (aq_front A @ aq_back A)"
  using assms(1)
proof (induction rule: weak_steps.induct)
  case weak_init
  obtain lo xs h where "inv (shared s0) (threads s0) A0 lo xs h"
    using init by (auto simp: conc_inv_def)
  with clock_inv_initial [OF idle] weak_inv_initial [OF _ idle] show ?case
    by fastforce
next
  case (weak_fresh tr s C M t ch q p ev)
  then obtain A lo xs h where inv: "inv (shared s) (threads s) A lo xs h"
    and C: "clock_inv B I (Some u) (shared s) (threads s) A C" and M: "weak_inv B content u (shared s) (threads s) A M"
    and len: "length (threads s) = length (threads s0)"
    and hist: "map img ((aq_front A0 @ aq_back A0) @ produced content inserted tr) =
      consumed img view tr @ map img (aq_front A @ aq_back A)"
    by blast
  have ok: "choice_ok honest content good ch" "consumer_ok (Some u) t ch"
    using allowed weak_fresh.hyps(3) by simp_all
  obtain A' lo' xs' h' where inv': "inv q ((threads s)[t := p]) A' lo' xs' h'"
    and ab: "abs_step img view content inserted ev A A'"
    using thread_step_ok [OF inv weak_fresh.hyps(2) ok(1) weak_fresh.hyps(4)] by (auto simp: step_ok_def)
  have "moved ords (Some u) (shared s) (threads s) A C t ch q p ev A'
      (clock_step ords S t ch (shared s) (threads s ! t) C)"
    unfolding moved_def using inv inv' ab weak_fresh.hyps(2,4) ok(2) C by (auto simp: orders_ok_def)
  then have wm: "weak_moved ords u (shared s) (threads s) A C M t ch q p ev A'
      (clock_step ords S t ch (shared s) (threads s ! t) C)
      (order_atomic t q (thread_atomic ords S (shared s) (threads s ! t) ch) M)"
    using M by (simp add: weak_moved_def)
  from clock_inv_step [OF weak_movedD(1) [OF wm]] weak_inv_step [OF wm] inv' len history_step [OF ab hist] show ?case
    by auto
next
  case (weak_stale tr s C M t w x p j)
  then obtain A lo xs h where inv: "inv (shared s) (threads s) A lo xs h"
    and C: "clock_inv B I (Some u) (shared s) (threads s) A C" and M: "weak_inv B content u (shared s) (threads s) A M"
    and len: "length (threads s) = length (threads s0)"
    and hist: "map img ((aq_front A0 @ aq_back A0) @ produced content inserted tr) =
      consumed img view tr @ map img (aq_front A @ aq_back A)"
    by blast
  obtain h' where inv': "inv (shared s) ((threads s)[t := p]) A lo xs h'" and role: "same_role (threads s ! t) p"
    using stale_step [OF inv C M weak_stale.hyps(2-6)] by blast
  have "map img ((aq_front A0 @ aq_back A0) @ produced content inserted (tr @ [Tau])) =
      consumed img view (tr @ [Tau]) @ map img (aq_front A @ aq_back A)"
    using history_step [OF abs_Tau hist] .
  with inv' clock_inv_frame [OF C weak_stale.hyps(2) role] len
    weak_inv_frame [OF M weak_stale.hyps(2) role weak_stale.hyps(4,5)] show ?case
    by auto
qed

end

end
