(* ===== verification/Weak_Properties.thy ===== *)
theory Weak_Properties
  imports Weak_Invariant
begin

text \<open>
  The queue over \<open>VecBuffer\<close> under weak memory, with one consumer thread and any number of producers: whatever old
  values the loads return, no step faults, the values come out in the order of their reservations, and no access to a
  buffer races with an earlier one.
\<close>

abbreviation one_consumer_runs where
  "one_consumer_runs u ords N \<equiv>
     weak_steps ords (VecSystem N) (\<lambda>t ch. vec_choice_ok ch \<and> consumer_ok (Some u) t ch)"

lemma weak_reach:
  assumes "queue_rep VecBuffer cells_rep q A" and "\<not> aq_held A"
    and "one_consumer_runs u ords N (quiescent q n) tr s C M"
  shows "\<exists>A' lo xs h. vec_conc.inv (shared s) (threads s) A' lo xs h \<and>
    clock_inv VecBuffer (array_insert VecBuffer_insert) (Some u) (shared s) (threads s) A' C \<and>
    length (threads s) = n \<and>
    aq_front A @ aq_back A @ produced (\<lambda>xs. xs) vec_inserted tr =
      consumed (\<lambda>x. x) (\<lambda>xs. xs) tr @ aq_front A' @ aq_back A'"
proof -
  have init: "vec_inv (quiescent q n) A"
    by (rule vec_conc.initial_inv [OF assms(1,2)]) simp
  show ?thesis
    using vec_conc.weak_steps_inv [OF assms(3) init, of u] by (fastforce simp: vec_choice_ok_def)
qed

text \<open>
  A run for the witnesses: the consumer, thread 1, first loads an enqueuing word from before the reservation of thread
  0, so its compare-and-swap fails once, and in its spin it loads an old length once.
\<close>

definition weak_example :: "(nat \<times> (nat list, nat list resize_request) weak_choice) list" where
  "weak_example =
     (0, Fresh (Start (Req_Enqueue [30]))) # replicate 2 (0, Fresh (Go False)) @
     (1, Fresh (Start (Req_Dequeue None))) # replicate 3 (1, Fresh (Go False)) @ (1, Stale 0) #
     replicate 5 (1, Fresh (Go False)) @ replicate 3 (0, Fresh (Go False)) @ (1, Stale 0) #
     replicate 2 (1, Fresh (Go False)) @ [(1, Fresh (Handle Op_Into_Iter)), (1, Fresh (Handle Op_Next))]"

lemma weak_example_run:
  obtains tr C M where
    "one_consumer_runs 1 source_orders unit_notify (quiescent example_queue 2) tr example_end C M"
    "length (logged C) = 6" "orders M Enqueuing_Word = [2, 0, 7]" "orders M (Length_Word 0) = [2, 3]"
    "produced (\<lambda>xs. xs) vec_inserted tr = [30]" "consumed (\<lambda>x. x) (\<lambda>xs. xs) tr = [10]"
proof -
  let ?run = "weak_schedule source_orders (VecSystem unit_notify) weak_example (quiescent example_queue 2)
      clock_initial (modification_initial example_queue)"
  have "map_option (\<lambda>(tr, s, C, M). (s, length (logged C), orders M Enqueuing_Word, orders M (Length_Word 0),
      produced (\<lambda>xs. xs) vec_inserted tr, consumed (\<lambda>x. x) (\<lambda>xs. xs) tr)) ?run =
      Some (example_end, 6, [2, 0, 7], [2, 3], [30], [10])"
    by code_simp
  then obtain tr C M where run: "?run = Some (tr, example_end, C, M)"
    "length (logged C) = 6" "orders M Enqueuing_Word = [2, 0, 7]" "orders M (Length_Word 0) = [2, 3]"
    "produced (\<lambda>xs. xs) vec_inserted tr = [30]" "consumed (\<lambda>x. x) (\<lambda>xs. xs) tr = [10]"
    by auto
  have init: "one_consumer_runs 1 source_orders unit_notify (quiescent example_queue 2) []
      (quiescent example_queue 2) clock_initial (modification_initial example_queue)"
    using weak_init [of source_orders "VecSystem unit_notify" _ "quiescent example_queue 2"] by simp
  have "\<forall>(t, wc) \<in> set weak_example.
      case wc of Fresh ch \<Rightarrow> vec_choice_ok ch \<and> consumer_ok (Some 1) t ch | Stale j \<Rightarrow> True"
    by (simp add: weak_example_def vec_choice_ok_def choice_ok_def consumer_ok_def)
  from weak_schedule_steps [OF run(1) init this] run that show thesis by simp
qed

text \<open>
  C5: Under weak memory, with one consumer thread, and with calls whose arrays are shorter than \<open>2^63\<close> and whose
  resizes ask for a legal capacity with room for all that they insert (\<open>vec_choice_ok\<close>; without a capacity they insert
  nothing): whatever old values the loads of producers and consumer return, no step over \<open>VecBuffer\<close> panics or reads
  uninitialised memory, and the values come out in reservation order, each once; when all threads are idle the queue
  represents exactly the values that are left.
\<close>

theorem weak_single_consumer:
  assumes "queue_rep VecBuffer cells_rep q A" and "\<not> aq_held A"
    and "one_consumer_runs u ords N (quiescent q n) tr s C M" and "t < n" and "vec_choice_ok ch"
  shows "thread_step (VecSystem N) (shared s) (threads s ! t) ch \<noteq> Some (Inl f) \<and>
    (\<exists>A'. aq_front A @ aq_back A @ produced (\<lambda>xs. xs) vec_inserted tr =
        consumed (\<lambda>x. x) (\<lambda>xs. xs) tr @ aq_front A' @ aq_back A' \<and>
      (list_all (\<lambda>p. p = Idle) (threads s) \<longrightarrow> queue_rep VecBuffer cells_rep (shared s) A'))"
proof -
  obtain A' lo xs h where inv: "vec_conc.inv (shared s) (threads s) A' lo xs h" and len: "length (threads s) = n"
    and eq: "aq_front A @ aq_back A @ produced (\<lambda>xs. xs) vec_inserted tr =
      consumed (\<lambda>x. x) (\<lambda>xs. xs) tr @ aq_front A' @ aq_back A'"
    using weak_reach [OF assms(1-3)] by blast
  then have vec: "vec_inv s A'"
    by (auto simp: conc_inv_def)
  have "thread_step (VecSystem N) (shared s) (threads s ! t) ch \<noteq> Some (Inl f)"
    using vec_conc.never_faults [OF sys_steps.start vec, of t ch N] assms(4,5) len by (simp add: vec_choice_ok_def)
  moreover have "list_all (\<lambda>p. p = Idle) (threads s) \<longrightarrow>
      queue_rep VecBuffer cells_rep (shared s) (A'\<lparr>aq_held := False\<rparr>)"
    using vec_conc.quiescent_rep [OF vec] by (simp add: list_all_iff)
  moreover have "aq_front A @ aq_back A @ produced (\<lambda>xs. xs) vec_inserted tr =
      consumed (\<lambda>x. x) (\<lambda>xs. xs) tr @ aq_front (A'\<lparr>aq_held := False\<rparr>) @ aq_back (A'\<lparr>aq_held := False\<rparr>)"
    unfolding eq by simp
  ultimately show ?thesis by blast
qed

theorem weak_single_consumer_witness:
  "\<exists>tr C M (A' :: nat aqueue). one_consumer_runs 1 source_orders unit_notify (quiescent example_queue 2) tr example_end C M \<and>
     orders M Enqueuing_Word = [2, 0, 7] \<and>
     thread_step (VecSystem unit_notify) (shared example_end) (threads example_end ! 1) (Handle Op_Next)
       \<noteq> Some (Inl Uninit_Read) \<and> [10, 20] @ [30] = [10] @ aq_front A' @ aq_back A'"
proof -
  obtain tr C M where run: "one_consumer_runs 1 source_orders unit_notify (quiescent example_queue 2) tr example_end C M"
    "length (logged C) = 6" "orders M Enqueuing_Word = [2, 0, 7]" "orders M (Length_Word 0) = [2, 3]"
    "produced (\<lambda>xs. xs) vec_inserted tr = [30]" "consumed (\<lambda>x. x) (\<lambda>xs. xs) tr = [10]"
    by (rule weak_example_run)
  have "vec_choice_ok (Handle Op_Next)"
    by (simp add: vec_choice_ok_def choice_ok_def)
  from weak_single_consumer [OF example_queue_rep example_idle run(1) _ this, of 1 Uninit_Read]
  obtain A' :: "nat aqueue" where "thread_step (VecSystem unit_notify) (shared example_end) (threads example_end ! 1)
      (Handle Op_Next) \<noteq> Some (Inl Uninit_Read)"
    "aq_front example_aqueue @ aq_back example_aqueue @ produced (\<lambda>xs. xs) vec_inserted tr =
      consumed (\<lambda>x. x) (\<lambda>xs. xs) tr @ aq_front A' @ aq_back A'"
    by (metis one_less_numeral_iff semiring_norm(76))
  moreover from this(2) have "[10, 20] @ [30] = [10] @ aq_front A' @ aq_back A'"
    unfolding run(5,6) by (simp add: example_aqueue_def)
  ultimately show ?thesis using run(1,3) by blast
qed

text \<open>
  C4: With the orderings of the source, under weak memory, when only one thread dequeues: every access to a buffer in
  every run over \<open>VecBuffer\<close> happens after all earlier accesses that conflict with it. Producers and the consumer are
  free of data races.
\<close>

theorem single_consumer_ordered:
  assumes "queue_rep VecBuffer cells_rep q A" and "\<not> aq_held A"
    and "one_consumer_runs u source_orders N (quiescent q n) tr s C M" and "t < n"
  shows "\<not> races t (vec_access s t) C"
proof -
  obtain A' lo xs h where "vec_conc.inv (shared s) (threads s) A' lo xs h"
    "clock_inv VecBuffer (array_insert VecBuffer_insert) (Some u) (shared s) (threads s) A' C" "length (threads s) = n"
    using weak_reach [OF assms(1-3)] by blast
  from vec_conc.no_unordered_access [OF this(1,2)] this(3) assms(4) show ?thesis by simp
qed

theorem single_consumer_ordered_witness:
  "\<exists>tr C M. one_consumer_runs 1 source_orders unit_notify (quiescent example_queue 2) tr example_end C M \<and>
     length (logged C) = 6 \<and> \<not> races 1 (vec_access example_end 1) C"
proof -
  obtain tr C M where run: "one_consumer_runs 1 source_orders unit_notify (quiescent example_queue 2) tr example_end C M"
    "length (logged C) = 6" "orders M Enqueuing_Word = [2, 0, 7]" "orders M (Length_Word 0) = [2, 3]"
    "produced (\<lambda>xs. xs) vec_inserted tr = [30]" "consumed (\<lambda>x. x) (\<lambda>xs. xs) tr = [10]"
    by (rule weak_example_run)
  from single_consumer_ordered [OF example_queue_rep example_idle run(1), of 1] run show ?thesis by auto
qed

end
