(* ===== verification/Waker_Orders.thy ===== *)
theory Waker_Orders
  imports Atomic_Waker Clocks
begin

text \<open>
  The atomic operations of \<open>AtomicWaker\<close> with the orderings of \<open>src/src/synchronized/atomic_waker.rs\<close>, and the runs
  of \<open>register\<close> and \<open>wake\<close> with their clocks. The one atomic word is the state, and every access to the waker cell
  is a \<open>with_mut\<close>, so any two accesses conflict.
\<close>

section \<open>Orderings of the waker\<close>

definition aw_atomic :: "atomic_waker \<Rightarrow> aw_act \<Rightarrow> unit atomic_op" where
  "aw_atomic w a =
     (case a of
        Aw_Reg cx p \<Rightarrow>
          (case p of
             Reg_Begin \<Rightarrow> if aw_state w = WAITING then Rmw () Acquire else Load () Acquire
           | Reg_Commit \<Rightarrow> if aw_state w = REGISTERING then Rmw () AcqRel else Load () Acquire
           | Reg_Swap x \<Rightarrow> Rmw () AcqRel
           | _ \<Rightarrow> No_Op)
      | Aw_Wake p \<Rightarrow>
          (case p of Wake_Begin \<Rightarrow> Rmw () AcqRel | Wake_End x \<Rightarrow> Rmw () Release | _ \<Rightarrow> No_Op)
      | Aw_Idle \<Rightarrow> No_Op)"

type_synonym cell_clock = "(unit, unit) clock"

definition aw_clock :: "nat \<Rightarrow> atomic_waker \<Rightarrow> aw_act \<Rightarrow> cell_clock \<Rightarrow> cell_clock" where
  "aw_clock t w a c = clock_atomic t (aw_atomic w a) (if aw_accesses a then clock_access t () c else c)"

inductive aw_timed :: "atomic_waker \<Rightarrow> waker set \<Rightarrow> (nat \<Rightarrow> aw_act) \<Rightarrow> cell_clock \<Rightarrow> bool" where
  awt_init: "aw_timed AtomicWaker_new {} (\<lambda>_. Aw_Idle) clock_initial"
| awt_call_register: "aw_timed w sg acts c \<Longrightarrow> acts t = Aw_Idle \<Longrightarrow>
    aw_timed w sg (acts(t := Aw_Reg cx Reg_Begin)) c"
| awt_call_wake: "aw_timed w sg acts c \<Longrightarrow> acts t = Aw_Idle \<Longrightarrow> aw_timed w sg (acts(t := Aw_Wake Wake_Begin)) c"
| awt_registers: "aw_timed w sg acts c \<Longrightarrow> acts t = Aw_Reg cx p \<Longrightarrow>
    AtomicWaker_register t cx p w sg = Inr (p', w', sg') \<Longrightarrow>
    aw_timed w' sg' (acts(t := Aw_Reg cx p')) (aw_clock t w (acts t) c)"
| awt_wakes: "aw_timed w sg acts c \<Longrightarrow> acts t = Aw_Wake p \<Longrightarrow>
    AtomicWaker_wake p w sg = Inr (p', w', sg') \<Longrightarrow>
    aw_timed w' sg' (acts(t := Aw_Wake p')) (aw_clock t w (acts t) c)"
| awt_return: "aw_timed w sg acts c \<Longrightarrow> acts t = Aw_Reg cx Reg_Done \<or> acts t = Aw_Wake Wake_Done \<Longrightarrow>
    aw_timed w sg (acts(t := Aw_Idle)) c"
| awt_signal: "aw_timed w sg acts c \<Longrightarrow> aw_timed w (sg - {x}) acts c"

section \<open>The cell is handed over with the state\<close>

text \<open>
  Whoever owns the cell knows all accesses made to it; while nobody does, they are all published with the state.
\<close>

definition aw_known :: "(nat \<Rightarrow> aw_act) \<Rightarrow> cell_clock \<Rightarrow> bool" where
  "aw_known acts c \<longleftrightarrow>
     (\<forall>t. aw_owns (acts t) \<longrightarrow> {..<length (logged c)} \<subseteq> seen c t) \<and>
     ((\<forall>t. \<not> aw_owns (acts t)) \<longrightarrow> {..<length (logged c)} \<subseteq> synced c ())"

lemma aw_timed_reach: "aw_timed w sg acts c \<Longrightarrow> aw_reach w sg acts"
  by (induction rule: aw_timed.induct) (blast intro: aw_reach.intros)+

lemma aw_atomic_rmw: "aw_atomic w a \<noteq> Store x ord"
  by (auto simp: aw_atomic_def split: aw_act_splits)

lemma aw_moves:
  assumes "a = Aw_Reg cx p \<and> AtomicWaker_register t cx p w sg = Inr (p', w', sg') \<and> a' = Aw_Reg cx p' \<or>
     a = Aw_Wake r \<and> AtomicWaker_wake r w sg = Inr (r', w', sg') \<and> a' = Aw_Wake r'"
  shows "aw_owns a' \<Longrightarrow> \<not> aw_owns a \<Longrightarrow> aw_state w = 0 \<and> (\<exists>ord. acquires ord \<and> aw_atomic w a = Rmw () ord)"
    and "aw_owns a \<Longrightarrow> \<not> aw_owns a' \<Longrightarrow> \<exists>ord. releases ord \<and> aw_atomic w a = Rmw () ord \<and> \<not> aw_accesses a"
  using assms
  by (auto simp: aw_owns_def aw_atomic_def aw_accesses_def aw_constants Let_def and_then_eq_Inr
      split: if_splits aw_act_splits option.splits)

lemma aw_clock_facts:
  fixes c :: cell_clock
  assumes "c' = aw_clock t w a c"
  shows "length (logged c') = (if aw_accesses a then Suc (length (logged c)) else length (logged c))"
    and "seen c u \<subseteq> seen c' u" and "aw_accesses a \<Longrightarrow> length (logged c) \<in> seen c' t"
    and "synced c () \<subseteq> synced c' ()"
    and "aw_atomic w a = Rmw () ord \<Longrightarrow> acquires ord \<Longrightarrow> synced c () \<subseteq> seen c' t"
    and "aw_atomic w a = Rmw () ord \<Longrightarrow> releases ord \<Longrightarrow> seen c t \<subseteq> synced c' ()"
proof -
  let ?c = "if aw_accesses a then clock_access t () c else c"
  have c': "c' = clock_atomic t (aw_atomic w a) ?c"
    using assms by (simp add: aw_clock_def)
  have c: "synced ?c = synced c" "seen c v \<subseteq> seen ?c v" "aw_accesses a \<Longrightarrow> length (logged c) \<in> seen ?c t" for v
    by (auto simp: clock_access_def)
  show "length (logged c') = (if aw_accesses a then Suc (length (logged c)) else length (logged c))"
    by (simp add: c' clock_access_def)
  show "seen c u \<subseteq> seen c' u" and "aw_accesses a \<Longrightarrow> length (logged c) \<in> seen c' t"
    using c(2,3) seen_atomic_mono unfolding c' by blast+
  show "synced c () \<subseteq> synced c' ()"
    using synced_atomic_mono [of "aw_atomic w a" "()" ?c t] aw_atomic_rmw c(1) unfolding c' by simp
  show "synced c () \<subseteq> seen c' t" if "aw_atomic w a = Rmw () ord" "acquires ord"
    using atomic_acquires [of "aw_atomic w a" "()" ord ?c t] that c(1) unfolding c' by simp
  show "seen c t \<subseteq> synced c' ()" if "aw_atomic w a = Rmw () ord" "releases ord"
    using atomic_releases [of "aw_atomic w a" "()" ord ?c t] that c(2) [of t] unfolding c' by blast
qed

lemma aw_known_step:
  fixes c :: cell_clock
  assumes inv: "aw_inv w acts" and known: "aw_known acts c"
    and enters: "aw_owns a' \<Longrightarrow> \<not> aw_owns (acts t) \<Longrightarrow>
      aw_state w = 0 \<and> (\<exists>ord. acquires ord \<and> aw_atomic w (acts t) = Rmw () ord)"
    and leaves: "aw_owns (acts t) \<Longrightarrow> \<not> aw_owns a' \<Longrightarrow>
      \<exists>ord. releases ord \<and> aw_atomic w (acts t) = Rmw () ord \<and> \<not> aw_accesses (acts t)"
  shows "aw_known (acts(t := a')) (aw_clock t w (acts t) c)"
proof -
  define c' where "c' = aw_clock t w (acts t) c"
  note f = aw_clock_facts [OF c'_def]
  show ?thesis
  proof (cases "aw_owns (acts t)")
    case True
    then have other: "\<not> aw_owns (acts u)" if "u \<noteq> t" for u
      using aw_invD(1) [OF inv] that by blast
    have own: "{..<length (logged c')} \<subseteq> seen c' t"
      using known True f(1) f(2) [of t] f(3) by (auto simp: aw_known_def lessThan_Suc split: if_splits)
    have "{..<length (logged c')} \<subseteq> synced c' ()" if "\<not> aw_owns a'"
      using leaves [OF True that] f(1,6) known True by (auto simp: aw_known_def)
    with own other show ?thesis
      by (auto simp: aw_known_def c'_def [symmetric])
  next
    case False
    then have log: "length (logged c') = length (logged c)"
      using aw_accesses_owns f(1) by auto
    show ?thesis
    proof (cases "aw_owns a'")
      case True
      then obtain ord where e: "aw_state w = 0" "acquires ord" "aw_atomic w (acts t) = Rmw () ord"
        using enters False by blast
      have none: "\<not> aw_owns (acts u)" for u
        using aw_owner_states aw_invD(2) [OF inv] e(1) by fastforce
      then have "{..<length (logged c')} \<subseteq> seen c' t"
        using known f(5) [OF e(3,2)] log by (auto simp: aw_known_def)
      with none True show ?thesis
        by (auto simp: aw_known_def c'_def [symmetric])
    next
      case not_owner: False
      have "{..<length (logged c')} \<subseteq> seen c' u" if "aw_owns (acts u)" for u
        using known that f(2) [of u] log by (auto simp: aw_known_def)
      moreover have "{..<length (logged c')} \<subseteq> synced c' ()" if "\<forall>u. \<not> aw_owns (acts u)"
        using known that f(4) log by (auto simp: aw_known_def)
      moreover have "aw_owns ((acts(t := a')) u) = aw_owns (acts u)" for u
        using False not_owner by simp
      ultimately show ?thesis
        unfolding aw_known_def c'_def [symmetric] by simp
    qed
  qed
qed

lemma aw_known_local:
  "aw_known acts c \<Longrightarrow> \<not> aw_owns (acts t) \<Longrightarrow> \<not> aw_owns a \<Longrightarrow> aw_known (acts(t := a)) c"
  by (auto simp: aw_known_def)

lemma aw_timed_known: "aw_timed w sg acts c \<Longrightarrow> aw_known acts c"
proof (induction rule: aw_timed.induct)
  case awt_init
  then show ?case by (simp add: aw_known_def)
next
  case (awt_registers w sg acts c t cx p p' w' sg')
  note moves = aw_moves [of "acts t" cx p t w sg p' w' sg' "Aw_Reg cx p'" Wake_Done Wake_Done]
  show ?case
    by (rule aw_known_step [OF aw_reach_inv [OF aw_timed_reach [OF awt_registers.hyps(1)]] awt_registers.IH])
      (use moves awt_registers.hyps in blast)+
next
  case (awt_wakes w sg acts c t p p' w' sg')
  note moves = aw_moves [of "acts t" None Reg_Done t w sg Reg_Done w' sg' "Aw_Wake p'" p p']
  show ?case
    by (rule aw_known_step [OF aw_reach_inv [OF aw_timed_reach [OF awt_wakes.hyps(1)]] awt_wakes.IH])
      (use moves awt_wakes.hyps in blast)+
next
  case (awt_return w sg acts c t cx)
  then show ?case
    by (intro aw_known_local) (auto simp: aw_owns_def)
next
  case (awt_call_register w sg acts c t cx)
  then show ?case
    by (intro aw_known_local) (simp_all add: aw_owns_def)
next
  case (awt_call_wake w sg acts c t)
  then show ?case
    by (intro aw_known_local) (simp_all add: aw_owns_def)
qed simp

text \<open>
  C15: With the orderings of \<open>register\<close> and \<open>wake\<close>, whatever calls overlap on an \<open>AtomicWaker\<close>, a thread that is
  about to access the waker cell does so after all earlier accesses of all threads: the cell is free of data races.
\<close>

theorem atomic_waker_ordered:
  assumes "aw_timed w sg acts c" and "aw_accesses (acts t)"
  shows "\<not> unordered (\<lambda>_ _. True) t () c"
  using aw_timed_known [OF assms(1)] aw_accesses_owns [OF assms(2)]
  by (auto simp: unordered_iff aw_known_def)

theorem atomic_waker_ordered_witness:
  "\<exists>c. aw_timed \<lparr>aw_state = 2, aw_waker = Some (Sync 0)\<rparr> {}
     ((\<lambda>_. Aw_Idle)(0 := Aw_Reg None Reg_Done, 1 := Aw_Wake Wake_Take)) c \<and> length (logged c) = 1 \<and>
     \<not> unordered (\<lambda>_ _. True) 1 () c"
proof -
  let ?i = "\<lambda>_ :: nat. Aw_Idle" and ?w = "\<lambda>n x. \<lparr>aw_state = n, aw_waker = x\<rparr>"
  define c1 where "c1 = aw_clock 0 AtomicWaker_new (Aw_Reg None Reg_Begin) clock_initial"
  define c2 where "c2 = aw_clock 0 (?w 1 None) (Aw_Reg None Reg_Store) c1"
  define c3 where "c3 = aw_clock 0 (?w 1 (Some (Sync 0))) (Aw_Reg None Reg_Commit) c2"
  define c4 where "c4 = aw_clock 1 (?w 0 (Some (Sync 0))) (Aw_Wake Wake_Begin) c3"
  have "aw_timed AtomicWaker_new {} (?i(0 := Aw_Reg None Reg_Begin)) clock_initial"
    by (rule awt_call_register [OF awt_init]) simp
  from awt_registers [OF this, of 0 None Reg_Begin Reg_Store "?w 1 None" "{}"]
  have "aw_timed (?w 1 None) {} (?i(0 := Aw_Reg None Reg_Store)) c1"
    by (simp add: AtomicWaker_new_def aw_constants c1_def)
  from awt_registers [OF this, of 0 None Reg_Store Reg_Commit "?w 1 (Some (Sync 0))" "{}"]
  have "aw_timed (?w 1 (Some (Sync 0))) {} (?i(0 := Aw_Reg None Reg_Commit)) c2"
    by (simp add: Waker_new_def c2_def)
  from awt_registers [OF this, of 0 None Reg_Commit Reg_Done "?w 0 (Some (Sync 0))" "{}"]
  have "aw_timed (?w 0 (Some (Sync 0))) {} (?i(0 := Aw_Reg None Reg_Done)) c3"
    by (simp add: aw_constants c3_def)
  from awt_wakes [OF awt_call_wake [OF this, of 1], of 1 Wake_Begin Wake_Take "?w 2 (Some (Sync 0))" "{}"]
  have run: "aw_timed (?w 2 (Some (Sync 0))) {} (?i(0 := Aw_Reg None Reg_Done, 1 := Aw_Wake Wake_Take)) c4"
    by (simp add: aw_constants c4_def)
  moreover from run have "length (logged c4) = 1"
    by (simp add: c4_def c3_def c2_def c1_def aw_clock_facts(1) [OF refl] aw_accesses_def)
  moreover have "\<not> unordered (\<lambda>_ _. True) 1 () c4"
    using atomic_waker_ordered [OF run, of 1] by (simp add: aw_accesses_def)
  ultimately show ?thesis by blast
qed

end
