(* ===== verification/Debug_Formats.thy ===== *)
theory Debug_Formats
  imports Queue_Properties Vectored_Buffers Synchronized
begin

text \<open>
  The \<open>Debug\<close> implementations of the crate, as the strings that they write with \<open>{:?}\<close>: those of \<open>Queue\<close>
  (\<open>src/src/queue.rs\<close>), \<open>BufferSlice\<close> and \<open>BufferIter\<close> (\<open>src/src/buffer.rs\<close>), \<open>SynchronizedNotifier\<close>
  (\<open>src/src/synchronized.rs\<close>), \<open>VectoredSlice\<close> and \<open>VectoredFrame\<close> (\<open>src/src/write_vectored.rs\<close>). The helpers
  \<open>debug_struct\<close>, \<open>debug_tuple\<close> and \<open>debug_list\<close> are those of \<open>core::fmt\<close> without the alternate flag. How a
  type parameter is written is a parameter here.
\<close>

section \<open>Helpers of \<open>core::fmt\<close>\<close>

definition digit :: "nat \<Rightarrow> char" where
  "digit d = char_of (48 + d)"

fun decimal :: "nat \<Rightarrow> string" where
  "decimal n = (if n < 10 then [digit n] else decimal (n div 10) @ [digit (n mod 10)])"

declare decimal.simps [simp del]

definition usize_debug :: "usize \<Rightarrow> string" where
  "usize_debug w = decimal (unat w)"

fun comma_separated :: "string list \<Rightarrow> string" where
  "comma_separated [] = []"
| "comma_separated [s] = s"
| "comma_separated (s # ss) = s @ '', '' @ comma_separated ss"

definition debug_struct :: "string \<Rightarrow> (string \<times> string) list \<Rightarrow> string" where
  "debug_struct name parts =
     (if parts = [] then name
      else name @ '' { '' @ comma_separated (map (\<lambda>(f, v). f @ '': '' @ v) parts) @ '' }'')"

definition debug_tuple :: "string \<Rightarrow> string list \<Rightarrow> string" where
  "debug_tuple name parts = (if parts = [] then name else name @ ''('' @ comma_separated parts @ '')'')"

definition debug_list :: "string list \<Rightarrow> string" where
  "debug_list items = ''['' @ comma_separated items @ '']''"

definition range_debug :: "range \<Rightarrow> string" where
  "range_debug r = usize_debug (fst r) @ ''..'' @ usize_debug (snd r)"

text \<open>An \<open>IoSlice\<close> is written as the list of its bytes.\<close>

definition io_slice_debug :: "io_slice \<Rightarrow> string" where
  "io_slice_debug s = debug_list (map (\<lambda>b. decimal (unat b)) s)"

section \<open>The crate's types\<close>

definition Queue_debug :: "('n \<Rightarrow> string) \<Rightarrow> ('b, 'n) queue \<Rightarrow> string" where
  "Queue_debug notify_debug q =
     debug_struct ''Queue'' [(''capacity'', usize_debug (Queue_capacity q)), (''len'', usize_debug (Queue_len q)),
       (''notify'', notify_debug (notify q))]"

definition BufferSlice_debug :: "('s \<Rightarrow> string) \<Rightarrow> 's buffer_slice \<Rightarrow> string" where
  "BufferSlice_debug slice_debug s = debug_tuple ''BufferSlice'' [slice_debug (slice_slice s)]"

definition BufferIter_debug :: "buffer_iter \<Rightarrow> string" where
  "BufferIter_debug it = debug_tuple ''BufferIter'' [range_debug (iter_range it)]"

definition SynchronizedNotifier_debug :: "'z synchronized_notifier_scheme \<Rightarrow> string" where
  "SynchronizedNotifier_debug s = debug_struct ''SynchronizedNotifier'' []"

definition VectoredSlice_debug :: "vectored_slice \<Rightarrow> string exec" where
  "VectoredSlice_debug s =
     and_then (VectoredSlice_deref s) (\<lambda>slices.
     Inr (debug_struct ''VectoredSlice'' [(''slices'', debug_list (map io_slice_debug slices)),
       (''total_size'', usize_debug (vs_total_size s))]))"

definition VectoredFrame_debug :: "vectored_slice \<Rightarrow> vectored_frame \<Rightarrow> string exec" where
  "VectoredFrame_debug s f =
     and_then (VectoredFrame_deref s f) (\<lambda>slices.
     Inr (debug_tuple ''VectoredFrame'' [debug_list (map io_slice_debug slices)]))"

section \<open>What can be read back\<close>

definition digit_value :: "char \<Rightarrow> nat" where
  "digit_value c = of_char c - 48"

definition read_decimal :: "string \<Rightarrow> nat" where
  "read_decimal s = foldl (\<lambda>n c. 10 * n + digit_value c) 0 s"

lemma digit_value_digit: "d < 10 \<Longrightarrow> digit_value (digit d) = d"
  by (simp add: digit_value_def digit_def)

lemma read_decimal_decimal [simp]: "read_decimal (decimal n) = n"
proof (induction n rule: decimal.induct)
  case (1 n)
  show ?case
  proof (cases "n < 10")
    case True
    then show ?thesis
      by (subst decimal.simps) (simp add: read_decimal_def digit_value_digit)
  next
    case False
    with 1 show ?thesis
      by (subst decimal.simps) (simp add: read_decimal_def digit_value_digit)
  qed
qed

lemma digits_only: "set (decimal n) \<subseteq> digit ` {..<10}"
proof (induction n rule: decimal.induct)
  case (1 n)
  then show ?case
    by (subst decimal.simps) auto
qed

text \<open>A number ends at the comma that follows it.\<close>

lemma decimal_comma:
  assumes "decimal m @ CHR '','' # xs = decimal n @ CHR '','' # ys"
  shows "m = n \<and> xs = ys"
proof -
  have comma: "digit d \<noteq> CHR '',''" if "d < 10" for d
  proof
    assume "digit d = CHR '',''"
    then have "(of_char (digit d) :: nat) = of_char (CHR '','')" by simp
    with that show False by (simp add: digit_def)
  qed
  have no_comma: "c \<noteq> CHR '',''" if c: "c \<in> set (decimal k)" for c k
  proof -
    obtain d where "c = digit d" "d < 10"
      using subsetD [OF digits_only c] by auto
    with comma show ?thesis by simp
  qed
  have "takeWhile (\<lambda>c. c \<noteq> CHR '','') (decimal k @ CHR '','' # zs) = decimal k" for k zs
    using no_comma by (simp add: takeWhile_tail)
  with assms have "decimal m = decimal n" by metis
  then show ?thesis
    using assms read_decimal_decimal by (metis append_same_eq same_append_eq list.inject)
qed

lemma queue_debug_observers:
  assumes "queue_rep VecBuffer cells_rep q A"
  shows "Queue_debug notify_debug q =
    ''Queue { capacity: '' @ decimal (aq_capacity A) @ '', len: '' @ decimal (length (aq_back A)) @
    '', notify: '' @ notify_debug (notify q) @ '' }''"
proof -
  have "unat (Queue_capacity q) = aq_capacity A" "unat (Queue_len q) = length (aq_back A)"
    using vec_buf.observers_refine [OF assms] by simp_all
  then show ?thesis
    by (simp add: Queue_debug_def debug_struct_def usize_debug_def)
qed

text \<open>Queues that are written alike have the same capacity, the same length and notifiers that are written alike.\<close>

lemma queue_debug_inj:
  assumes "Queue_debug notify_debug q = Queue_debug notify_debug q'"
  shows "Queue_capacity q = Queue_capacity q' \<and> Queue_len q = Queue_len q' \<and>
    notify_debug (notify q) = notify_debug (notify q')"
proof -
  let ?len = "\<lambda>q. '' len: '' @ decimal (unat (Queue_len q)) @ CHR '','' # '' notify: '' @ notify_debug (notify q) @ '' }''"
  have "decimal (unat (Queue_capacity q)) @ CHR '','' # ?len q = decimal (unat (Queue_capacity q')) @ CHR '','' # ?len q'"
    using assms by (simp add: Queue_debug_def debug_struct_def usize_debug_def)
  note c = decimal_comma [OF this]
  then have "decimal (unat (Queue_len q)) @ CHR '','' # '' notify: '' @ notify_debug (notify q) @ '' }'' =
      decimal (unat (Queue_len q')) @ CHR '','' # '' notify: '' @ notify_debug (notify q') @ '' }''"
    by simp
  from decimal_comma [OF this] c show ?thesis
    by (simp add: usize_eq_iff)
qed

lemma example_debug: "Queue_debug (\<lambda>_. ''()'') example_queue = ''Queue { capacity: 3, len: 2, notify: () }''"
  by code_simp

end
