(* ===== verification/Concurrent_Closed.thy ===== *)
theory Concurrent_Closed
  imports Memory_Steps
begin

text \<open>
  What \<open>Closed\<close> tells a consumer, in every interleaving in which nobody reopens the queue: the queue is closed for
  good, and every value that was ever reserved has been consumed. \<open>closing_ok\<close> is what holds of the word that a
  dequeue has loaded when that word is closed: no other thread can change it any more.
\<close>

lemma EC_close_closed: "EC_is_closed w \<Longrightarrow> EC_close w = w"
  unfolding EC_close_def EC_is_closed_unat bit_63 [symmetric]
  by (rule bit_word_eqI) (auto simp: bit_simps bit_CLOSED_FLAG)

definition closing_ok :: "('b, 'n) queue \<Rightarrow> 'c aqueue \<Rightarrow> ('v, 's, 'r) pc \<Rightarrow> bool" where
  "closing_ok q A p =
     (case p of
        Deq_Check w r nc rs ins enq \<Rightarrow> EC_is_closed enq \<longrightarrow> enq = enqueuing_capacity q
      | Deq_Store w e \<Rightarrow>
          e = Closed \<longrightarrow> EC_is_closed (enqueuing_capacity q) \<and> aq_front A = [] \<and> aq_back A = []
      | Reopen_Flag \<Rightarrow> False
      | _ \<Rightarrow> True)"

section \<open>Steps on a closed queue\<close>

text \<open>A closed word is changed only by the dequeuer that swaps the buffers, and by \<open>reopen\<close>.\<close>

lemma closed_step:
  assumes step: "thread_step S q p ch = Some (Inr (q', p', ev))" and closed: "EC_is_closed (enqueuing_capacity q)"
    and p: "\<not> is_dequeuing p" "p \<noteq> Reopen_Flag"
  shows "enqueuing_capacity q' = enqueuing_capacity q \<and>
    (ev = Tau \<or> (\<exists>r. ev = Ev_Enqueue r) \<or> (\<exists>e. ev = Ev_Dequeue_Err e))"
  using step
proof (rule thread_stepE)
  fix req assume "step_start S q req = Some (Inr (q', p', ev))"
  then show ?thesis
    by (cases req) (auto split: if_splits)
next
  fix sp assume "step_go S sp q p = Some (Inr (q', p', ev))"
  with closed p show ?thesis
    by (cases p) (auto simp: is_dequeuing_def go_defs cas_weak_def Queue_lock_dequeuing_def EC_close_closed
        split: go_splits)
qed (use p in \<open>simp_all add: is_dequeuing_def\<close>)

text \<open>How a thread comes to the program counters of \<open>closing_ok\<close>.\<close>

lemma closing_pcs:
  assumes step: "thread_step S q p ch = Some (Inr (q', p', ev))" and ch: "ch \<noteq> Start Req_Reopen"
  shows "p' \<noteq> Reopen_Flag"
    and "p' = Deq_Check w r nc rs ins enq \<Longrightarrow> q' = q \<and> enq = enqueuing_capacity q"
    and "p' = Deq_Store w Closed \<Longrightarrow> \<exists>r nc enq. p = Deq_Check w r nc False 0 enq \<and> q' = q \<and> ev = Tau \<and>
      EC_is_closed enq \<and> EC_remaining_capacity enq = buf_capacity (sys_buffer S) (two_get (buffers q) (EC_buffer_index enq))"
proof -
  have "p' \<noteq> Reopen_Flag \<and> (p' = Deq_Check w r nc rs ins enq \<longrightarrow> q' = q \<and> enq = enqueuing_capacity q) \<and>
    (p' = Deq_Store w Closed \<longrightarrow> (\<exists>r nc enq. p = Deq_Check w r nc False 0 enq \<and> q' = q \<and> ev = Tau \<and>
      EC_is_closed enq \<and> EC_remaining_capacity enq = buf_capacity (sys_buffer S) (two_get (buffers q) (EC_buffer_index enq))))"
    using step
  proof (rule thread_stepE)
    fix req assume "ch = Start req" "step_start S q req = Some (Inr (q', p', ev))"
    with ch show ?thesis
      by (cases req) (auto split: if_splits)
  next
    fix sp assume "step_go S sp q p = Some (Inr (q', p', ev))"
    then show ?thesis
      by (cases p) (auto simp: go_defs split: go_splits)
  next
    fix op s assume "handle_slice S q op s = Some (Inr (q', p', ev))"
    then show ?thesis
      by (cases op) (auto simp: handle_slice_def handle_requeue_def and_then_eq_Inr split: if_splits)
  next
    fix op it assume "handle_iter S q op it = Some (Inr (q', p', ev))"
    then show ?thesis
      by (cases op) (auto simp: handle_iter_def handle_requeue_def and_then_eq_Inr split: if_splits option.splits)
  qed
  then show "p' \<noteq> Reopen_Flag"
    and "p' = Deq_Check w r nc rs ins enq \<Longrightarrow> q' = q \<and> enq = enqueuing_capacity q"
    and "p' = Deq_Store w Closed \<Longrightarrow> \<exists>r nc enq. p = Deq_Check w r nc False 0 enq \<and> q' = q \<and> ev = Tau \<and>
      EC_is_closed enq \<and> EC_remaining_capacity enq = buf_capacity (sys_buffer S) (two_get (buffers q) (EC_buffer_index enq))"
    by blast+
qed

lemma closed_returned:
  assumes "thread_step S q p ch = Some (Inr (q', p', Ev_Dequeue_Err Closed))"
  shows "\<exists>w. p = Deq_Store w Closed"
  using assms
proof (rule thread_stepE)
  fix sp assume "step_go S sp q p = Some (Inr (q', p', Ev_Dequeue_Err Closed))"
  then show ?thesis
    by (cases p) (auto simp: go_defs Queue_lock_dequeuing_def DL_try_from_atomic_def split: go_splits)
next
  fix req assume "step_start S q req = Some (Inr (q', p', Ev_Dequeue_Err Closed))"
  then show ?thesis
    by (cases req) (auto split: if_splits)
qed (auto dest!: slice_moves iter_moves requeue_moves)

context conc_system
begin

section \<open>Every run without \<open>reopen\<close>\<close>

lemma closing_step:
  assumes inv: "inv q ps A lo xs h" and ok: "\<forall>u < length ps. closing_ok q A (ps ! u)" and t: "t < length ps"
    and step: "thread_step S q (ps ! t) ch = Some (Inr (q', p, ev))" and ch: "ch \<noteq> Start Req_Reopen"
    and ab: "abs_step img view content inserted ev A A'" and u: "u < length ps"
  shows "closing_ok q' A' (ps[t := p] ! u)"
proof (cases "u = t")
  case True
  have "closing_ok q' A' p"
  proof (cases "\<exists>w. p = Deq_Store w Closed")
    case True
    then obtain w r nc enq where pc: "p = Deq_Store w Closed" "ps ! t = Deq_Check w r nc False 0 enq"
      and same: "q' = q" "ev = Tau" and enq: "EC_is_closed enq"
        "EC_remaining_capacity enq = buf_capacity B (two_get (buffers q) (EC_buffer_index enq))"
      using closing_pcs(3) [OF step ch] by (auto simp: sys_parts)
    have word: "enq = enqueuing_capacity q"
      using ok t pc(2) enq(1) by (auto simp: closing_ok_def)
    note e = enq_okD [OF inv_atD(2) [OF inv]]
    have "aq_capacity A = aq_capacity A - length (aq_back A)"
      using e(2,4) enq(2) word by (simp add: enq_index_def)
    then have "length (aq_back A) = 0"
      using e(3) by linarith
    moreover have "aq_front A = []"
      using inv_atD(6) [OF inv] owner(1) [OF inv t] pc(2) by (simp add: is_dequeuing_def prepared_def)
    ultimately show ?thesis
      using ab same pc(1) word enq(1) by (simp add: closing_ok_def abs_step_def)
  next
    case False
    with closing_pcs(1,2) [OF step ch] show ?thesis
      by (cases p) (auto simp: closing_ok_def)
  qed
  with True t show ?thesis by simp
next
  case False
  note old = ok [rule_format, OF u]
  show ?thesis
  proof (cases "is_dequeuing (ps ! u) \<and> EC_is_closed (enqueuing_capacity q)")
    case True
    have "\<not> is_dequeuing (ps ! t)"
      using one_dequeuer [OF inv t _ u] True False by blast
    moreover have "ps ! t \<noteq> Reopen_Flag"
      using ok t by (auto simp: closing_ok_def)
    ultimately have "enqueuing_capacity q' = enqueuing_capacity q" "aq_front A' = aq_front A" "aq_back A' = aq_back A"
      using closed_step [OF step] True ab by (auto simp: abs_step_def)
    with old False show ?thesis
      by (simp add: closing_ok_def split: pc.splits)
  next
    case not_closed: False
    from old not_closed False show ?thesis
      by (cases "ps ! u") (auto simp: closing_ok_def is_dequeuing_def)
  qed
qed

lemma closing_steps:
  assumes "sys_steps S (\<lambda>ch. choice_ok honest content good ch \<and> ch \<noteq> Start Req_Reopen) c tr c'"
    and inv0: "conc_inv B rep img view honest content good inserted c A"
    and idle: "\<forall>p \<in> set (threads c). p = Idle"
  shows "\<exists>A' lo xs h. inv (shared c') (threads c') A' lo xs h \<and> length (threads c') = length (threads c) \<and>
    (\<forall>u < length (threads c'). closing_ok (shared c') A' (threads c' ! u)) \<and>
    map img ((aq_front A @ aq_back A) @ produced content inserted tr) =
      consumed img view tr @ map img (aq_front A' @ aq_back A')"
  using assms(1)
proof (induction rule: sys_steps.induct)
  case start
  have "closing_ok (shared c) A (threads c ! u)" if "u < length (threads c)" for u
    using bspec [OF idle nth_mem [OF that]] by (simp add: closing_ok_def)
  with inv0 show ?case
    by (auto simp: conc_inv_def)
next
  case (step tr c' t ch q p ev)
  then obtain A1 lo xs h where inv: "inv (shared c') (threads c') A1 lo xs h"
    and len: "length (threads c') = length (threads c)"
    and ok: "\<forall>u < length (threads c'). closing_ok (shared c') A1 (threads c' ! u)"
    and hist: "map img ((aq_front A @ aq_back A) @ produced content inserted tr) =
      consumed img view tr @ map img (aq_front A1 @ aq_back A1)"
    by blast
  have ch: "choice_ok honest content good ch" "ch \<noteq> Start Req_Reopen"
    using step.hyps(3) by simp_all
  obtain A2 lo' xs' h' where inv': "inv q ((threads c')[t := p]) A2 lo' xs' h'"
    and ab: "abs_step img view content inserted ev A1 A2"
    using thread_step_ok [OF inv step.hyps(2) ch(1) step.hyps(4)] by (auto simp: step_ok_def)
  have "\<forall>u < length (threads c'). closing_ok q A2 ((threads c')[t := p] ! u)"
    using closing_step [OF inv ok step.hyps(2,4) ch(2) ab] by blast
  with inv' len history_step [OF ab hist] show ?case
    by auto
qed

theorem closed_drained:
  assumes steps: "sys_steps S (\<lambda>ch. choice_ok honest content good ch \<and> ch \<noteq> Start Req_Reopen) c tr c'"
    and inv0: "conc_inv B rep img view honest content good inserted c A"
    and idle: "\<forall>p \<in> set (threads c). p = Idle" and t: "t < length (threads c)"
    and returns: "thread_step S (shared c') (threads c' ! t) ch = Some (Inr (q, p, Ev_Dequeue_Err Closed))"
  shows "EC_is_closed (enqueuing_capacity (shared c'))"
    and "map img ((aq_front A @ aq_back A) @ produced content inserted tr) = consumed img view tr"
    and "u < length (threads c) \<Longrightarrow> thread_step S (shared c') (threads c' ! u) ch' = Some (Inr (q', p', ev)) \<Longrightarrow>
      ev \<noteq> Ev_Reserved v"
proof -
  obtain A' lo xs h where inv: "inv (shared c') (threads c') A' lo xs h"
    and len: "length (threads c') = length (threads c)"
    and ok: "\<forall>u < length (threads c'). closing_ok (shared c') A' (threads c' ! u)"
    and hist: "map img ((aq_front A @ aq_back A) @ produced content inserted tr) =
      consumed img view tr @ map img (aq_front A' @ aq_back A')"
    using closing_steps [OF steps inv0 idle] by blast
  obtain w where pc: "threads c' ! t = Deq_Store w Closed"
    using closed_returned [OF returns] by blast
  with ok t len have end_: "EC_is_closed (enqueuing_capacity (shared c'))" "aq_front A' = []" "aq_back A' = []"
    by (auto simp: closing_ok_def)
  then show "EC_is_closed (enqueuing_capacity (shared c'))"
    and "map img ((aq_front A @ aq_back A) @ produced content inserted tr) = consumed img view tr"
    using hist by simp_all
  assume u: "u < length (threads c)" and step: "thread_step S (shared c') (threads c' ! u) ch' = Some (Inr (q', p', ev))"
  show "ev \<noteq> Ev_Reserved v"
  proof (cases "u = t")
    case True
    with step pc show ?thesis
      by (auto elim!: thread_stepE)
  next
    case False
    have "\<not> is_dequeuing (threads c' ! u)"
      using one_dequeuer [OF inv, of t u] t u len pc False by (auto simp: is_dequeuing_def)
    moreover have "threads c' ! u \<noteq> Reopen_Flag"
      using ok u len by (auto simp: closing_ok_def)
    ultimately show ?thesis
      using closed_step [OF step end_(1)] by auto
  qed
qed

end

section \<open>\<open>VecBuffer\<close>\<close>

abbreviation closing_runs where
  "closing_runs N \<equiv> sys_steps (VecSystem N) (\<lambda>ch. vec_choice_ok ch \<and> ch \<noteq> Start Req_Reopen)"

text \<open>
  A run for the witness: thread 1 closes a queue with two values, thread 0 takes them and drops the slice, and then is
  about to be told \<open>Closed\<close>.
\<close>

definition closing_schedule :: "(nat \<times> (nat list, nat list resize_request) choice) list" where
  "closing_schedule =
     (1, Start Req_Close) # replicate 3 (1, Go False) @ (0, Start (Req_Dequeue None)) # replicate 10 (0, Go False) @
     (0, Handle Op_Drop) # replicate 3 (0, Go False) @ (0, Start (Req_Dequeue None)) # replicate 5 (0, Go False)"

text \<open>
  C27: In every interleaving over \<open>VecBuffer\<close> in which nobody reopens the queue and what a resize inserts fits: when
  a \<open>try_dequeue\<close> returns \<open>Closed\<close>, the queue is closed, everything that it held at first or that was reserved or
  inserted since has been consumed, in that order and each value once, and no step that any thread can make next
  reserves a value. Values that were reserved before the queue was closed are not lost.
\<close>

theorem concurrent_closed_drained:
  assumes "queue_rep VecBuffer cells_rep q A" and "\<not> aq_held A"
    and "closing_runs N (quiescent q n) tr c" and "t < n"
    and "thread_step (VecSystem N) (shared c) (threads c ! t) ch = Some (Inr (q', p, Ev_Dequeue_Err Closed))"
  shows "Queue_is_closed (shared c) \<and>
    aq_front A @ aq_back A @ produced (\<lambda>xs. xs) vec_inserted tr = consumed (\<lambda>x. x) (\<lambda>xs. xs) tr \<and>
    (\<forall>u < n. \<forall>ch q' p ev. thread_step (VecSystem N) (shared c) (threads c ! u) ch = Some (Inr (q', p, ev)) \<longrightarrow>
      (\<forall>v. ev \<noteq> Ev_Reserved v))"
proof -
  have init: "vec_inv (quiescent q n) A"
    by (rule vec_conc.initial_inv [OF assms(1,2)]) simp
  note drained = vec_conc.closed_drained [OF assms(3) [unfolded vec_choice_ok_def] init _ _ assms(5)]
  show ?thesis
    using drained assms(4) by (simp add: Queue_is_closed_def)
qed

theorem concurrent_closed_drained_witness:
  "\<exists>tr c. closing_runs unit_notify (quiescent example_queue 2) tr c \<and> threads c ! 0 = Deq_Store 0 Closed \<and>
     Queue_is_closed (shared c) \<and> [10, 20] = consumed (\<lambda>x. x) (\<lambda>xs. xs) tr"
proof -
  let ?run = "run_schedule (VecSystem unit_notify) closing_schedule (quiescent example_queue 2)"
  have "map_sum (\<lambda>f. f) (\<lambda>(tr, c). (threads c ! 0, produced (\<lambda>xs. xs) vec_inserted tr)) ?run =
      Inr (Deq_Store 0 Closed, [])"
    by code_simp
  then obtain tr c where run: "?run = Inr (tr, c)" "threads c ! 0 = Deq_Store 0 Closed"
    "produced (\<lambda>xs. xs) vec_inserted tr = []"
    by (cases ?run) auto
  have "\<forall>(t, ch) \<in> set closing_schedule. vec_choice_ok ch \<and> ch \<noteq> Start Req_Reopen"
    by (simp add: closing_schedule_def vec_choice_ok_def choice_ok_def)
  then have steps: "closing_runs unit_notify (quiescent example_queue 2) tr c"
    using run_schedule_steps [OF run(1)] by blast
  have "thread_step (VecSystem unit_notify) (shared c) (threads c ! 0) (Go False) =
      Some (Inr ((shared c)\<lparr>dequeuing_length := 0\<rparr>, Idle, Ev_Dequeue_Err Closed))"
    by (simp add: run(2) thread_step_def)
  from concurrent_closed_drained [OF example_queue_rep example_idle steps _ this] run(2,3) steps show ?thesis
    by (auto simp: example_aqueue_def)
qed

end
